(* ===== verification/Prelude.thy ===== *)
theory Prelude
  imports Main "HOL-Library.Word"
begin

text \<open>
  Prelude of the xv6 development: the machine types, the identities of the kernel's locks and
  sleep channels, the result type of a kernel operation (a value or a fault), the sequencing
  combinator the operations are written with, and the partial-correctness predicate their
  proofs are written with.

  A kernel operation takes the state explicitly and returns \<open>fault + 'r\<close>: \<open>Inr\<close> is a normal
  return, \<open>Inl\<close> is a call that does not return in this state. The ways of not returning are
  kept apart: \<open>Panic\<close> is a call of \<open>panic()\<close> (kernel/printf.c), \<open>Spin\<close> is a spinlock that
  another hart holds (the \<open>while\<close> loop of \<open>acquire()\<close> does not end until that hart releases it),
  \<open>Asleep\<close> is a call of \<open>sleep()\<close> that gives up the CPU, and \<open>Diverges\<close> is a recursion deeper
  than the depth the model follows (see \<open>freewalk\<close>).
\<close>

unbundle bit_operations_syntax

type_synonym u8 = "8 word"
type_synonym u16 = "16 word"
type_synonym u32 = "32 word"
type_synonym u64 = "64 word"

text \<open>Sleep locks live in buffers and inodes; spinlocks and channels are named by their owner.\<close>

datatype slid = BufSl nat | InodeSl nat

datatype lockid =
    PidLock | WaitLock | TicksLock | KmemLock
  | ProcLock nat
  | ShmemStateLock nat
  | ShmemLock nat
  | PipeLock u64
  | BcacheLock | LogLock | ItableLock | FtableLock
  | SleepLk slid
  | ConsLock | UartTxLock | PrLock | VdiskLock

datatype chan =
    ChProc nat | ChTicks | ChLog
  | ChSleep slid
  | ChPipeRead u64 | ChPipeWrite u64
  | ChConsR | ChUartTxR | ChVdiskFree
  | ChBuf nat

datatype fault = Panic string | Spin lockid | Asleep chan | Diverges

section \<open>Sequencing\<close>

definition bnd :: "'e + 'a \<Rightarrow> ('a \<Rightarrow> 'e + 'b) \<Rightarrow> 'e + 'b" where
  "bnd m f = (case m of Inl e \<Rightarrow> Inl e | Inr x \<Rightarrow> f x)"

lemma bnd_Inl [simp]: "bnd (Inl e) f = Inl e"
  by (simp add: bnd_def)

lemma bnd_Inr [simp]: "bnd (Inr x) f = f x"
  by (simp add: bnd_def)

lemma bnd_cong [fundef_cong]:
  "m = m' \<Longrightarrow> (\<And>x. m' = Inr x \<Longrightarrow> f x = g x) \<Longrightarrow> bnd m f = bnd m' g"
  by (cases m') (simp_all add: bnd_def)

lemma bnd_eq_Inr: "bnd m f = Inr y \<longleftrightarrow> (\<exists>x. m = Inr x \<and> f x = Inr y)"
  by (cases m) simp_all

lemma bnd_eq_Inl: "bnd m f = Inl e \<longleftrightarrow> m = Inl e \<or> (\<exists>x. m = Inr x \<and> f x = Inl e)"
  by (cases m) auto

lemma bnd_InrE:
  assumes "bnd m f = Inr y"
  obtains x where "m = Inr x" and "f x = Inr y"
  using assms by (auto simp: bnd_eq_Inr)

lemma bnd_assoc: "bnd (bnd m f) g = bnd m (\<lambda>x. bnd (f x) g)"
  by (cases m) simp_all

text \<open>A \<open>for\<close> loop over the elements of a list, in order.\<close>

fun for_each :: "'i list \<Rightarrow> ('i \<Rightarrow> 's \<Rightarrow> 'e + 's) \<Rightarrow> 's \<Rightarrow> 'e + 's" where
  "for_each [] f s = Inr s"
| "for_each (i # is) f s = bnd (f i s) (for_each is f)"

lemma for_each_append: "for_each (xs @ ys) f s = bnd (for_each xs f s) (for_each ys f)"
  by (induction xs arbitrary: s) (simp_all add: bnd_def split: sum.split)

text \<open>A counting loop with an invariant: it returns, or it stops at the first index that faults.\<close>

lemma for_each_upt:
  "I 0 s \<Longrightarrow> (\<And>i s. i < n \<Longrightarrow> I i s \<Longrightarrow> \<exists>s'. f i s = Inr s' \<and> I (Suc i) s') \<Longrightarrow>
     \<exists>s'. for_each [0..<n] f s = Inr s' \<and> I n s'"
proof (induction n)
  case (Suc n)
  then obtain s1 where s1: "for_each [0..<n] f s = Inr s1" "I n s1" by auto
  from Suc.prems(2) [OF _ s1(2)] obtain s2 where "f n s1 = Inr s2" "I (Suc n) s2" by auto
  with s1(1) show ?case by (simp add: for_each_append)
qed simp

lemma for_each_upt_fail:
  assumes "I 0 s" and "\<And>i s. i < k \<Longrightarrow> I i s \<Longrightarrow> \<exists>s'. f i s = Inr s' \<and> I (Suc i) s'"
    and "\<And>s. I k s \<Longrightarrow> f k s = Inl e" and "k < n"
  shows "for_each [0..<n] f s = Inl e"
proof -
  obtain s1 where s1: "for_each [0..<k] f s = Inr s1" "I k s1"
    using for_each_upt [of I s k f] assms(1,2) by blast
  have "[0..<n] = [0..<k] @ k # [Suc k..<n]"
    using assms(4) by (metis le_add_diff_inverse less_imp_le_nat upt_add_eq_append upt_conv_Cons zero_le)
  with s1 assms(3) show ?thesis by (simp add: for_each_append)
qed

section \<open>Partial correctness\<close>

text \<open>
  \<open>post m P\<close>: if the call returns normally, its result satisfies \<open>P\<close>. The frame and invariant
  lemmas of the components are stated with it, so that a composed operation is handled by one
  rule per construct; theorems that a call does return are stated as equations.
\<close>

definition post :: "'e + 'a \<Rightarrow> ('a \<Rightarrow> bool) \<Rightarrow> bool" where
  "post m P \<longleftrightarrow> (\<forall>x. m = Inr x \<longrightarrow> P x)"

named_theorems post_rules \<open>the rules that decompose \<open>post\<close> goals\<close>

lemma post_Inl [simp]: "post (Inl e) P"
  by (simp add: post_def)

lemma post_Inr [simp]: "post (Inr x) P \<longleftrightarrow> P x"
  by (simp add: post_def)

lemma postD: "post m P \<Longrightarrow> m = Inr x \<Longrightarrow> P x"
  by (simp add: post_def)

lemma postI: "(\<And>x. m = Inr x \<Longrightarrow> P x) \<Longrightarrow> post m P"
  by (simp add: post_def)

lemma post_bnd: "post (bnd m f) P \<longleftrightarrow> post m (\<lambda>x. post (f x) P)"
  by (cases m) simp_all

lemma post_bndI [post_rules]:
  "post m Q \<Longrightarrow> (\<And>x. Q x \<Longrightarrow> post (f x) P) \<Longrightarrow> post (bnd m f) P"
  by (auto simp: post_def bnd_eq_Inr)

lemma post_mono: "post m Q \<Longrightarrow> (\<And>x. Q x \<Longrightarrow> P x) \<Longrightarrow> post m P"
  by (simp add: post_def)

lemma post_if [post_rules]:
  "(b \<Longrightarrow> post m P) \<Longrightarrow> (\<not> b \<Longrightarrow> post n P) \<Longrightarrow> post (if b then m else n) P"
  by simp

lemma post_conj: "post m P \<Longrightarrow> post m Q \<Longrightarrow> post m (\<lambda>x. P x \<and> Q x)"
  by (simp add: post_def)

lemma post_for_each:
  "P s \<Longrightarrow> (\<And>i s. i \<in> set is \<Longrightarrow> P s \<Longrightarrow> post (f i s) P) \<Longrightarrow> post (for_each is f s) P"
proof (induction "is" arbitrary: s)
  case (Cons i "is")
  have "post (f i s) P" by (rule Cons.prems(2)) (use Cons.prems(1) in auto)
  moreover have "post (for_each is f t) P" if "P t" for t
    by (rule Cons.IH) (use that Cons.prems(2) in auto)
  ultimately show ?case unfolding for_each.simps post_bnd by (rule post_mono)
qed simp

section \<open>C integers\<close>

text \<open>
  C's \<open>int\<close> is an \<open>int\<close> of HOL with the two's-complement wrap written out at each arithmetic
  step: \<open>s32\<close> is what a 32-bit register holds after the operation. \<open>in32\<close> is its range.
\<close>

definition s32 :: "int \<Rightarrow> int" where
  "s32 x = signed_take_bit 31 x"

definition in32 :: "int \<Rightarrow> bool" where
  "in32 x \<longleftrightarrow> - (2 ^ 31) \<le> x \<and> x < 2 ^ 31"

lemma s32_id: "in32 x \<Longrightarrow> s32 x = x"
  by (simp add: s32_def in32_def signed_take_bit_int_eq_self)

lemma in32_s32 [simp]: "in32 (s32 x)"
  using signed_take_bit_int_greater_eq_minus_exp [of 31 x]
    signed_take_bit_int_less_exp [of 31 x]
  by (simp add: s32_def in32_def)

lemma s32_small: "- 2147483648 \<le> x \<Longrightarrow> x < 2147483648 \<Longrightarrow> s32 x = x"
  by (rule s32_id) (simp add: in32_def)

lemma s32_idem [simp]: "s32 (s32 x) = s32 x"
  by (rule s32_id) (rule in32_s32)

text \<open>
  An \<open>int\<close> read from a 64-bit register (a system call argument) and an \<open>int\<close> converted to a
  64-bit register (a system call result, sign extended).
\<close>

definition int_of_u64 :: "u64 \<Rightarrow> int" where
  "int_of_u64 r = s32 (uint r)"

definition u64_of_int :: "int \<Rightarrow> u64" where
  "u64_of_int i = word_of_int i"

lemma uint_word_of_int_s32: "s32 (uint (word_of_int i :: u64)) = s32 i"
  unfolding s32_def
  by (rule bit_eqI) (auto simp: bit_signed_take_bit_iff bit_uint_iff bit_word_of_int_iff min_def)

lemma int_of_u64_of_int: "in32 i \<Longrightarrow> int_of_u64 (u64_of_int i) = i"
  by (simp add: int_of_u64_def u64_of_int_def uint_word_of_int_s32 s32_id)

section \<open>Function updates over an index range\<close>

lemma fold_upd_notin:
  "i \<notin> set is \<Longrightarrow> fold (\<lambda>j m. m(j := g j)) is f i = f i"
  by (induction "is" arbitrary: f) auto

lemma fold_upd_in:
  "i \<in> set is \<Longrightarrow> fold (\<lambda>j m. m(j := g j)) is f i = g i"
proof (induction "is" arbitrary: f)
  case (Cons j js)
  then show ?case
    by (cases "i \<in> set js") (auto simp: fold_upd_notin fun_upd_same simp del: fun_upd_apply)
qed simp

end
