(* ===== verification/Cmem.thy ===== *)
theory Cmem
  imports Prelude
begin

text \<open>
  Byte-addressed memory and the routines of kernel/string.c on it.

  Memory is a total function from 64-bit addresses to bytes: every C object the kernel reaches
  through a pointer into RAM (free-list nodes, page-table entries, user pages, shared pages,
  strings) is read and written in it, little endian as on RISC-V. The loops of string.c are
  recursive functions over the number of iterations left; each has a closed form, which the
  client components use.
\<close>

unbundle bit_operations_syntax

type_synonym memory = "u64 \<Rightarrow> u8"

section \<open>Multi-byte accesses\<close>

definition byte_of :: "nat \<Rightarrow> 'a::len word \<Rightarrow> u8" where
  "byte_of i w = ucast (drop_bit (8 * i) w)"

fun ldn :: "nat \<Rightarrow> memory \<Rightarrow> u64 \<Rightarrow> 'a::len word" where
  "ldn 0 m a = 0"
| "ldn (Suc n) m a = ucast (m a) OR push_bit 8 (ldn n m (a + 1))"

fun stn :: "nat \<Rightarrow> memory \<Rightarrow> u64 \<Rightarrow> 'a::len word \<Rightarrow> memory" where
  "stn 0 m a w = m"
| "stn (Suc n) m a w = (stn n m (a + 1) (drop_bit 8 w))(a := ucast w)"

definition ld32 :: "memory \<Rightarrow> u64 \<Rightarrow> u32" where
  "ld32 m a = ldn 4 m a"

definition st32 :: "memory \<Rightarrow> u64 \<Rightarrow> u32 \<Rightarrow> memory" where
  "st32 m a w = stn 4 m a w"

definition ld64 :: "memory \<Rightarrow> u64 \<Rightarrow> u64" where
  "ld64 m a = ldn 8 m a"

definition st64 :: "memory \<Rightarrow> u64 \<Rightarrow> u64 \<Rightarrow> memory" where
  "st64 m a w = stn 8 m a w"

text \<open>An \<open>int\<close> object in memory, as \<open>shared_memory[index]\<close> reads and writes it.\<close>

definition ldint :: "memory \<Rightarrow> u64 \<Rightarrow> int" where
  "ldint m a = sint (ld32 m a)"

definition stint :: "memory \<Rightarrow> u64 \<Rightarrow> int \<Rightarrow> memory" where
  "stint m a v = st32 m a (word_of_int v)"

section \<open>string.c\<close>

text \<open>\<open>memset\<close>: the \<open>for\<close> loop, \<open>i\<close> from 0 to \<open>n\<close>.\<close>

definition memset :: "memory \<Rightarrow> u64 \<Rightarrow> u8 \<Rightarrow> u32 \<Rightarrow> memory" where
  "memset m dst c n = fold (\<lambda>i m. m(dst + of_nat i := c)) [0..<unat n] m"

fun memcmp_loop :: "memory \<Rightarrow> u64 \<Rightarrow> u64 \<Rightarrow> nat \<Rightarrow> int" where
  "memcmp_loop m s1 s2 0 = 0"
| "memcmp_loop m s1 s2 (Suc n) =
     (if m s1 \<noteq> m s2 then uint (m s1) - uint (m s2)
      else memcmp_loop m (s1 + 1) (s2 + 1) n)"

definition memcmp :: "memory \<Rightarrow> u64 \<Rightarrow> u64 \<Rightarrow> u32 \<Rightarrow> int" where
  "memcmp m v1 v2 n = memcmp_loop m v1 v2 (unat n)"

text \<open>\<open>memmove\<close>: the two loops, and the overlap test that chooses between them.\<close>

fun copy_fwd :: "memory \<Rightarrow> u64 \<Rightarrow> u64 \<Rightarrow> nat \<Rightarrow> memory" where
  "copy_fwd m d s 0 = m"
| "copy_fwd m d s (Suc n) = copy_fwd (m(d := m s)) (d + 1) (s + 1) n"

fun copy_bwd :: "memory \<Rightarrow> u64 \<Rightarrow> u64 \<Rightarrow> nat \<Rightarrow> memory" where
  "copy_bwd m d s 0 = m"
| "copy_bwd m d s (Suc n) = copy_bwd (m(d - 1 := m (s - 1))) (d - 1) (s - 1) n"

definition memmove :: "memory \<Rightarrow> u64 \<Rightarrow> u64 \<Rightarrow> u32 \<Rightarrow> memory" where
  "memmove m dst src n =
     (if n = 0 then m
      else if src < dst \<and> src + ucast n > dst
           then copy_bwd m (dst + ucast n) (src + ucast n) (unat n)
           else copy_fwd m dst src (unat n))"

definition memcpy :: "memory \<Rightarrow> u64 \<Rightarrow> u64 \<Rightarrow> u32 \<Rightarrow> memory" where
  "memcpy m dst src n = memmove m dst src n"

fun strncmp_loop :: "memory \<Rightarrow> u64 \<Rightarrow> u64 \<Rightarrow> nat \<Rightarrow> int" where
  "strncmp_loop m p q 0 = 0"
| "strncmp_loop m p q (Suc n) =
     (if m p \<noteq> 0 \<and> m p = m q then strncmp_loop m (p + 1) (q + 1) n
      else uint (m p) - uint (m q))"

definition strncmp :: "memory \<Rightarrow> u64 \<Rightarrow> u64 \<Rightarrow> u32 \<Rightarrow> int" where
  "strncmp m p q n = strncmp_loop m p q (unat n)"

fun zero_fill :: "memory \<Rightarrow> u64 \<Rightarrow> nat \<Rightarrow> memory" where
  "zero_fill m s 0 = m"
| "zero_fill m s (Suc n) = zero_fill (m(s := 0)) (s + 1) n"

text \<open>\<open>strncpy\<close>: copy up to and including the NUL, then fill what is left of \<open>n\<close> with zeroes.\<close>

fun strncpy_loop :: "memory \<Rightarrow> u64 \<Rightarrow> u64 \<Rightarrow> nat \<Rightarrow> memory" where
  "strncpy_loop m s t 0 = m"
| "strncpy_loop m s t (Suc n) =
     (if m t \<noteq> 0 then strncpy_loop (m(s := m t)) (s + 1) (t + 1) n
      else zero_fill (m(s := m t)) (s + 1) n)"

definition strncpy :: "memory \<Rightarrow> u64 \<Rightarrow> u64 \<Rightarrow> int \<Rightarrow> memory" where
  "strncpy m s t n = strncpy_loop m s t (nat n)"

text \<open>
  \<open>safestrcpy\<close>: the loop runs while \<open>--n > 0\<close> and the byte copied is not NUL; \<open>*s = 0\<close> after it.
  The argument is \<open>n - 1\<close>, the number of times the first test succeeds.
\<close>

fun safestrcpy_loop :: "memory \<Rightarrow> u64 \<Rightarrow> u64 \<Rightarrow> nat \<Rightarrow> memory" where
  "safestrcpy_loop m s t 0 = m(s := 0)"
| "safestrcpy_loop m s t (Suc n) =
     (if m t \<noteq> 0 then safestrcpy_loop (m(s := m t)) (s + 1) (t + 1) n
      else m(s := m t, s + 1 := 0))"

definition safestrcpy :: "memory \<Rightarrow> u64 \<Rightarrow> u64 \<Rightarrow> int \<Rightarrow> memory" where
  "safestrcpy m s t n = (if n \<le> 0 then m else safestrcpy_loop m s t (nat (n - 1)))"

text \<open>\<open>strlen\<close> does not return on a memory without a NUL byte: \<open>None\<close>.\<close>

partial_function (option) strlen_from :: "memory \<Rightarrow> u64 \<Rightarrow> int \<Rightarrow> int option" where
  "strlen_from m s n =
     (if m (s + word_of_int n) = 0 then Some n else strlen_from m s (s32 (n + 1)))"

definition strlen :: "memory \<Rightarrow> u64 \<Rightarrow> int option" where
  "strlen m s = strlen_from m s 0"

section \<open>Address ranges\<close>

text \<open>\<open>in_rng a n b\<close>: the address \<open>b\<close> is one of the \<open>n\<close> bytes from \<open>a\<close>.\<close>

definition in_rng :: "u64 \<Rightarrow> nat \<Rightarrow> u64 \<Rightarrow> bool" where
  "in_rng a n b \<longleftrightarrow> unat (b - a) < n"

lemma in_rng_0 [simp]: "\<not> in_rng a 0 b"
  by (simp add: in_rng_def)

lemma in_rng_iff: "n \<le> 2 ^ 64 \<Longrightarrow> in_rng a n b \<longleftrightarrow> (\<exists>i<n. b = a + of_nat i)"
proof
  assume "in_rng a n b"
  then show "\<exists>i<n. b = a + of_nat i"
    by (intro exI [of _ "unat (b - a)"]) (simp add: in_rng_def)
next
  assume n: "n \<le> 2 ^ 64" and "\<exists>i<n. b = a + of_nat i"
  then obtain i where i: "i < n" "b = a + of_nat i" by auto
  with n have "unat (of_nat i :: u64) = i"
    by (simp add: unat_of_nat)
  with i show "in_rng a n b" by (simp add: in_rng_def)
qed

lemma in_rng_Suc: "n < 2 ^ 64 \<Longrightarrow> in_rng a (Suc n) b \<longleftrightarrow> b = a \<or> in_rng (a + 1) n b"
proof -
  assume n: "n < 2 ^ 64"
  show ?thesis
  proof (cases "b = a")
    case False
    have "b - a = (b - (a + 1)) + 1" by simp
    moreover have "b - (a + 1) + 1 \<noteq> 0" using False by simp
    ultimately have "unat (b - a) = Suc (unat (b - (a + 1)))"
      by (metis Suc_eq_plus1 add.commute unatSuc)
    with False show ?thesis by (simp add: in_rng_def)
  qed (simp add: in_rng_def)
qed

text \<open>Two ranges with no byte in common.\<close>

definition disj_rng :: "u64 \<Rightarrow> nat \<Rightarrow> u64 \<Rightarrow> nat \<Rightarrow> bool" where
  "disj_rng a n b k \<longleftrightarrow> (\<forall>x. \<not> (in_rng a n x \<and> in_rng b k x))"

lemma disj_rng_sym: "disj_rng a n b k \<longleftrightarrow> disj_rng b k a n"
  by (auto simp: disj_rng_def)

lemma disj_rngD: "disj_rng a n b k \<Longrightarrow> in_rng b k x \<Longrightarrow> \<not> in_rng a n x"
  by (auto simp: disj_rng_def)

section \<open>Closed forms of the loops\<close>

lemma memset_fold_eq:
  "k \<le> 2 ^ 64 \<Longrightarrow> fold (\<lambda>i m. m(dst + of_nat i := c)) [0..<k] m
     = (\<lambda>a. if in_rng dst k a then c else m a)"
proof (induction k)
  case (Suc k)
  then show ?case
    by (auto simp: in_rng_def fun_eq_iff unat_of_nat less_Suc_eq)
qed simp

lemma unat_less_exp32: "unat (n :: u32) < 2 ^ 32"
  using unsigned_less [of n] by simp

lemma unat_less_exp64: "unat (n :: u64) < 2 ^ 64"
  using unsigned_less [of n] by simp

lemma memset_eq: "memset m dst c n = (\<lambda>a. if in_rng dst (unat n) a then c else m a)"
proof -
  have "unat n \<le> 2 ^ 64"
    using unat_less_exp32 [of n] by simp
  then show ?thesis by (simp add: memset_def memset_fold_eq)
qed

lemma copy_fwd_eq:
  assumes "n \<le> 2 ^ 64" and "\<not> in_rng (s + 1) (n - 1) d"
  shows "copy_fwd m d s n = (\<lambda>a. if in_rng d n a then m (s + (a - d)) else m a)"
  using assms
proof (induction n arbitrary: m d s)
  case (Suc n)
  have d: "\<not> in_rng (s + 1 + 1) (n - 1) (d + 1)"
  proof -
    have eq: "d + 1 - (s + 1 + 1) = d - (s + 1)" by (simp add: algebra_simps)
    from Suc.prems(2) show ?thesis unfolding in_rng_def eq by linarith
  qed
  have n: "n < 2 ^ 64" using Suc.prems(1) by simp
  have IH: "copy_fwd (m(d := m s)) (d + 1) (s + 1) n
      = (\<lambda>a. if in_rng (d + 1) n a then (m(d := m s)) (s + 1 + (a - (d + 1)))
             else (m(d := m s)) a)"
    by (rule Suc.IH) (use n d in auto)
  have nd: "\<not> in_rng (d + 1) n d"
  proof -
    have "d - (d + 1) = - 1" by simp
    then show ?thesis using n by (simp add: in_rng_def unsigned_minus_1_eq_mask mask_eq_exp_minus_1)
  qed
  have src: "s + 1 + (a - (d + 1)) \<noteq> d" if "in_rng (d + 1) n a" for a
  proof
    assume eq: "s + 1 + (a - (d + 1)) = d"
    then have "a - (d + 1) = d - (s + 1)" by (simp add: algebra_simps)
    with that have "in_rng (s + 1) n d" by (simp add: in_rng_def)
    with Suc.prems(2) show False by simp
  qed
  show ?case
    unfolding copy_fwd.simps IH fun_eq_iff in_rng_Suc [OF n]
    using nd src by (auto simp: algebra_simps)
qed simp

lemma in_rng_last: "n < 2 ^ 64 \<Longrightarrow> in_rng a (Suc n) b \<longleftrightarrow> b = a + of_nat n \<or> in_rng a n b"
  by (subst in_rng_iff, simp, subst in_rng_iff, simp) (auto simp: less_Suc_eq)

lemma copy_bwd_eq:
  assumes "n \<le> 2 ^ 64" and "\<not> in_rng (d + 1) (n - 1) s"
  shows "copy_bwd m d s n
    = (\<lambda>a. if in_rng (d - of_nat n) n a then m (a + (s - d)) else m a)"
  using assms
proof (induction n arbitrary: m d s)
  case (Suc n)
  have n: "n < 2 ^ 64" using Suc.prems(1) by simp
  have "\<not> in_rng (d - 1 + 1) (n - 1) (s - 1)"
  proof -
    have eq: "s - 1 - (d - 1 + 1) = s - (d + 1)" by (simp add: algebra_simps)
    from Suc.prems(2) show ?thesis unfolding in_rng_def eq by linarith
  qed
  with n have IH: "copy_bwd (m(d - 1 := m (s - 1))) (d - 1) (s - 1) n
      = (\<lambda>a. if in_rng (d - 1 - of_nat n) n a
             then (m(d - 1 := m (s - 1))) (a + (s - 1 - (d - 1)))
             else (m(d - 1 := m (s - 1))) a)"
    by (intro Suc.IH) auto
  have split: "in_rng (d - of_nat (Suc n)) (Suc n) a
      \<longleftrightarrow> a = d - 1 \<or> in_rng (d - 1 - of_nat n) n a" for a
    by (subst in_rng_last [OF n]) (simp add: algebra_simps)
  have nd: "\<not> in_rng (d - 1 - of_nat n) n (d - 1)"
    using n by (simp add: in_rng_def unat_of_nat)
  have src: "a + (s - 1 - (d - 1)) \<noteq> d - 1" if a: "in_rng (d - 1 - of_nat n) n a" for a
  proof
    assume eq: "a + (s - 1 - (d - 1)) = d - 1"
    from a n obtain i where i: "i < n" "a = d - 1 - of_nat n + of_nat i"
      by (auto simp: in_rng_iff)
    with eq have "s = d + 1 + of_nat (n - Suc i)"
      by (simp add: algebra_simps of_nat_diff)
    moreover have "n - Suc i < n" using i by simp
    ultimately have "in_rng (d + 1) n s"
      using n by (subst in_rng_iff) auto
    with Suc.prems(2) show False by simp
  qed
  show ?case
    unfolding copy_bwd.simps IH fun_eq_iff split
    using nd src by (auto simp: algebra_simps)
qed simp

lemma unat_sub64:
  "unat (a - b :: u64) = (if unat b \<le> unat a then unat a - unat b else unat a + 2 ^ 64 - unat b)"
  by (simp add: unat_sub_if')

lemma unat_ucast32_64: "unat (ucast (n :: u32) :: u64) = unat n"
  by (simp add: unsigned_ucast_eq take_bit_nat_eq_self_iff unat_less_exp32 [THEN less_trans])

lemma ucast_of_nat_unat: "(of_nat (unat (n :: u32)) :: u64) = ucast n"
  using unat_less_exp32 [of n] by (simp add: word_unat_eq_iff unat_ucast32_64 unat_of_nat)

lemma bwd_side:
  assumes "unat src < unat dst" "unat dst < unat src + k" "k < 2 ^ 32"
  shows "\<not> in_rng (dst + n + 1) (k - 1) (src + n :: u64)"
proof -
  have eq: "src + n - (dst + n + 1) = - 1 - (dst - src)" by (simp add: algebra_simps)
  have "unat (dst - src) = unat dst - unat src" using assms by (simp add: unat_sub64)
  then have "unat (- 1 - (dst - src)) = 2 ^ 64 - 1 - (unat dst - unat src)"
    using unat_less_exp64 [of dst]
    by (simp add: unat_sub64 [of "-1"] unsigned_minus_1_eq_mask mask_eq_exp_minus_1)
  with assms show ?thesis unfolding in_rng_def eq by simp
qed

lemma fwd_side:
  assumes "unat dst \<le> unat src \<or> unat src + k \<le> unat dst" "unat src + k < 2 ^ 64" "0 < k"
  shows "\<not> in_rng (src + 1) (k - 1) (dst :: u64)"
proof -
  have eq: "dst - (src + 1) = dst - src - 1" by simp
  have "k - 1 \<le> unat (dst - src - 1)"
  proof (cases "dst = src")
    case True
    then show ?thesis using assms by (simp add: unsigned_minus_1_eq_mask mask_eq_exp_minus_1)
  next
    case False
    then have "unat (dst - src) \<noteq> 0" by (simp add: unat_eq_0)
    then have "unat (dst - src - 1) = unat (dst - src) - 1"
      by (simp add: unat_sub64 [of "dst - src"])
    moreover have "k \<le> unat (dst - src)"
    proof (cases "unat src \<le> unat dst")
      case True
      with assms False show ?thesis by (auto simp: unat_sub64 word_unat_eq_iff)
    next
      case False
      with assms show ?thesis by (simp add: unat_sub64)
    qed
    ultimately show ?thesis by simp
  qed
  then show ?thesis unfolding in_rng_def eq by simp
qed

lemma memmove_eq:
  assumes src: "unat src + unat n < 2 ^ 64"
  shows "memmove m dst src n = (\<lambda>a. if in_rng dst (unat n) a then m (src + (a - dst)) else m a)"
proof (cases "n = 0")
  case False
  then have n: "0 < unat n" by (simp add: unat_gt_0)
  have n64: "unat n \<le> 2 ^ 64" using unat_less_exp32 [of n] by simp
  have sn: "unat (src + ucast n) = unat src + unat n"
    using src by (simp add: unat_add_lem [THEN iffD1] unat_ucast32_64)
  show ?thesis
  proof (cases "src < dst \<and> src + ucast n > dst")
    case True
    then have "\<not> in_rng (dst + ucast n + 1) (unat n - 1) (src + ucast n)"
      using sn unat_less_exp32 [of n] by (intro bwd_side) (auto simp: word_less_nat_alt)
    from copy_bwd_eq [OF n64 this] True False show ?thesis
      by (simp add: memmove_def ucast_of_nat_unat fun_eq_iff algebra_simps)
  next
    case other: False
    then have "\<not> in_rng (src + 1) (unat n - 1) dst"
      using sn src n by (intro fwd_side) (auto simp: word_less_nat_alt)
    from copy_fwd_eq [OF n64 this] other False show ?thesis
      by (auto simp: memmove_def)
  qed
qed (simp add: memmove_def)
section \<open>Loads and stores\<close>

lemma ldn_cong:
  "(\<And>b. in_rng a n b \<Longrightarrow> m b = m' b) \<Longrightarrow> n \<le> 2 ^ 64
    \<Longrightarrow> (ldn n m a :: 'a::len word) = ldn n m' a"
proof (induction n arbitrary: a)
  case (Suc n)
  have n: "n < 2 ^ 64" using Suc.prems(2) by simp
  have "m a = m' a" by (rule Suc.prems(1)) (simp add: in_rng_def)
  moreover have "(ldn n m (a + 1) :: 'a word) = ldn n m' (a + 1)"
    by (rule Suc.IH) (use Suc.prems n in \<open>auto simp: in_rng_Suc\<close>)
  ultimately show ?case by simp
qed simp

lemma stn_outside: "n \<le> 2 ^ 64 \<Longrightarrow> \<not> in_rng a n b \<Longrightarrow> stn n m a w b = m b"
proof (induction n arbitrary: a w)
  case (Suc n)
  then have n: "n < 2 ^ 64" by simp
  from Suc show ?case by (auto simp: in_rng_Suc [OF n])
qed simp

lemma stn_at: "i < n \<Longrightarrow> n \<le> 2 ^ 64 \<Longrightarrow> stn n m a w (a + of_nat i) = byte_of i w"
proof (induction n arbitrary: a w i)
  case (Suc n)
  show ?case
  proof (cases i)
    case 0
    then show ?thesis by (simp add: byte_of_def)
  next
    case (Suc j)
    with Suc.prems have j: "j < n" "n \<le> 2 ^ 64" "Suc j < 2 ^ 64" by auto
    then have "unat (of_nat i :: u64) = i" using Suc by (simp only: unat_of_nat) simp
    then have ne: "a + of_nat i \<noteq> a" using Suc by (auto simp: unat_eq_0)
    have "stn n m (a + 1) (drop_bit 8 w) (a + 1 + of_nat j) = byte_of j (drop_bit 8 w)"
      by (rule Suc.IH) (use j in auto)
    then show ?thesis using ne Suc
      by (simp add: byte_of_def drop_bit_drop_bit ac_simps)
  qed
qed simp

lemma bit_ldn:
  "bit (ldn n m a :: 'a::len word) k
     \<longleftrightarrow> k < LENGTH('a) \<and> k < 8 * n \<and> bit (m (a + of_nat (k div 8))) (k mod 8)"
proof (induction n arbitrary: a k)
  case (Suc n)
  show ?case
  proof (cases "k < 8")
    case True
    then show ?thesis by (auto simp: bit_or_iff bit_push_bit_iff bit_ucast_iff)
  next
    case False
    then obtain j where j: "k = j + 8" by (metis add.commute le_Suc_ex not_less)
    have "\<not> bit (m a) (j + 8)"
      using bit_imp_le_length [of "m a" "j + 8"] by auto
    moreover have "(j + 8) div 8 = Suc (j div 8)" by simp
    ultimately show ?thesis
      by (auto simp: j bit_or_iff bit_push_bit_iff bit_ucast_iff Suc.IH algebra_simps)
  qed
qed simp

lemma ldn_stn_same:
  assumes "LENGTH('a) \<le> 8 * n" "n \<le> 2 ^ 64"
  shows "ldn n (stn n m a w) a = (w :: 'a::len word)"
proof (rule bit_word_eqI)
  fix k assume k: "k < LENGTH('a)"
  with assms have "k div 8 < n" by auto
  with k assms show "bit (ldn n (stn n m a w) a :: 'a word) k \<longleftrightarrow> bit w k"
    by (auto simp: bit_ldn stn_at byte_of_def bit_ucast_iff bit_drop_bit_eq)
qed

lemma ld64_cong: "(\<And>x. in_rng a 8 x \<Longrightarrow> m x = m' x) \<Longrightarrow> ld64 m a = ld64 m' a"
  unfolding ld64_def by (rule ldn_cong) auto

lemma ld32_cong: "(\<And>x. in_rng a 4 x \<Longrightarrow> m x = m' x) \<Longrightarrow> ld32 m a = ld32 m' a"
  unfolding ld32_def by (rule ldn_cong) auto

lemma st64_outside: "\<not> in_rng a 8 b \<Longrightarrow> st64 m a w b = m b"
  unfolding st64_def by (rule stn_outside) auto

lemma st32_outside: "\<not> in_rng a 4 b \<Longrightarrow> st32 m a w b = m b"
  unfolding st32_def by (rule stn_outside) auto

lemma ld64_st64_same [simp]: "ld64 (st64 m a w) a = w"
  unfolding ld64_def st64_def by (rule ldn_stn_same) auto

lemma ld32_st32_same [simp]: "ld32 (st32 m a w) a = w"
  unfolding ld32_def st32_def by (rule ldn_stn_same) auto

lemma ld64_st64_other: "disj_rng a 8 b 8 \<Longrightarrow> ld64 (st64 m a w) b = ld64 m b"
  by (rule ld64_cong) (auto intro!: st64_outside dest: disj_rngD)

lemma ld32_st32_other: "disj_rng a 4 b 4 \<Longrightarrow> ld32 (st32 m a w) b = ld32 m b"
  by (rule ld32_cong) (auto intro!: st32_outside dest: disj_rngD)

lemma ldint_stint_same: "in32 v \<Longrightarrow> ldint (stint m a v) a = v"
  by (simp add: ldint_def stint_def sint_sbintrunc' in32_def signed_take_bit_int_eq_self)

lemma ldint_stint_other: "disj_rng a 4 b 4 \<Longrightarrow> ldint (stint m a v) b = ldint m b"
  by (simp add: ldint_def stint_def ld32_st32_other)

lemma stint_outside: "\<not> in_rng a 4 b \<Longrightarrow> stint m a v b = m b"
  by (simp add: stint_def st32_outside)

lemma ldn_zero: "(\<And>x. in_rng a n x \<Longrightarrow> m x = 0) \<Longrightarrow> n \<le> 2 ^ 64 \<Longrightarrow> (ldn n m a :: 'a::len word) = 0"
proof (induction n arbitrary: a)
  case (Suc n)
  have n: "n < 2 ^ 64" using Suc.prems(2) by simp
  have "m a = 0" by (rule Suc.prems(1)) (simp add: in_rng_def)
  moreover have "(ldn n m (a + 1) :: 'a word) = 0"
    by (rule Suc.IH) (use Suc.prems n in \<open>auto simp: in_rng_Suc\<close>)
  ultimately show ?case by simp
qed simp

lemma ld64_zero: "(\<And>x. in_rng a 8 x \<Longrightarrow> m x = 0) \<Longrightarrow> ld64 m a = 0"
  unfolding ld64_def by (rule ldn_zero) auto

lemma ldint_zero: "(\<And>x. in_rng a 4 x \<Longrightarrow> m x = 0) \<Longrightarrow> ldint m a = 0"
  unfolding ldint_def ld32_def by (subst ldn_zero) auto

section \<open>Strings\<close>

text \<open>The \<open>n\<close> bytes from an address, and the C string that starts there, cut at \<open>n\<close> bytes.\<close>

fun bytes :: "memory \<Rightarrow> u64 \<Rightarrow> nat \<Rightarrow> u8 list" where
  "bytes m a 0 = []"
| "bytes m a (Suc n) = m a # bytes m (a + 1) n"

definition cstr :: "memory \<Rightarrow> u64 \<Rightarrow> nat \<Rightarrow> u8 list" where
  "cstr m a n = takeWhile (\<lambda>c. c \<noteq> 0) (bytes m a n)"

lemma length_bytes [simp]: "length (bytes m a n) = n"
  by (induction n arbitrary: a) auto

lemma cstr_Suc: "cstr m a (Suc n) = (if m a = 0 then [] else m a # cstr m (a + 1) n)"
  by (simp add: cstr_def)

lemma cstr_0 [simp]: "cstr m a 0 = []"
  by (simp add: cstr_def)

lemma nth_bytes: "i < n \<Longrightarrow> bytes m a n ! i = m (a + of_nat i)"
proof (induction n arbitrary: a i)
  case (Suc n)
  then show ?case by (cases i) (auto simp: algebra_simps)
qed simp

lemma bytes_cong:
  "(\<And>x. in_rng a n x \<Longrightarrow> m x = m' x) \<Longrightarrow> n \<le> 2 ^ 64 \<Longrightarrow> bytes m a n = bytes m' a n"
  by (rule nth_equalityI) (auto simp: nth_bytes in_rng_iff)

lemma uint8_eq: "uint a = uint (b :: u8) \<longleftrightarrow> a = b"
  by (simp add: word_uint_eq_iff)

lemma strncmp_loop_eq_0: "strncmp_loop m p q n = 0 \<longleftrightarrow> cstr m p n = cstr m q n"
proof (induction n arbitrary: p q)
  case (Suc n)
  then show ?case by (auto simp: cstr_Suc uint8_eq unsigned_eq_0_iff)
qed simp

lemma memcmp_loop_eq_0: "memcmp_loop m p q n = 0 \<longleftrightarrow> bytes m p n = bytes m q n"
  by (induction n arbitrary: p q) (auto simp: uint8_eq)

lemma disj_rng_step:
  "disj_rng s (Suc n) t (Suc n) \<Longrightarrow> n < 2 ^ 64 \<Longrightarrow> disj_rng (s + 1) n (t + 1) n"
  by (auto simp: disj_rng_def in_rng_Suc)

lemma disj_rng_hd: "disj_rng s (Suc n) t (Suc n) \<Longrightarrow> n < 2 ^ 64 \<Longrightarrow> in_rng (t + 1) n x \<Longrightarrow> x \<noteq> s"
  by (auto simp: disj_rng_def in_rng_Suc)

lemma in_rng_next: "n < 2 ^ 64 \<Longrightarrow> \<not> in_rng (a + 1) n a"
  by (simp add: in_rng_def unsigned_minus_1_eq_mask mask_eq_exp_minus_1)

lemma zero_fill_eq:
  "n \<le> 2 ^ 64 \<Longrightarrow> zero_fill m s n = (\<lambda>a. if in_rng s n a then 0 else m a)"
proof (induction n arbitrary: m s)
  case (Suc n)
  then have n: "n < 2 ^ 64" by simp
  from Suc show ?case by (auto simp: fun_eq_iff in_rng_Suc [OF n])
qed simp

lemma bytes_zero:
  "(\<And>x. in_rng a n x \<Longrightarrow> m x = 0) \<Longrightarrow> n \<le> 2 ^ 64 \<Longrightarrow> bytes m a n = replicate n 0"
  by (rule nth_equalityI) (auto simp: nth_bytes in_rng_iff)

lemma strncpy_loop_frame:
  "n \<le> 2 ^ 64 \<Longrightarrow> \<not> in_rng s n b \<Longrightarrow> strncpy_loop m s t n b = m b"
proof (induction n arbitrary: m s t)
  case (Suc n)
  then have n: "n < 2 ^ 64" by simp
  from Suc show ?case
    by (auto simp: in_rng_Suc [OF n] zero_fill_eq)
qed simp

lemma cstr_upd_head:
  assumes "disj_rng s (Suc n) t (Suc n)" "n < 2 ^ 64"
  shows "cstr (m(s := v)) (t + 1) n = cstr m (t + 1) n"
proof -
  have "bytes (m(s := v)) (t + 1) n = bytes m (t + 1) n"
    using assms by (intro bytes_cong) (auto dest: disj_rng_hd)
  then show ?thesis by (simp add: cstr_def)
qed

lemma strncpy_loop_bytes:
  assumes "disj_rng s n t n" and "n \<le> 2 ^ 64"
  shows "bytes (strncpy_loop m s t n) s n = cstr m t n @ replicate (n - length (cstr m t n)) 0"
  using assms
proof (induction n arbitrary: m s t)
  case (Suc n)
  then have n: "n < 2 ^ 64" by simp
  show ?case
  proof (cases "m t = 0")
    case True
    have "bytes (zero_fill (m(s := 0)) (s + 1) n) (s + 1) n = replicate n 0"
      using n by (intro bytes_zero) (auto simp: zero_fill_eq)
    with True n show ?thesis
      by (simp add: cstr_Suc zero_fill_eq in_rng_next)
  next
    case False
    have "strncpy_loop (m(s := m t)) (s + 1) (t + 1) n s = m t"
      using n by (subst strncpy_loop_frame) (auto simp: in_rng_next)
    moreover have "bytes (strncpy_loop (m(s := m t)) (s + 1) (t + 1) n) (s + 1) n
        = cstr (m(s := m t)) (t + 1) n @ replicate (n - length (cstr (m(s := m t)) (t + 1) n)) 0"
      using Suc.prems n by (intro Suc.IH disj_rng_step) auto
    ultimately show ?thesis
      using False by (simp add: cstr_Suc cstr_upd_head [OF Suc.prems(1) n])
  qed
qed simp

lemma safestrcpy_loop_frame:
  "n < 2 ^ 64 \<Longrightarrow> \<not> in_rng s (Suc n) b \<Longrightarrow> safestrcpy_loop m s t n b = m b"
proof (induction n arbitrary: m s t)
  case 0
  then show ?case by (auto simp: in_rng_def)
next
  case (Suc n)
  then have n: "n < 2 ^ 64" "Suc n < 2 ^ 64" by auto
  from Suc show ?case by (auto simp: in_rng_Suc [OF n(2)] in_rng_Suc [OF n(1)])
qed

lemma safestrcpy_loop_cstr:
  assumes "disj_rng s (Suc n) t (Suc n)" and "n < 2 ^ 64"
  shows "cstr (safestrcpy_loop m s t n) s (Suc n) = cstr m t n"
  using assms
proof (induction n arbitrary: m s t)
  case 0
  then show ?case by (simp add: cstr_Suc)
next
  case (Suc n)
  then have n: "n < 2 ^ 64" "Suc n < 2 ^ 64" by auto
  show ?case
  proof (cases "m t = 0")
    case False
    have "safestrcpy_loop (m(s := m t)) (s + 1) (t + 1) n s = m t"
      using n by (subst safestrcpy_loop_frame) (auto simp: in_rng_next)
    moreover have "cstr (safestrcpy_loop (m(s := m t)) (s + 1) (t + 1) n) (s + 1) (Suc n)
        = cstr (m(s := m t)) (t + 1) n"
      using Suc.prems n by (intro Suc.IH disj_rng_step) auto
    moreover have "cstr (m(s := m t)) (t + 1) n = cstr m (t + 1) n"
    proof -
      have "bytes (m(s := m t)) (t + 1) n = bytes m (t + 1) n"
        using n disj_rng_hd [OF Suc.prems(1) n(2)]
        by (intro bytes_cong) (auto simp: in_rng_last [OF n(1)])
      then show ?thesis by (simp add: cstr_def)
    qed
    ultimately show ?thesis using False by (simp add: cstr_Suc)
  qed (simp add: cstr_Suc)
qed

lemma strlen_from_eq:
  assumes "\<And>i. i < k \<Longrightarrow> m (s + word_of_int (n + int i)) \<noteq> 0"
    and "m (s + word_of_int (n + int k)) = 0" and "0 \<le> n" and "n + int k < 2 ^ 31"
  shows "strlen_from m s n = Some (n + int k)"
  using assms
proof (induction k arbitrary: n)
  case 0
  then show ?case by (subst strlen_from.simps) simp
next
  case (Suc k)
  have n: "s32 (n + 1) = n + 1" using Suc.prems by (intro s32_small) auto
  have "strlen_from m s (n + 1) = Some (n + 1 + int k)"
  proof (rule Suc.IH)
    fix i assume "i < k"
    then show "m (s + word_of_int (n + 1 + int i)) \<noteq> 0"
      using Suc.prems(1) [of "Suc i"] by (simp add: algebra_simps)
  qed (use Suc.prems in \<open>auto simp: algebra_simps\<close>)
  moreover have "m (s + word_of_int n) \<noteq> 0" using Suc.prems(1) [of 0] by simp
  ultimately show ?case
    by (subst strlen_from.simps) (simp add: n)
qed

lemma strlen_eq:
  assumes "\<And>i. i < k \<Longrightarrow> m (s + of_nat i) \<noteq> 0" and "m (s + of_nat k) = 0" and "k < 2 ^ 31"
  shows "strlen m s = Some (int k)"
  using strlen_from_eq [of k m s 0] assms by (simp add: strlen_def)

end
