(* ===== verification/Spinlock.thy ===== *)
theory Spinlock
  imports Prelude
begin

text \<open>
  Spinlocks and interrupt nesting: kernel/spinlock.c, the interrupt-enable bit of
  kernel/riscv.h, and \<open>cpuid\<close>/\<open>mycpu\<close> of kernel/proc.c.

  The state has one record per hart and one per lock. \<open>hart\<close> is the hart that executes (its
  \<open>tp\<close> register); \<open>sie\<close> is the SIE bit of each hart's \<open>sstatus\<close>. The states of the other
  components extend this record, so an operation here also runs on theirs.
  \<open>noff\<close> counts nested \<open>push_off\<close> calls and cannot come near 2^31, so it is kept as an \<open>int\<close>
  without a wrap. \<open>acquire\<close> on a lock that another hart holds is the fault \<open>Spin\<close>; on a lock
  this hart holds, it panics.
\<close>

record spinlock =
  locked :: bool
  lname :: string
  lcpu :: "nat option"

record cpu =
  cproc :: "nat option"
  noff :: int
  intena :: bool

record lstate =
  hart :: nat
  sie :: "nat \<Rightarrow> bool"
  cpus :: "nat \<Rightarrow> cpu"
  locks :: "lockid \<Rightarrow> spinlock"

section \<open>Operations\<close>

definition intr_get :: "'a lstate_scheme \<Rightarrow> bool" where
  "intr_get s = sie s (hart s)"

definition intr_on :: "'a lstate_scheme \<Rightarrow> 'a lstate_scheme" where
  "intr_on s = s\<lparr>sie := (sie s)(hart s := True)\<rparr>"

definition intr_off :: "'a lstate_scheme \<Rightarrow> 'a lstate_scheme" where
  "intr_off s = s\<lparr>sie := (sie s)(hart s := False)\<rparr>"

definition cpuid :: "'a lstate_scheme \<Rightarrow> nat" where
  "cpuid s = hart s"

definition mycpu :: "'a lstate_scheme \<Rightarrow> cpu" where
  "mycpu s = cpus s (cpuid s)"

definition set_mycpu :: "cpu \<Rightarrow> 'a lstate_scheme \<Rightarrow> 'a lstate_scheme" where
  "set_mycpu c s = s\<lparr>cpus := (cpus s)(cpuid s := c)\<rparr>"

definition initlock :: "lockid \<Rightarrow> string \<Rightarrow> 'a lstate_scheme \<Rightarrow> 'a lstate_scheme" where
  "initlock lk name s =
     s\<lparr>locks := (locks s)(lk := \<lparr>locked = False, lname = name, lcpu = None\<rparr>)\<rparr>"

definition holding :: "lockid \<Rightarrow> 'a lstate_scheme \<Rightarrow> bool" where
  "holding lk s \<longleftrightarrow> locked (locks s lk) \<and> lcpu (locks s lk) = Some (cpuid s)"

definition push_off :: "'a lstate_scheme \<Rightarrow> 'a lstate_scheme" where
  "push_off s =
     (let old = intr_get s;
          s = intr_off s;
          s = (if noff (mycpu s) = 0 then set_mycpu ((mycpu s)\<lparr>intena := old\<rparr>) s else s)
      in set_mycpu ((mycpu s)\<lparr>noff := noff (mycpu s) + 1\<rparr>) s)"

definition pop_off :: "'a lstate_scheme \<Rightarrow> fault + 'a lstate_scheme" where
  "pop_off s =
     (if intr_get s then Inl (Panic ''pop_off - interruptible'')
      else if noff (mycpu s) < 1 then Inl (Panic ''pop_off'')
      else let s = set_mycpu ((mycpu s)\<lparr>noff := noff (mycpu s) - 1\<rparr>) s
           in Inr (if noff (mycpu s) = 0 \<and> intena (mycpu s) then intr_on s else s))"

definition acquire :: "lockid \<Rightarrow> 'a lstate_scheme \<Rightarrow> fault + 'a lstate_scheme" where
  "acquire lk s =
     (let s = push_off s
      in if holding lk s then Inl (Panic ''acquire'')
         else if locked (locks s lk) then Inl (Spin lk)
         else let s = s\<lparr>locks := (locks s)(lk := (locks s lk)\<lparr>locked := True\<rparr>)\<rparr>
              in Inr (s\<lparr>locks := (locks s)(lk := (locks s lk)\<lparr>lcpu := Some (cpuid s)\<rparr>)\<rparr>))"

definition release :: "lockid \<Rightarrow> 'a lstate_scheme \<Rightarrow> fault + 'a lstate_scheme" where
  "release lk s =
     (if \<not> holding lk s then Inl (Panic ''release'')
      else let s = s\<lparr>locks := (locks s)(lk := (locks s lk)\<lparr>lcpu := None\<rparr>)\<rparr>;
               s = s\<lparr>locks := (locks s)(lk := (locks s lk)\<lparr>locked := False\<rparr>)\<rparr>
           in pop_off s)"

lemmas lock_defs = intr_get_def intr_on_def intr_off_def cpuid_def mycpu_def set_mycpu_def
  holding_def push_off_def pop_off_def acquire_def release_def

section \<open>A critical section\<close>

text \<open>
  What a hart's interrupt bookkeeping satisfies between its critical sections, and a lock
  that nobody holds.
\<close>

definition cpu_ok :: "'a lstate_scheme \<Rightarrow> bool" where
  "cpu_ok s \<longleftrightarrow> 0 \<le> noff (mycpu s) \<and> (0 < noff (mycpu s) \<longrightarrow> \<not> intr_get s)"

definition lk_free :: "lockid \<Rightarrow> 'a lstate_scheme \<Rightarrow> bool" where
  "lk_free lk s \<longleftrightarrow> \<not> locked (locks s lk) \<and> lcpu (locks s lk) = None"

text \<open>
  The state of this hart after a matched pair: only the saved \<open>intena\<close> of an outermost pair is
  new. \<open>lk_on\<close> is the state inside the section.
\<close>

definition lk_cycle :: "'a lstate_scheme \<Rightarrow> 'a lstate_scheme" where
  "lk_cycle s = set_mycpu ((mycpu s)\<lparr>intena :=
     (if noff (mycpu s) = 0 then intr_get s else intena (mycpu s))\<rparr>) s"

definition lk_on :: "lockid \<Rightarrow> 'a lstate_scheme \<Rightarrow> 'a lstate_scheme" where
  "lk_on lk s = (push_off s)\<lparr>locks := (locks s)(lk :=
     (locks s lk)\<lparr>locked := True, lcpu := Some (hart s)\<rparr>)\<rparr>"

lemma acquire_free: "lk_free lk s \<Longrightarrow> acquire lk s = Inr (lk_on lk s)"
  by (simp add: lk_free_def lk_on_def lock_defs Let_def)

lemma acquire_InrD: "acquire lk s = Inr s' \<Longrightarrow> s' = lk_on lk s \<and> \<not> locked (locks s lk)"
  by (auto simp: lk_on_def lock_defs Let_def split: if_splits)

text \<open>
  The law of a critical section: whatever the section does to the state outside the lock
  fields, the release gives the lock fields of the start back, up to the saved \<open>intena\<close>.
\<close>

lemma release_after:
  assumes free: "lk_free lk s" and ok: "cpu_ok s"
    and same: "hart t = hart s" "sie t = sie (lk_on lk s)" "cpus t = cpus (lk_on lk s)"
      "locks t = locks (lk_on lk s)"
  shows "release lk t = Inr (t\<lparr>sie := sie s, cpus := cpus (lk_cycle s), locks := locks s\<rparr>)"
proof -
  have lk: "(locks s lk)\<lparr>lcpu := None, locked := False\<rparr> = locks s lk"
    using free by (intro spinlock.equality) (auto simp: lk_free_def)
  have cpu0: "noff c = 0 \<Longrightarrow> c\<lparr>intena := b, noff := 0\<rparr> = c\<lparr>intena := b\<rparr>" for c :: cpu and b
    by (intro cpu.equality) auto
  show ?thesis
    using same ok free
    by (auto simp: lk lk_on_def lock_defs lk_cycle_def cpu_ok_def lk_free_def Let_def cpu0 fun_upd_idem
        intro!: lstate.equality)
qed

lemma lk_cycle_simps [simp]:
  "hart (lk_cycle s) = hart s" "sie (lk_cycle s) = sie s" "locks (lk_cycle s) = locks s"
  "lstate.more (lk_cycle s) = lstate.more s" "noff (cpus (lk_cycle s) h) = noff (cpus s h)"
  "cproc (cpus (lk_cycle s) h) = cproc (cpus s h)"
  "lk_free lk (lk_cycle s) = lk_free lk s" "cpu_ok (lk_cycle s) = cpu_ok s"
  by (auto simp: lk_cycle_def lk_free_def cpu_ok_def lock_defs)

lemma lk_cycle_idem [simp]: "lk_cycle (lk_cycle s) = lk_cycle s"
  by (auto simp: lk_cycle_def lock_defs intro!: lstate.equality)

lemma lk_on_simps [simp]:
  "hart (lk_on lk s) = hart s" "lstate.more (lk_on lk s) = lstate.more s"
  "cproc (cpus (lk_on lk s) h) = cproc (cpus s h)"
  "lk_free lk' (lk_on lk s) \<longleftrightarrow> lk' \<noteq> lk \<and> lk_free lk' s"
  by (auto simp: lk_on_def lk_free_def lock_defs Let_def)

lemma cpu_ok_lk_on: "cpu_ok s \<Longrightarrow> cpu_ok (lk_on lk s)"
  by (auto simp: cpu_ok_def lk_on_def lock_defs Let_def)

text \<open>Inside a section a nested pair leaves this hart's state exactly as it was.\<close>

lemma lk_cycle_nested: "0 < noff (mycpu s) \<Longrightarrow> lk_cycle s = s"
  by (auto simp: lk_cycle_def lock_defs intro!: lstate.equality)

lemma noff_lk_on: "cpu_ok s \<Longrightarrow> 0 < noff (mycpu (lk_on lk s))"
  by (auto simp: cpu_ok_def lk_on_def lock_defs Let_def)

lemma push_pop: "cpu_ok s \<Longrightarrow> pop_off (push_off s) = Inr (lk_cycle s)"
  by (auto simp: lk_cycle_def cpu_ok_def lock_defs Let_def fun_upd_idem
      intro!: lstate.equality cpu.equality)

section \<open>Lock calculus\<close>

text \<open>
  Rules that compute a sequence of lock operations symbolically: inside a section the state is
  \<open>lk_on lk s\<close>, after it \<open>lk_cycle s\<close>. Updates of fields that the lock operations do not look at
  commute with them; the theories that declare such fields add the rules to \<open>lk_comm\<close>.
\<close>

named_theorems lk_comm \<open>updates of other fields commute with lock operations\<close>

lemma release_lk_on: "lk_free lk s \<Longrightarrow> cpu_ok s \<Longrightarrow> release lk (lk_on lk s) = Inr (lk_cycle s)"
  by (subst release_after [of lk s]) (auto simp: lk_cycle_def lk_on_def lock_defs Let_def intro!: lstate.equality)

lemma lk_on_cycle: "lk_on lk (lk_cycle s) = lk_on lk s"
  by (auto simp: lk_cycle_def lk_on_def lock_defs Let_def intro!: lstate.equality)

lemma lk_cycle_on: "cpu_ok s \<Longrightarrow> lk_cycle (lk_on lk s) = lk_on lk s"
  by (rule lk_cycle_nested) (rule noff_lk_on)

text \<open>Releasing the outer of two locks.\<close>

lemma lk_on_fields:
  "sie (lk_on l s) = (sie s)(hart s := False)"
  "locks (lk_on l s) = (locks s)(l := (locks s l)\<lparr>locked := True, lcpu := Some (hart s)\<rparr>)"
  "cpus (lk_on l s) = (cpus s)(hart s := (cpus s (hart s))\<lparr>noff := noff (cpus s (hart s)) + 1,
     intena := (if noff (cpus s (hart s)) = 0 then sie s (hart s) else intena (cpus s (hart s)))\<rparr>)"
  by (auto simp: lk_on_def lock_defs Let_def intro!: ext cpu.equality)

lemma release_eq:
  "holding lk s \<Longrightarrow> \<not> intr_get s \<Longrightarrow> 1 < noff (mycpu s) \<Longrightarrow>
     release lk s = Inr (s\<lparr>locks := (locks s)(lk := (locks s lk)\<lparr>lcpu := None, locked := False\<rparr>),
       cpus := (cpus s)(hart s := (cpus s (hart s))\<lparr>noff := noff (cpus s (hart s)) - 1\<rparr>)\<rparr>)"
  by (simp add: lock_defs Let_def)

lemma release_outer:
  assumes "lk_free lk s" and "lk_free l s" and "cpu_ok s" and "l \<noteq> lk"
  shows "release lk (lk_on l (lk_on lk s)) = Inr (lk_on l s)"
proof -
  have lk: "(locks s lk)\<lparr>lcpu := None, locked := False\<rparr> = locks s lk"
    using assms(1) by (intro spinlock.equality) (auto simp: lk_free_def)
  let ?t = "lk_on l (lk_on lk s)"
  have "holding lk ?t" "\<not> intr_get ?t" "1 < noff (mycpu ?t)"
    using assms by (auto simp: holding_def cpuid_def intr_get_def mycpu_def lk_on_fields cpu_ok_def)
  note r = release_eq [OF this]
  show ?thesis
    unfolding r
  proof (intro arg_cong [where f = Inr] lstate.equality)
    show "sie (?t\<lparr>locks := (locks ?t)(lk := (locks ?t lk)\<lparr>lcpu := None, locked := False\<rparr>),
       cpus := (cpus ?t)(hart ?t := (cpus ?t (hart ?t))\<lparr>noff := noff (cpus ?t (hart ?t)) - 1\<rparr>)\<rparr>) = sie (lk_on l s)"
      by (simp add: lk_on_fields)
    show "locks (?t\<lparr>locks := (locks ?t)(lk := (locks ?t lk)\<lparr>lcpu := None, locked := False\<rparr>),
       cpus := (cpus ?t)(hart ?t := (cpus ?t (hart ?t))\<lparr>noff := noff (cpus ?t (hart ?t)) - 1\<rparr>)\<rparr>) = locks (lk_on l s)"
      using assms(4) by (intro ext) (auto simp: lk_on_fields lk)
    show "cpus (?t\<lparr>locks := (locks ?t)(lk := (locks ?t lk)\<lparr>lcpu := None, locked := False\<rparr>),
       cpus := (cpus ?t)(hart ?t := (cpus ?t (hart ?t))\<lparr>noff := noff (cpus ?t (hart ?t)) - 1\<rparr>)\<rparr>) = cpus (lk_on l s)"
      using assms(3) by (auto simp: lk_on_fields cpu_ok_def mycpu_def cpuid_def)
  qed simp_all
qed

text \<open>The name of a lock is only read by messages; initialising a free lock changes nothing else.\<close>

definition set_lname :: "lockid \<Rightarrow> string \<Rightarrow> 'a lstate_scheme \<Rightarrow> 'a lstate_scheme" where
  "set_lname k nm s = s\<lparr>locks := (locks s)(k := (locks s k)\<lparr>lname := nm\<rparr>)\<rparr>"

lemma initlock_free: "lk_free k s \<Longrightarrow> initlock k nm s = set_lname k nm s"
  by (auto simp: initlock_def set_lname_def lk_free_def intro!: lstate.equality ext spinlock.equality)

lemma set_lname_comm [lk_comm]:
  "acquire l (set_lname k nm s) = bnd (acquire l s) (\<lambda>s. Inr (set_lname k nm s))"
  "release l (set_lname k nm s) = bnd (release l s) (\<lambda>s. Inr (set_lname k nm s))"
  "holding l (set_lname k nm s) = holding l s" "mycpu (set_lname k nm s) = mycpu s"
  "intr_get (set_lname k nm s) = intr_get s" "lk_free l (set_lname k nm s) = lk_free l s"
  "cpu_ok (set_lname k nm s) = cpu_ok s" "lk_on l (set_lname k nm s) = set_lname k nm (lk_on l s)"
  "lk_cycle (set_lname k nm s) = set_lname k nm (lk_cycle s)" "lstate.more (set_lname k nm s) = lstate.more s"
  by (auto simp: set_lname_def lk_free_def cpu_ok_def lk_cycle_def lk_on_def lock_defs Let_def
      intro!: lstate.equality ext spinlock.equality)

lemma holding_lk_on: "holding l (lk_on lk s) \<longleftrightarrow> l = lk \<or> holding l s"
  by (auto simp: lk_on_def lock_defs Let_def)

lemma lk_free_not_holding: "lk_free l s \<Longrightarrow> \<not> holding l s"
  by (simp add: lk_free_def holding_def)

lemma acquire_held: "holding l s \<Longrightarrow> acquire l s = Inl (Panic ''acquire'')"
  by (simp add: lock_defs Let_def)

section \<open>Nesting\<close>

text \<open>\<open>k\<close> calls of \<open>pop_off\<close>.\<close>

fun pops :: "nat \<Rightarrow> 'a lstate_scheme \<Rightarrow> fault + 'a lstate_scheme" where
  "pops 0 s = Inr s"
| "pops (Suc k) s = bnd (pop_off s) (pops k)"

lemma cpu_ok_push: "cpu_ok s \<Longrightarrow> cpu_ok (push_off s)"
  by (auto simp: cpu_ok_def lock_defs Let_def)

lemma pushes_ok:
  "cpu_ok s \<Longrightarrow> cpu_ok ((push_off ^^ n) s) \<and> noff (mycpu ((push_off ^^ n) s)) = noff (mycpu s) + int n"
proof (induction n)
  case (Suc n)
  then show ?case by (auto simp: cpu_ok_push) (auto simp: lock_defs Let_def)
qed simp

lemma push_lk_cycle: "lk_cycle (push_off s) = push_off s" if "cpu_ok s"
  using that by (intro lk_cycle_nested) (auto simp: cpu_ok_def lock_defs Let_def)

lemma pops_pushes:
  assumes "cpu_ok s" and "k \<le> n"
  shows "pops k ((push_off ^^ n) s)
    = Inr (if k = 0 then (push_off ^^ n) s
           else if k = n then lk_cycle s else (push_off ^^ (n - k)) s)"
  using assms(2)
proof (induction k arbitrary: n)
  case (Suc k)
  then obtain n' where n: "n = Suc n'" by (cases n) auto
  have ok: "cpu_ok ((push_off ^^ n') s)" using pushes_ok assms(1) by blast
  have "pops (Suc k) ((push_off ^^ n) s) = pops k (lk_cycle ((push_off ^^ n') s))"
    by (simp add: n push_pop [OF ok])
  moreover have "lk_cycle ((push_off ^^ n') s) = (if n' = 0 then lk_cycle s else (push_off ^^ n') s)"
    using pushes_ok [OF assms(1)] by (cases n') (auto simp: push_lk_cycle)
  ultimately show ?case
    using Suc n by (cases "n' = 0") auto
qed simp

section \<open>Harts and locks\<close>

text \<open>The locks a hart holds, and the steps of the harts on the lock state.\<close>

definition held :: "'a lstate_scheme \<Rightarrow> nat \<Rightarrow> lockid set" where
  "held s h = {l. locked (locks s l) \<and> lcpu (locks s l) = Some h}"

text \<open>
  A step of hart \<open>h\<close>: an \<open>acquire\<close> or \<open>release\<close> that returns, a bare \<open>push_off\<close>, the
  \<open>pop_off\<close> that undoes one (there is one left to undo when \<open>noff\<close> is above the number of locks
  held), or a change of the interrupt bit; \<open>intr_on\<close> is called with \<open>noff\<close> 0 only (scheduler).
\<close>

inductive hart_step :: "nat \<Rightarrow> lstate \<Rightarrow> lstate \<Rightarrow> bool" for h where
  acq: "acquire l (s\<lparr>hart := h\<rparr>) = Inr s' \<Longrightarrow> hart_step h s s'"
| rel: "release l (s\<lparr>hart := h\<rparr>) = Inr s' \<Longrightarrow> hart_step h s s'"
| push: "hart_step h s (push_off (s\<lparr>hart := h\<rparr>))"
| pop: "int (card (held s h)) < noff (cpus s h) \<Longrightarrow> pop_off (s\<lparr>hart := h\<rparr>) = Inr s'
    \<Longrightarrow> hart_step h s s'"
| on: "noff (cpus s h) = 0 \<Longrightarrow> hart_step h s (intr_on (s\<lparr>hart := h\<rparr>))"
| off: "hart_step h s (intr_off (s\<lparr>hart := h\<rparr>))"

definition locks_start :: "lstate \<Rightarrow> bool" where
  "locks_start s \<longleftrightarrow> (\<forall>l. lk_free l s) \<and> (\<forall>h. noff (cpus s h) = 0)"

inductive hart_reach :: "lstate \<Rightarrow> bool" where
  start: "locks_start s \<Longrightarrow> hart_reach s"
| step: "hart_reach s \<Longrightarrow> hart_step h s s' \<Longrightarrow> hart_reach s'"

definition lk_inv :: "lstate \<Rightarrow> bool" where
  "lk_inv s \<longleftrightarrow> (\<forall>l. locked (locks s l) \<longleftrightarrow> lcpu (locks s l) \<noteq> None)
     \<and> (\<forall>h. finite (held s h) \<and> int (card (held s h)) \<le> noff (cpus s h)
            \<and> (0 < noff (cpus s h) \<longrightarrow> \<not> sie s h))"

lemma lk_inv_start: "locks_start s \<Longrightarrow> lk_inv s"
  by (auto simp: locks_start_def lk_inv_def held_def lk_free_def)

lemma held_acquire:
  assumes "acquire l (s\<lparr>hart := h\<rparr>) = Inr s'"
  shows "held s' k = (if k = h then insert l (held s k) else held s k)"
    and "k \<noteq> h \<Longrightarrow> cpus s' k = cpus s k \<and> sie s' k = sie s k"
    and "noff (cpus s' h) = noff (cpus s h) + 1" and "\<not> sie s' h"
    and "\<not> locked (locks s l)"
  using assms by (auto simp: held_def lock_defs Let_def split: if_splits)

lemma held_release:
  assumes "release l (s\<lparr>hart := h\<rparr>) = Inr s'"
  shows "held s' k = (if k = h then held s k - {l} else held s k)"
    and "k \<noteq> h \<Longrightarrow> cpus s' k = cpus s k \<and> sie s' k = sie s k"
    and "noff (cpus s' h) = noff (cpus s h) - 1" and "l \<in> held s h"
    and "0 < noff (cpus s' h) \<Longrightarrow> \<not> sie s' h"
  using assms by (auto simp: held_def lock_defs Let_def split: if_splits)

lemma lk_invI:
  assumes "\<And>l. locked (locks s l) \<longleftrightarrow> lcpu (locks s l) \<noteq> None"
    and "\<And>k. finite (held s k) \<and> int (card (held s k)) \<le> noff (cpus s k)
            \<and> (0 < noff (cpus s k) \<longrightarrow> \<not> sie s k)"
  shows "lk_inv s"
  using assms by (simp add: lk_inv_def)

lemma lk_invD:
  assumes "lk_inv s"
  shows "locked (locks s l) \<longleftrightarrow> lcpu (locks s l) \<noteq> None"
    and "finite (held s k)" and "int (card (held s k)) \<le> noff (cpus s k)"
    and "0 < noff (cpus s k) \<Longrightarrow> \<not> sie s k"
  using assms by (auto simp: lk_inv_def)

lemma lk_inv_acquire:
  assumes "acquire l (s\<lparr>hart := h\<rparr>) = Inr s'" and inv: "lk_inv s"
  shows "lk_inv s'"
proof (rule lk_invI)
  fix k
  note a = held_acquire [OF assms(1)]
  show "finite (held s' k) \<and> int (card (held s' k)) \<le> noff (cpus s' k)
      \<and> (0 < noff (cpus s' k) \<longrightarrow> \<not> sie s' k)"
  proof (cases "k = h")
    case True
    have "card (insert l (held s h)) \<le> card (held s h) + 1"
      by (simp add: card_insert_le_m1 card_insert_if lk_invD(2) [OF inv])
    with True a lk_invD(2-4) [OF inv, of h] show ?thesis by auto
  next
    case False
    with a lk_invD(2-4) [OF inv, of k] show ?thesis by simp
  qed
qed (use assms in \<open>auto simp: lk_inv_def lock_defs Let_def split: if_splits\<close>)

lemma lk_inv_release:
  assumes "release l (s\<lparr>hart := h\<rparr>) = Inr s'" and inv: "lk_inv s"
  shows "lk_inv s'"
proof (rule lk_invI)
  fix k
  note a = held_release [OF assms(1)]
  show "finite (held s' k) \<and> int (card (held s' k)) \<le> noff (cpus s' k)
      \<and> (0 < noff (cpus s' k) \<longrightarrow> \<not> sie s' k)"
  proof (cases "k = h")
    case True
    have "int (card (held s h - {l})) = int (card (held s h)) - 1"
      using a(4) lk_invD(2) [OF inv, of h] card_gt_0_iff [of "held s h"]
      by (subst card_Diff_singleton) (auto simp: of_nat_diff Suc_leI)
    with True a lk_invD(2-4) [OF inv, of h] show ?thesis by auto
  next
    case False
    with a lk_invD(2-4) [OF inv, of k] show ?thesis by simp
  qed
qed (use assms in \<open>auto simp: lk_inv_def lock_defs Let_def split: if_splits\<close>)

lemma lk_inv_same_locks:
  assumes "locks s' = locks s" and "lk_inv s"
    and "\<And>k. int (card (held s k)) \<le> noff (cpus s' k) \<and> (0 < noff (cpus s' k) \<longrightarrow> \<not> sie s' k)"
  shows "lk_inv s'"
proof -
  have "held s' = held s" using assms(1) by (auto simp: held_def)
  with assms show ?thesis by (auto simp: lk_inv_def)
qed

lemma lk_inv_step: "hart_step h s s' \<Longrightarrow> lk_inv s \<Longrightarrow> lk_inv s'"
proof (induction rule: hart_step.induct)
  case (acq l s s')
  then show ?case by (rule lk_inv_acquire)
next
  case (rel l s s')
  then show ?case by (rule lk_inv_release)
next
  case (push s)
  have "card (held s h) \<le> Suc 0" if "noff (cpus s h) = 0"
    using lk_invD(3) [OF push, of h] that by linarith
  then show ?case
    using lk_invD(3,4) [OF push]
    by (intro lk_inv_same_locks [OF _ push]) (auto simp: lock_defs Let_def add_increasing2)
next
  case (pop s s')
  show ?case
    using lk_invD(3,4) [OF pop(3)] pop(1,2)
    by (intro lk_inv_same_locks [OF _ pop(3)]) (auto simp: lock_defs Let_def split: if_splits)
next
  case (on s)
  show ?case
    using lk_invD(3,4) [OF on(2)] on(1)
    by (intro lk_inv_same_locks [OF _ on(2)]) (auto simp: lock_defs)
next
  case (off s)
  show ?case
    using lk_invD(3,4) [OF off]
    by (intro lk_inv_same_locks [OF _ off]) (auto simp: lock_defs)
qed

lemma lk_inv_reach: "hart_reach s \<Longrightarrow> lk_inv s"
  by (induction rule: hart_reach.induct) (auto intro: lk_inv_start lk_inv_step)

lemma held_step_other: "hart_step h s s' \<Longrightarrow> k \<noteq> h \<Longrightarrow> held s' k = held s k"
proof (induction rule: hart_step.induct)
  case (acq l s s')
  then show ?case by (simp add: held_acquire(1))
next
  case (rel l s s')
  then show ?case by (simp add: held_release(1))
qed (auto simp: held_def lock_defs Let_def split: if_splits)


text \<open>A lock state in which nothing has happened yet, and one in which hart 0 holds a lock.\<close>

definition locks_boot :: lstate where
  "locks_boot = \<lparr>hart = 0, sie = (\<lambda>_. True),
     cpus = (\<lambda>_. \<lparr>cproc = None, noff = 0, intena = False\<rparr>),
     locks = (\<lambda>_. \<lparr>locked = False, lname = [], lcpu = None\<rparr>)\<rparr>"

lemma locks_boot_start: "locks_start locks_boot"
  by (simp add: locks_start_def locks_boot_def lk_free_def)




end
