(* ===== verification/Layout.thy ===== *)
theory Layout
  imports Prelude
begin

text \<open>
  The constants and macros of kernel/param.h, kernel/riscv.h and kernel/memlayout.h: table
  sizes, page rounding, page-table-entry fields and the address-space layout, all on 64-bit
  words as the C macros compute them.
\<close>

unbundle bit_operations_syntax

section \<open>param.h\<close>

definition NPROC :: nat where [simp]: "NPROC = 64"
definition NCPU :: nat where [simp]: "NCPU = 8"
definition NOFILE :: nat where [simp]: "NOFILE = 16"
definition NFILE :: nat where [simp]: "NFILE = 100"
definition SHMEM :: nat where [simp]: "SHMEM = 4"

section \<open>riscv.h\<close>

definition PGSIZE :: u64 where [simp]: "PGSIZE = 4096"

definition PGROUNDUP :: "u64 \<Rightarrow> u64" where
  "PGROUNDUP sz = (sz + PGSIZE - 1) AND NOT (PGSIZE - 1)"

definition PGROUNDDOWN :: "u64 \<Rightarrow> u64" where
  "PGROUNDDOWN a = a AND NOT (PGSIZE - 1)"

definition PTE_V :: u64 where "PTE_V = push_bit 0 1"
definition PTE_R :: u64 where "PTE_R = push_bit 1 1"
definition PTE_W :: u64 where "PTE_W = push_bit 2 1"
definition PTE_X :: u64 where "PTE_X = push_bit 3 1"
definition PTE_U :: u64 where "PTE_U = push_bit 4 1"

definition PA2PTE :: "u64 \<Rightarrow> u64" where
  "PA2PTE pa = push_bit 10 (drop_bit 12 pa)"

definition PTE2PA :: "u64 \<Rightarrow> u64" where
  "PTE2PA pte = push_bit 12 (drop_bit 10 pte)"

definition PTE_FLAGS :: "u64 \<Rightarrow> u64" where
  "PTE_FLAGS pte = pte AND 0x3FF"

definition PXSHIFT :: "nat \<Rightarrow> nat" where
  "PXSHIFT level = 12 + 9 * level"

definition PX :: "nat \<Rightarrow> u64 \<Rightarrow> u64" where
  "PX level va = drop_bit (PXSHIFT level) va AND 0x1FF"

definition MAXVA :: u64 where
  "MAXVA = push_bit (9 + 9 + 9 + 12 - 1) 1"

definition MAKE_SATP :: "u64 \<Rightarrow> u64" where
  "MAKE_SATP pagetable = push_bit 60 8 OR drop_bit 12 pagetable"

section \<open>memlayout.h\<close>

definition UART0 :: u64 where "UART0 = 0x10000000"
definition VIRTIO0 :: u64 where "VIRTIO0 = 0x10001000"
definition PLIC :: u64 where "PLIC = 0x0c000000"
definition KERNBASE :: u64 where "KERNBASE = 0x80000000"
definition PHYSTOP :: u64 where "PHYSTOP = KERNBASE + 128 * 1024 * 1024"
definition TRAMPOLINE :: u64 where "TRAMPOLINE = MAXVA - PGSIZE"
definition TRAPFRAME :: u64 where "TRAPFRAME = TRAMPOLINE - PGSIZE"

definition KSTACK :: "nat \<Rightarrow> u64" where
  "KSTACK p = TRAMPOLINE - (of_nat p + 1) * 2 * PGSIZE"

text \<open>\<open>VASHMEM(n)\<close>, \<open>n\<close> a signed \<open>int\<close>: the slots below \<open>TRAPFRAME\<close> for shared pages.\<close>

definition VASHMEM :: "int \<Rightarrow> u64" where
  "VASHMEM n = TRAPFRAME - word_of_int (4096 * (n + 1))"

lemmas layout_defs = UART0_def VIRTIO0_def PLIC_def KERNBASE_def PHYSTOP_def MAXVA_def
  TRAMPOLINE_def TRAPFRAME_def

lemma layout_values:
  "MAXVA = 0x4000000000" "TRAMPOLINE = 0x3FFFFFF000" "TRAPFRAME = 0x3FFFFFE000"
  "PHYSTOP = 0x88000000"
  by (simp_all add: layout_defs push_bit_eq_mult)

lemma pte_flag_values:
  "PTE_V = 1" "PTE_R = 2" "PTE_W = 4" "PTE_X = 8" "PTE_U = 16"
  by (simp_all add: PTE_V_def PTE_R_def PTE_W_def PTE_X_def PTE_U_def push_bit_eq_mult)

section \<open>Page arithmetic\<close>

definition page_aligned :: "u64 \<Rightarrow> bool" where
  "page_aligned a \<longleftrightarrow> a mod PGSIZE = 0"

lemma page_aligned_unat: "page_aligned a \<longleftrightarrow> 4096 dvd unat a"
  by (simp add: page_aligned_def word_unat_eq_iff unat_mod dvd_eq_mod_eq_0)

lemma and_not_mask: "(a :: u64) AND NOT (mask n) = push_bit n (drop_bit n a)"
  by (rule bit_word_eqI)
    (auto simp: bit_and_iff bit_not_iff bit_mask_iff bit_push_bit_iff bit_drop_bit_eq)

lemma PGROUNDDOWN_eq: "PGROUNDDOWN a = push_bit 12 (drop_bit 12 a)"
  using and_not_mask [of a 12] by (simp add: PGROUNDDOWN_def mask_eq_exp_minus_1)

lemma unat_less_64: "unat (a :: u64) < 18446744073709551616"
  using unsigned_less [of a] by simp

lemma unat_PGROUNDDOWN: "unat (PGROUNDDOWN a) = unat a div 4096 * 4096"
proof -
  have "unat a div 4096 * 4096 < 18446744073709551616"
    using unat_less_64 [of a] by (auto intro: le_less_trans [OF div_times_less_eq_dividend])
  then show ?thesis
    by (simp add: PGROUNDDOWN_eq drop_bit_eq_div push_bit_eq_mult unat_word_ariths unat_div)
qed

lemma PGROUNDUP_down: "PGROUNDUP a = PGROUNDDOWN (a + 4095)"
  by (simp add: PGROUNDUP_def PGROUNDDOWN_def algebra_simps)

lemma unat_PGROUNDUP:
  "unat a \<le> 18446744073709547520 \<Longrightarrow> unat (PGROUNDUP a) = (unat a + 4095) div 4096 * 4096"
  by (simp add: PGROUNDUP_down unat_PGROUNDDOWN unat_word_ariths)

lemma page_aligned_round [simp]: "page_aligned (PGROUNDDOWN a)" "page_aligned (PGROUNDUP a)"
  by (simp_all add: page_aligned_unat unat_PGROUNDDOWN PGROUNDUP_down)

lemma PGROUNDDOWN_aligned: "page_aligned a \<Longrightarrow> PGROUNDDOWN a = a"
  by (simp add: word_unat_eq_iff unat_PGROUNDDOWN page_aligned_unat)

lemma PGROUNDDOWN_le: "unat (PGROUNDDOWN a) \<le> unat a"
  by (simp add: unat_PGROUNDDOWN)

end
