(* ===== verification/Kalloc.thy ===== *)
theory Kalloc
  imports Cmem Spinlock Layout
begin

text \<open>
  The physical page allocator, kernel/kalloc.c.

  The state adds to the lock state the physical memory, the head of the free list and the
  linker symbol \<open>end\<close>. The free list is not a list of the model: as in the code, each free page
  holds the address of the next one in its first eight bytes. \<open>free_list s xs\<close> says that the
  pages reached from the head are \<open>xs\<close>. The allocator's contract with its clients is the locale
  \<open>page_allocator\<close>, interpreted on \<open>kalloc\<close> and \<open>kfree\<close> at the end.
\<close>

unbundle bit_operations_syntax

record mstate = lstate +
  pmem :: memory
  freelist :: u64
  kend :: u64

section \<open>Operations\<close>

definition kfree :: "u64 \<Rightarrow> 'a mstate_scheme \<Rightarrow> fault + 'a mstate_scheme" where
  "kfree pa s =
     (if pa mod PGSIZE \<noteq> 0 \<or> pa < kend s \<or> pa \<ge> PHYSTOP then Inl (Panic ''kfree'')
      else let s = s\<lparr>pmem := memset (pmem s) pa 1 4096\<rparr>
           in bnd (acquire KmemLock s) (\<lambda>s.
              let s = s\<lparr>pmem := st64 (pmem s) pa (freelist s)\<rparr>;
                  s = s\<lparr>freelist := pa\<rparr>
              in release KmemLock s))"

definition kalloc :: "'a mstate_scheme \<Rightarrow> fault + u64 \<times> 'a mstate_scheme" where
  "kalloc s =
     bnd (acquire KmemLock s) (\<lambda>s.
     let r = freelist s;
         s = (if r \<noteq> 0 then s\<lparr>freelist := ld64 (pmem s) r\<rparr> else s)
     in bnd (release KmemLock s) (\<lambda>s.
        Inr (r, if r \<noteq> 0 then s\<lparr>pmem := memset (pmem s) r 5 4096\<rparr> else s)))"

lemma kfree_below: "kfree pa s = Inr s' \<Longrightarrow> pa < PHYSTOP"
  by (auto simp: kfree_def split: if_splits)

text \<open>
  The loop of \<open>freerange\<close> ends because \<open>kfree\<close> panics at \<open>PHYSTOP\<close>, even where \<open>p + PGSIZE\<close> wraps.
\<close>

function freerange_loop :: "u64 \<Rightarrow> u64 \<Rightarrow> 'a mstate_scheme \<Rightarrow> fault + 'a mstate_scheme" where
  "freerange_loop p pa_end s =
     (if p + PGSIZE \<le> pa_end
      then bnd (kfree p s) (\<lambda>s. freerange_loop (p + PGSIZE) pa_end s)
      else Inr s)"
  by pat_completeness auto
termination
proof (relation "measure (\<lambda>(p, e, s). 2 ^ 64 - unat p)")
  fix p pa_end :: u64 and s s' :: "'a mstate_scheme"
  assume "kfree p s = Inr s'"
  then have "p < PHYSTOP" by (rule kfree_below)
  then have "unat p < 0x88000000"
    by (simp add: layout_values word_less_nat_alt)
  then show "((p + PGSIZE, pa_end, s'), p, pa_end, s) \<in> measure (\<lambda>(p, e, s). 2 ^ 64 - unat p)"
    by (simp add: unat_word_ariths)
qed simp

declare freerange_loop.simps [simp del]

definition freerange :: "u64 \<Rightarrow> u64 \<Rightarrow> 'a mstate_scheme \<Rightarrow> fault + 'a mstate_scheme" where
  "freerange pa_start pa_end s = freerange_loop (PGROUNDUP pa_start) pa_end s"

definition kinit :: "'a mstate_scheme \<Rightarrow> fault + 'a mstate_scheme" where
  "kinit s = freerange (kend s) PHYSTOP (initlock KmemLock ''kmem'' s)"

section \<open>Pages\<close>

abbreviation in_page :: "u64 \<Rightarrow> u64 \<Rightarrow> bool" where
  "in_page p a \<equiv> in_rng p 4096 a"

lemma in_page_iff: "page_aligned p \<Longrightarrow> in_page p a \<longleftrightarrow> PGROUNDDOWN a = p"
proof -
  assume "page_aligned p"
  then obtain k where k: "unat p = 4096 * k" by (auto simp: page_aligned_unat elim: dvdE)
  with unat_less_64 [of p] have "k < 2 ^ 52" by simp
  then show ?thesis
    using k unat_less_64 [of a]
    by (auto simp: in_rng_def word_unat_eq_iff unat_PGROUNDDOWN unat_sub64)
qed

lemma in_page_unique: "page_aligned p \<Longrightarrow> page_aligned q \<Longrightarrow> in_page p a \<Longrightarrow> in_page q a \<Longrightarrow> p = q"
  by (simp add: in_page_iff)

lemma in_rng_mono: "in_rng a n b \<Longrightarrow> n \<le> k \<Longrightarrow> in_rng a k b"
  by (simp add: in_rng_def)

lemma in_page_head: "in_rng p 8 a \<Longrightarrow> in_page p a"
  by (erule in_rng_mono) simp

definition valid_page :: "'a mstate_scheme \<Rightarrow> u64 \<Rightarrow> bool" where
  "valid_page s p \<longleftrightarrow> page_aligned p \<and> kend s \<le> p \<and> p < PHYSTOP"

section \<open>The free list\<close>

fun links :: "memory \<Rightarrow> u64 \<Rightarrow> u64 list \<Rightarrow> bool" where
  "links m r [] \<longleftrightarrow> r = 0"
| "links m r (x # xs) \<longleftrightarrow> r = x \<and> x \<noteq> 0 \<and> links m (ld64 m x) xs"

definition free_list :: "'a mstate_scheme \<Rightarrow> u64 list \<Rightarrow> bool" where
  "free_list s xs \<longleftrightarrow> links (pmem s) (freelist s) xs \<and> distinct xs
     \<and> (\<forall>p \<in> set xs. valid_page s p)"

lemma links_cong:
  "(\<And>x a. x \<in> set xs \<Longrightarrow> in_page x a \<Longrightarrow> m a = m' a) \<Longrightarrow> links m r xs \<longleftrightarrow> links m' r xs"
proof (induction xs arbitrary: r)
  case (Cons x xs)
  have "ld64 m x = ld64 m' x"
    by (rule ld64_cong) (rule Cons.prems [of x], auto intro: in_page_head)
  moreover have "links m (ld64 m' x) xs \<longleftrightarrow> links m' (ld64 m' x) xs"
    by (rule Cons.IH) (rule Cons.prems, auto)
  ultimately show ?case by auto
qed simp

lemma links_unique: "links m r xs \<Longrightarrow> links m r ys \<Longrightarrow> xs = ys"
proof (induction xs arbitrary: r ys)
  case Nil
  then show ?case by (cases ys) auto
next
  case (Cons x xs)
  then show ?case by (cases ys) auto
qed

lemma free_list_unique: "free_list s xs \<Longrightarrow> free_list s ys \<Longrightarrow> xs = ys"
  by (auto simp: free_list_def intro: links_unique)

section \<open>What a call does\<close>

lemma mstate_lk_simps [simp]:
  "pmem (lk_cycle s) = pmem s" "freelist (lk_cycle s) = freelist s" "kend (lk_cycle s) = kend s"
  "mstate.more (lk_cycle s) = mstate.more s"
  "pmem (lk_on l s) = pmem s" "freelist (lk_on l s) = freelist s" "kend (lk_on l s) = kend s"
  "mstate.more (lk_on l s) = mstate.more s"
  by (simp_all add: lk_cycle_def lk_on_def lock_defs Let_def)

text \<open>Updates of memory and free list do not touch what the lock operations look at.\<close>

lemma lk_mem_upd [simp]:
  "lk_free l (s\<lparr>pmem := m\<rparr>) = lk_free l s" "lk_free l (s\<lparr>freelist := f\<rparr>) = lk_free l s"
  "cpu_ok (s\<lparr>pmem := m\<rparr>) = cpu_ok s" "cpu_ok (s\<lparr>freelist := f\<rparr>) = cpu_ok s"
  "lk_cycle (s\<lparr>pmem := m\<rparr>) = (lk_cycle s)\<lparr>pmem := m\<rparr>"
  "lk_on l (s\<lparr>pmem := m\<rparr>) = (lk_on l s)\<lparr>pmem := m\<rparr>"
  by (simp_all add: lk_free_def cpu_ok_def lk_cycle_def lk_on_def lock_defs Let_def)

lemma mstate_comm [lk_comm]:
  "acquire l (s\<lparr>pmem := x0\<rparr>) = bnd (acquire l s) (\<lambda>s. Inr (s\<lparr>pmem := x0\<rparr>))"
  "release l (s\<lparr>pmem := x0\<rparr>) = bnd (release l s) (\<lambda>s. Inr (s\<lparr>pmem := x0\<rparr>))"
  "holding l (s\<lparr>pmem := x0\<rparr>) = holding l s" "mycpu (s\<lparr>pmem := x0\<rparr>) = mycpu s" "intr_get (s\<lparr>pmem := x0\<rparr>) = intr_get s"
  "lk_free l (s\<lparr>pmem := x0\<rparr>) = lk_free l s" "cpu_ok (s\<lparr>pmem := x0\<rparr>) = cpu_ok s"
  "lk_on l (s\<lparr>pmem := x0\<rparr>) = (lk_on l s)\<lparr>pmem := x0\<rparr>"
  "lk_cycle (s\<lparr>pmem := x0\<rparr>) = (lk_cycle s)\<lparr>pmem := x0\<rparr>"
  "set_lname k nm (s\<lparr>pmem := x0\<rparr>) = (set_lname k nm s)\<lparr>pmem := x0\<rparr>"
  "pmem (lk_on l s) = pmem s" "pmem (lk_cycle s) = pmem s" "pmem (set_lname k nm s) = pmem s"
  "acquire l (s\<lparr>freelist := x1\<rparr>) = bnd (acquire l s) (\<lambda>s. Inr (s\<lparr>freelist := x1\<rparr>))"
  "release l (s\<lparr>freelist := x1\<rparr>) = bnd (release l s) (\<lambda>s. Inr (s\<lparr>freelist := x1\<rparr>))"
  "holding l (s\<lparr>freelist := x1\<rparr>) = holding l s" "mycpu (s\<lparr>freelist := x1\<rparr>) = mycpu s" "intr_get (s\<lparr>freelist := x1\<rparr>) = intr_get s"
  "lk_free l (s\<lparr>freelist := x1\<rparr>) = lk_free l s" "cpu_ok (s\<lparr>freelist := x1\<rparr>) = cpu_ok s"
  "lk_on l (s\<lparr>freelist := x1\<rparr>) = (lk_on l s)\<lparr>freelist := x1\<rparr>"
  "lk_cycle (s\<lparr>freelist := x1\<rparr>) = (lk_cycle s)\<lparr>freelist := x1\<rparr>"
  "set_lname k nm (s\<lparr>freelist := x1\<rparr>) = (set_lname k nm s)\<lparr>freelist := x1\<rparr>"
  "freelist (lk_on l s) = freelist s" "freelist (lk_cycle s) = freelist s" "freelist (set_lname k nm s) = freelist s"
  "kend (lk_on l s) = kend s" "kend (lk_cycle s) = kend s" "kend (set_lname k nm s) = kend s"
  by (simp_all add: lk_free_def cpu_ok_def lk_cycle_def lk_on_def set_lname_def lock_defs Let_def)

text \<open>The lock the allocator needs, and the hart's bookkeeping: the calls then return.\<close>

definition kmem_ready :: "'a mstate_scheme \<Rightarrow> bool" where
  "kmem_ready s \<longleftrightarrow> lk_free KmemLock s \<and> cpu_ok s"

lemma kalloc_eq:
  assumes "kmem_ready s"
  shows "kalloc s = Inr (freelist s, if freelist s = 0 then lk_cycle s
     else (lk_cycle s)\<lparr>freelist := ld64 (pmem s) (freelist s),
                        pmem := memset (pmem s) (freelist s) 5 4096\<rparr>)"
proof -
  from assms have r: "lk_free KmemLock s" "cpu_ok s" by (auto simp: kmem_ready_def)
  show ?thesis
    using release_after [OF r, of "lk_on KmemLock s"]
      release_after [OF r, of "(lk_on KmemLock s)\<lparr>freelist := ld64 (pmem s) (freelist s)\<rparr>"]
    by (auto simp: kalloc_def acquire_free [OF r(1)] Let_def intro!: mstate.equality)
qed

lemma kfree_eq:
  assumes "kmem_ready s" and "valid_page s p"
  shows "kfree p s = Inr ((lk_cycle s)\<lparr>freelist := p,
     pmem := st64 (memset (pmem s) p 1 4096) p (freelist s)\<rparr>)"
proof -
  let ?s = "s\<lparr>pmem := memset (pmem s) p 1 4096\<rparr>"
  from assms have r: "lk_free KmemLock ?s" "cpu_ok ?s" by (auto simp: kmem_ready_def)
  show ?thesis
    using assms(2) release_after [OF r, of "(lk_on KmemLock ?s)\<lparr>pmem :=
        st64 (memset (pmem s) p 1 4096) p (freelist s), freelist := p\<rparr>"]
    by (auto simp: kfree_def acquire_free [OF r(1)] valid_page_def page_aligned_def
        intro!: mstate.equality)
qed

lemma kfree_panics: "\<not> valid_page s p \<Longrightarrow> kfree p s = Inl (Panic ''kfree'')"
  unfolding kfree_def by (rule if_P) (auto simp: valid_page_def page_aligned_def not_le not_less)

lemma kmem_ready_simps [simp]:
  "kmem_ready (lk_cycle s) = kmem_ready s" "kmem_ready (s\<lparr>pmem := m\<rparr>) = kmem_ready s"
  "kmem_ready (s\<lparr>freelist := f\<rparr>) = kmem_ready s"
  "valid_page (lk_cycle s) p = valid_page s p" "valid_page (s\<lparr>pmem := m\<rparr>) p = valid_page s p"
  "valid_page (s\<lparr>freelist := f\<rparr>) p = valid_page s p"
  by (simp_all add: kmem_ready_def valid_page_def)

text \<open>\<open>kalloc\<close> takes the first page of the free list and touches no byte outside it.\<close>

lemma kalloc_Cons:
  assumes "kmem_ready s" and "free_list s (x # xs)"
  shows "\<exists>s'. kalloc s = Inr (x, s') \<and> free_list s' xs \<and> kmem_ready s' \<and> kend s' = kend s
    \<and> pmem s' = memset (pmem s) x 5 4096"
proof -
  from assms(2) have x: "freelist s = x" "x \<noteq> 0" "x \<notin> set xs" "valid_page s x"
      "\<forall>p \<in> set xs. valid_page s p" "distinct xs" "links (pmem s) (ld64 (pmem s) x) xs"
    by (auto simp: free_list_def)
  have "links (memset (pmem s) x 5 4096) (ld64 (pmem s) x) xs"
    using x by (subst links_cong [where m' = "pmem s"])
      (auto simp: memset_eq valid_page_def dest: in_page_unique)
  with assms(1) x show ?thesis
    by (auto simp: kalloc_eq free_list_def)
qed

lemma kalloc_Nil:
  "kmem_ready s \<Longrightarrow> free_list s [] \<Longrightarrow> kalloc s = Inr (0, lk_cycle s)"
  by (simp add: kalloc_eq free_list_def)

lemma kfree_Cons:
  assumes "kmem_ready s" and "free_list s xs" and "valid_page s p" and "p \<notin> set xs" and "p \<noteq> 0"
  shows "\<exists>s'. kfree p s = Inr s' \<and> free_list s' (p # xs) \<and> kmem_ready s' \<and> kend s' = kend s
    \<and> (\<forall>a. \<not> in_page p a \<longrightarrow> pmem s' a = pmem s a)"
proof -
  let ?m = "st64 (memset (pmem s) p 1 4096) p (freelist s)"
  have out: "\<not> in_page p a \<Longrightarrow> ?m a = pmem s a" for a
    by (subst st64_outside) (auto simp: memset_eq intro: in_page_head)
  have "links ?m (freelist s) xs"
    using assms out by (subst links_cong [where m' = "pmem s"])
      (auto simp: free_list_def valid_page_def dest: in_page_unique)
  with assms out show ?thesis
    by (auto simp: kfree_eq free_list_def)
qed

section \<open>The contract\<close>

text \<open>
  What the clients of the allocator rely on. \<open>avail\<close> is the set of pages that can be handed out,
  \<open>ready\<close> the condition under which a call returns. An allocation either fails because nothing
  is available, or removes one page from \<open>avail\<close>; freeing a page the allocator does not have
  puts it back; neither writes a byte outside the page it is given or returns.
\<close>

text \<open>\<open>n\<close> calls of an allocator in a row.\<close>

fun allocs :: "('s \<Rightarrow> fault + u64 \<times> 's) \<Rightarrow> nat \<Rightarrow> 's \<Rightarrow> fault + u64 list \<times> 's" where
  "allocs alloc 0 s = Inr ([], s)"
| "allocs alloc (Suc n) s =
     bnd (alloc s) (\<lambda>(p, s). bnd (allocs alloc n s) (\<lambda>(ps, s). Inr (p # ps, s)))"

locale page_allocator =
  fixes alloc :: "'s \<Rightarrow> fault + u64 \<times> 's"
    and free :: "u64 \<Rightarrow> 's \<Rightarrow> fault + 's"
    and mem :: "'s \<Rightarrow> memory"
    and avail :: "'s \<Rightarrow> u64 set"
    and ready :: "'s \<Rightarrow> bool"
    and owned :: "'s \<Rightarrow> u64 \<Rightarrow> bool"
    and frame :: "'s \<Rightarrow> 's \<Rightarrow> bool"
  assumes alloc_empty: "ready s \<Longrightarrow> avail s = {} \<Longrightarrow>
      \<exists>s'. alloc s = Inr (0, s') \<and> ready s' \<and> avail s' = {} \<and> mem s' = mem s \<and> frame s s'"
    and alloc_page: "ready s \<Longrightarrow> avail s \<noteq> {} \<Longrightarrow>
      \<exists>p s'. alloc s = Inr (p, s') \<and> p \<in> avail s \<and> ready s' \<and> avail s' = avail s - {p}
        \<and> (\<forall>a. \<not> in_page p a \<longrightarrow> mem s' a = mem s a) \<and> frame s s'"
    and free_page: "ready s \<Longrightarrow> owned s p \<Longrightarrow> p \<notin> avail s \<Longrightarrow>
      \<exists>s'. free p s = Inr s' \<and> ready s' \<and> avail s' = insert p (avail s)
        \<and> (\<forall>a. \<not> in_page p a \<longrightarrow> mem s' a = mem s a) \<and> frame s s'"
    and avail_ok: "ready s \<Longrightarrow> finite (avail s) \<and> 0 \<notin> avail s \<and> (\<forall>p \<in> avail s. owned s p \<and> page_aligned p)"
    and frame_owned: "frame s s' \<Longrightarrow> owned s' p = owned s p"
    and frame_trans: "frame s s' \<Longrightarrow> frame s' s'' \<Longrightarrow> frame s s''"
begin

text \<open>The two cases of an allocation in one rule.\<close>

lemma alloc_cases:
  assumes "ready s"
  obtains (none) s' where "alloc s = Inr (0, s')" "avail s = {}" "ready s'" "avail s' = {}"
      "mem s' = mem s" "frame s s'"
  | (page) p s' where "alloc s = Inr (p, s')" "p \<in> avail s" "p \<noteq> 0" "page_aligned p" "owned s p"
      "ready s'" "avail s' = avail s - {p}" "\<forall>a. \<not> in_page p a \<longrightarrow> mem s' a = mem s a" "frame s s'"
  using alloc_empty [OF assms] alloc_page [OF assms] avail_ok [OF assms] by metis

lemma allocs_distinct:
  "ready s \<Longrightarrow> n \<le> card (avail s) \<Longrightarrow>
     \<exists>ps s'. allocs alloc n s = Inr (ps, s') \<and> length ps = n \<and> distinct ps \<and> set ps \<subseteq> avail s
       \<and> ready s' \<and> avail s' = avail s - set ps
       \<and> (\<forall>a. (\<forall>p \<in> set ps. \<not> in_page p a) \<longrightarrow> mem s' a = mem s a)"
proof (induction n arbitrary: s)
  case (Suc n)
  then have "avail s \<noteq> {}" by auto
  then obtain p s1 where 1: "alloc s = Inr (p, s1)" "p \<in> avail s" "ready s1"
      "avail s1 = avail s - {p}" "\<forall>a. \<not> in_page p a \<longrightarrow> mem s1 a = mem s a"
    using alloc_page Suc.prems(1) by metis
  have "n \<le> card (avail s1)"
    using Suc.prems 1(2,4) avail_ok [OF Suc.prems(1)] by (simp add: card_Diff_singleton)
  then obtain ps s' where 2: "allocs alloc n s1 = Inr (ps, s')" "length ps = n" "distinct ps"
      "set ps \<subseteq> avail s1" "ready s'" "avail s' = avail s1 - set ps"
      "\<forall>a. (\<forall>p \<in> set ps. \<not> in_page p a) \<longrightarrow> mem s' a = mem s1 a"
    using Suc.IH [OF 1(3)] by metis
  then show ?case using 1 by auto
qed simp

lemma allocs_exhausted:
  "ready s \<Longrightarrow> n = card (avail s) \<Longrightarrow>
     \<exists>ps s' s''. allocs alloc n s = Inr (ps, s') \<and> set ps = avail s \<and> alloc s' = Inr (0, s'')"
proof -
  assume r: "ready s" and n: "n = card (avail s)"
  then obtain ps s' where 1: "allocs alloc n s = Inr (ps, s')" "length ps = n" "distinct ps"
      "set ps \<subseteq> avail s" "ready s'" "avail s' = avail s - set ps"
    using allocs_distinct [OF r, of n] by auto
  then have "set ps = avail s"
    using n avail_ok [OF r] by (intro card_subset_eq) (auto simp: distinct_card)
  with 1 alloc_empty [of s'] show ?thesis by auto
qed

lemma free_alloc:
  "ready s \<Longrightarrow> owned s p \<Longrightarrow> p \<notin> avail s \<Longrightarrow> avail s = {} \<Longrightarrow>
     \<exists>s' s''. free p s = Inr s' \<and> alloc s' = Inr (p, s'')"
proof -
  assume a: "ready s" "owned s p" "p \<notin> avail s" "avail s = {}"
  then obtain s' where s': "free p s = Inr s'" "ready s'" "avail s' = {p}"
    using free_page by fastforce
  with alloc_page [of s'] show ?thesis by auto
qed

end

text \<open>The contract holds of \<open>kalloc\<close> and \<open>kfree\<close> in a state whose free list is well formed.\<close>

definition kmem_avail :: "'a mstate_scheme \<Rightarrow> u64 set" where
  "kmem_avail s = {p. \<exists>xs. free_list s xs \<and> p \<in> set xs}"

definition kmem_ok :: "'a mstate_scheme \<Rightarrow> bool" where
  "kmem_ok s \<longleftrightarrow> kmem_ready s \<and> kend s \<noteq> 0 \<and> (\<exists>xs. free_list s xs)"

lemma kmem_avail_eq: "free_list s xs \<Longrightarrow> kmem_avail s = set xs"
  using free_list_unique by (auto simp: kmem_avail_def)

text \<open>The rest of the state: a call changes memory, the free list and this hart's saved \<open>intena\<close>.\<close>

definition only_mem :: "'a mstate_scheme \<Rightarrow> 'a mstate_scheme \<Rightarrow> bool" where
  "only_mem s s' \<longleftrightarrow> (\<exists>m f. s' = s\<lparr>pmem := m, freelist := f\<rparr> \<or> s' = (lk_cycle s)\<lparr>pmem := m, freelist := f\<rparr>)"

lemma lk_cycle_freelist [simp]: "lk_cycle (s\<lparr>freelist := f\<rparr>) = (lk_cycle s)\<lparr>freelist := f\<rparr>"
  by (simp add: lk_cycle_def lock_defs)

lemma only_mem_trans: "only_mem s s' \<Longrightarrow> only_mem s' s'' \<Longrightarrow> only_mem s s''"
  unfolding only_mem_def by fastforce

lemma only_mem_refl [simp]: "only_mem s s"
proof -
  have "s = s\<lparr>pmem := pmem s, freelist := freelist s\<rparr>" by simp
  then show ?thesis unfolding only_mem_def by blast
qed

lemma only_mem_upd [simp]: "only_mem s (s\<lparr>pmem := m\<rparr>)"
proof -
  have "s\<lparr>pmem := m\<rparr> = s\<lparr>pmem := m, freelist := freelist s\<rparr>" by simp
  then show ?thesis unfolding only_mem_def by blast
qed

lemma only_mem_simps:
  assumes "only_mem s s'"
  shows "kend s' = kend s" "mstate.more s' = mstate.more s" "hart s' = hart s" "sie s' = sie s"
    "locks s' = locks s" "lk_free l s' = lk_free l s" "cpu_ok s' = cpu_ok s"
    "cproc (cpus s' h) = cproc (cpus s h)" "noff (cpus s' h) = noff (cpus s h)"
    "valid_page s' p = valid_page s p" "kmem_ready s' = kmem_ready s"
  using assms by (auto simp: only_mem_def)

lemma kalloc_frame: "kmem_ready s \<Longrightarrow> kalloc s = Inr (p, s') \<Longrightarrow> only_mem s s'"
proof -
  assume a: "kmem_ready s" "kalloc s = Inr (p, s')"
  have "\<exists>m f. s' = (lk_cycle s)\<lparr>pmem := m, freelist := f\<rparr>"
  proof (cases "freelist s = 0")
    case True
    with a have "s' = (lk_cycle s)\<lparr>pmem := pmem s, freelist := freelist s\<rparr>"
      by (auto simp: kalloc_eq intro!: mstate.equality)
    then show ?thesis by blast
  next
    case False
    with a have "s' = (lk_cycle s)\<lparr>pmem := memset (pmem s) (freelist s) 5 4096,
        freelist := ld64 (pmem s) (freelist s)\<rparr>"
      by (auto simp: kalloc_eq)
    then show ?thesis by blast
  qed
  then show ?thesis unfolding only_mem_def by blast
qed

lemma kfree_frame: "kmem_ready s \<Longrightarrow> kfree p s = Inr s' \<Longrightarrow> only_mem s s'"
proof -
  assume a: "kmem_ready s" "kfree p s = Inr s'"
  then have "valid_page s p" using kfree_panics by fastforce
  with a have "s' = (lk_cycle s)\<lparr>pmem := st64 (memset (pmem s) p 1 4096) p (freelist s), freelist := p\<rparr>"
    by (auto simp: kfree_eq)
  then show ?thesis unfolding only_mem_def by blast
qed

interpretation kmem: page_allocator kalloc kfree pmem kmem_avail kmem_ok valid_page only_mem
proof (unfold_locales, goal_cases)
  case (1 s)
  then obtain xs where xs: "free_list s xs" by (auto simp: kmem_ok_def)
  with 1 have "free_list s []" by (simp add: kmem_avail_eq)
  moreover from this have "free_list (lk_cycle s) []" by (simp add: free_list_def)
  ultimately show ?case
    using 1 kalloc_Nil [of s] kalloc_frame [of s 0 "lk_cycle s"] by (auto simp: kmem_ok_def kmem_avail_eq)
next
  case (2 s)
  then obtain ys where "free_list s ys" by (auto simp: kmem_ok_def)
  with 2 obtain x xs where xs: "free_list s (x # xs)" by (cases ys) (auto simp: kmem_avail_eq)
  then obtain s' where s': "kalloc s = Inr (x, s')" "free_list s' xs" "kmem_ready s'"
      "kend s' = kend s" "pmem s' = memset (pmem s) x 5 4096"
    using kalloc_Cons [OF _ xs] 2 by (auto simp: kmem_ok_def)
  moreover have "x \<notin> set xs" using xs by (simp add: free_list_def)
  ultimately show ?case
    using 2 xs kalloc_frame [OF _ s'(1)] by (auto simp: kmem_ok_def kmem_avail_eq memset_eq)
next
  case (3 s p)
  then obtain xs where xs: "free_list s xs" by (auto simp: kmem_ok_def)
  with 3 have p: "p \<notin> set xs" "p \<noteq> 0"
    by (auto simp: kmem_avail_eq kmem_ok_def valid_page_def)
  then obtain s' where s': "kfree p s = Inr s'" "free_list s' (p # xs)" "kmem_ready s'"
      "kend s' = kend s" "\<forall>a. \<not> in_page p a \<longrightarrow> pmem s' a = pmem s a"
    using kfree_Cons [OF _ xs _ p] 3 by (auto simp: kmem_ok_def)
  then show ?case
    using 3 xs kfree_frame [OF _ s'(1)] by (auto simp: kmem_ok_def kmem_avail_eq)
next
  case (4 s)
  then obtain xs where "free_list s xs" by (auto simp: kmem_ok_def)
  with 4 show ?case
    by (auto simp: kmem_avail_eq free_list_def valid_page_def kmem_ok_def)
qed (auto dest: only_mem_trans simp: only_mem_simps)

text \<open>Memory outside the free pages can change without the allocator noticing.\<close>

lemma kmem_mem_upd:
  assumes "kmem_ok s" and "\<And>p a. p \<in> kmem_avail s \<Longrightarrow> in_page p a \<Longrightarrow> m a = pmem s a"
  shows "kmem_ok (s\<lparr>pmem := m\<rparr>)" "kmem_avail (s\<lparr>pmem := m\<rparr>) = kmem_avail s"
proof -
  obtain xs where xs: "free_list s xs" using assms(1) by (auto simp: kmem_ok_def)
  then have "links m (freelist s) xs"
    using assms(2) by (subst links_cong [where m' = "pmem s"]) (auto simp: kmem_avail_eq free_list_def)
  with xs have "free_list (s\<lparr>pmem := m\<rparr>) xs" by (simp add: free_list_def)
  with xs assms(1) show "kmem_ok (s\<lparr>pmem := m\<rparr>)" "kmem_avail (s\<lparr>pmem := m\<rparr>) = kmem_avail s"
    by (auto simp: kmem_ok_def kmem_avail_eq)
qed

section \<open>Initialisation\<close>

lemma word_le_unat: "(a :: u64) \<le> b \<longleftrightarrow> unat a \<le> unat b"
  by (simp add: word_le_nat_alt)

lemma unat_phystop: "unat PHYSTOP = 0x88000000"
  by (simp add: layout_values)

lemma aligned_step:
  assumes "page_aligned p" "page_aligned q" "p < q" "unat p < 0x88000000"
  shows "p + 4096 \<le> q"
proof -
  obtain i j where ij: "unat p = 4096 * i" "unat q = 4096 * j"
    using assms(1,2) by (auto simp: page_aligned_unat elim!: dvdE)
  with assms(3) have "i < j" by (simp add: word_less_nat_alt)
  then have "unat p + 4096 \<le> unat q" using ij by simp
  with assms(4) show ?thesis by (simp add: word_le_nat_alt unat_word_ariths)
qed

lemma aligned_plus: "page_aligned p \<Longrightarrow> unat p < 0x88000000 \<Longrightarrow> page_aligned (p + 4096)"
  by (simp add: page_aligned_unat unat_word_ariths)

lemma aligned_phystop: "page_aligned PHYSTOP"
  by (simp add: page_aligned_unat unat_phystop)

lemma freerange_loop_spec:
  assumes "kmem_ready s" "free_list s xs" "\<forall>x \<in> set xs. x < p" "page_aligned p"
    "kend s \<le> p" "kend s \<noteq> 0" "p \<le> PHYSTOP"
  shows "\<exists>s' ys. freerange_loop p PHYSTOP s = Inr s' \<and> free_list s' ys \<and> kmem_ready s'
    \<and> kend s' = kend s \<and> set ys = set xs \<union> {q. page_aligned q \<and> p \<le> q \<and> q < PHYSTOP}"
  using assms
proof (induction p PHYSTOP s arbitrary: xs rule: freerange_loop.induct)
  case (1 p s)
  have up: "unat p \<le> 0x88000000" using 1(8) by (simp add: word_le_nat_alt unat_phystop)
  show ?case
  proof (cases "p < PHYSTOP")
    case True
    then have lt: "unat p < 0x88000000" by (simp add: word_less_nat_alt unat_phystop)
    have le: "p + PGSIZE \<le> PHYSTOP"
      using aligned_step [OF 1(5) aligned_phystop True lt] by simp
    have v: "valid_page s p" using 1 True by (simp add: valid_page_def)
    have p: "p \<notin> set xs" "p \<noteq> 0" using 1 by (auto simp: word_le_nat_alt unat_eq_0)
    obtain s1 where s1: "kfree p s = Inr s1" "free_list s1 (p # xs)" "kmem_ready s1" "kend s1 = kend s"
      using kfree_Cons [OF 1(2,3) v p] by auto
    have pp: "p < p + PGSIZE" using lt by (simp add: word_less_nat_alt unat_word_ariths)
    have "\<exists>s' ys. freerange_loop (p + PGSIZE) PHYSTOP s1 = Inr s' \<and> free_list s' ys \<and> kmem_ready s'
        \<and> kend s' = kend s1
        \<and> set ys = set (p # xs) \<union> {q. page_aligned q \<and> p + PGSIZE \<le> q \<and> q < PHYSTOP}"
    proof (rule 1(1) [OF le s1(1) s1(3,2)])
      show "\<forall>x \<in> set (p # xs). x < p + PGSIZE" using 1(4) pp by auto
    qed (use 1 s1 le pp lt in \<open>auto intro: aligned_plus\<close>)
    moreover have "insert p {q. page_aligned q \<and> p + PGSIZE \<le> q \<and> q < PHYSTOP}
        = {q. page_aligned q \<and> p \<le> q \<and> q < PHYSTOP}"
      using 1(5) True pp aligned_step [OF 1(5) _ _ lt] by auto
    ultimately show ?thesis
      using le s1 by (subst freerange_loop.simps) auto
  next
    case False
    then have "p = PHYSTOP" using 1(8) by simp
    moreover have "\<not> PHYSTOP + PGSIZE \<le> PHYSTOP"
      by (simp add: word_le_nat_alt layout_values)
    ultimately show ?thesis
      using 1 by (subst freerange_loop.simps) auto
  qed
qed

lemma initlock_ready: "cpu_ok s \<Longrightarrow> kmem_ready (initlock KmemLock n s)"
  by (simp add: kmem_ready_def initlock_def lk_free_def cpu_ok_def lock_defs)

text \<open>
  C16: \<open>kinit\<close> returns with every page between \<open>end\<close> (rounded up) and \<open>PHYSTOP\<close> on the free
  list, exactly once.
\<close>

theorem kinit_frees_all:
  assumes "cpu_ok s" and "freelist s = 0" and "kend s \<noteq> 0" and "kend s \<le> PHYSTOP"
  shows "\<exists>s' ys. kinit s = Inr s' \<and> kmem_ok s' \<and> free_list s' ys \<and> distinct ys
    \<and> set ys = {p. page_aligned p \<and> kend s \<le> p \<and> p < PHYSTOP}"
proof -
  let ?s = "initlock KmemLock ''kmem'' s"
  have f: "free_list ?s []" "kend ?s = kend s"
    using assms(2) by (simp_all add: free_list_def initlock_def)
  have k: "unat (kend s) \<le> 0x88000000" using assms(4) by (simp add: word_le_nat_alt unat_phystop)
  then have u: "unat (PGROUNDUP (kend s)) = (unat (kend s) + 4095) div 4096 * 4096"
    by (simp add: unat_PGROUNDUP)
  have ge: "kend s \<le> PGROUNDUP (kend s)" "PGROUNDUP (kend s) \<le> PHYSTOP"
    using k by (simp_all add: word_le_nat_alt u unat_phystop)
  have least: "page_aligned q \<Longrightarrow> kend s \<le> q \<longleftrightarrow> PGROUNDUP (kend s) \<le> q" for q
    by (auto simp: word_le_nat_alt u page_aligned_unat elim!: dvdE)
  obtain s' ys where s': "kinit s = Inr s'" "free_list s' ys" "kmem_ready s'" "kend s' = kend s"
      "set ys = {q. page_aligned q \<and> PGROUNDUP (kend s) \<le> q \<and> q < PHYSTOP}"
    using freerange_loop_spec [OF initlock_ready [OF assms(1)] f(1), of "PGROUNDUP (kend s)"] ge f(2)
      assms(3) by (auto simp: kinit_def freerange_def)
  then show ?thesis
    using assms(3) least by (auto simp: kmem_ok_def free_list_def)
qed

section \<open>Properties\<close>

text \<open>A memory with one free page, the last one below \<open>PHYSTOP\<close>.\<close>

definition kmem_one :: mstate where
  "kmem_one = \<lparr>hart = 0, sie = (\<lambda>_. True),
     cpus = (\<lambda>_. \<lparr>cproc = None, noff = 0, intena = False\<rparr>),
     locks = (\<lambda>_. \<lparr>locked = False, lname = [], lcpu = None\<rparr>),
     pmem = (\<lambda>_. 0), freelist = 0x87FFF000, kend = 0x87FFF000\<rparr>"

lemma kmem_one_ready: "kmem_ready kmem_one"
  by (simp add: kmem_ready_def kmem_one_def lk_free_def cpu_ok_def lock_defs)

lemma kmem_one_free: "free_list kmem_one [0x87FFF000]"
  by (simp add: free_list_def kmem_one_def valid_page_def page_aligned_unat layout_values ld64_zero)

lemma kmem_one_ok: "kmem_ok kmem_one"
  using kmem_one_ready kmem_one_free by (auto simp: kmem_ok_def kmem_one_def)

lemma kmem_one_avail: "kmem_avail kmem_one = {0x87FFF000}"
  using kmem_avail_eq [OF kmem_one_free] by simp

lemma kinit_frees_all_witness:
  "\<exists>s' ys. kinit (kmem_one\<lparr>freelist := 0\<rparr>) = Inr s' \<and> kmem_ok s' \<and> free_list s' ys \<and> distinct ys
    \<and> set ys = {p. page_aligned p \<and> 0x87FFF000 \<le> p \<and> p < PHYSTOP}"
proof -
  have "cpu_ok (kmem_one\<lparr>freelist := 0\<rparr>)" using kmem_one_ready by (simp add: kmem_ready_def)
  then show ?thesis
    using kinit_frees_all [of "kmem_one\<lparr>freelist := 0\<rparr>"]
    by (simp add: kmem_one_def layout_values)
qed

text \<open>
  C17: no page is handed out twice. While \<open>n\<close> pages are free, \<open>n\<close> calls of \<open>kalloc\<close> return \<open>n\<close>
  different pages of the free list, change no byte outside them and leave the rest free; when
  the last page is gone, \<open>kalloc\<close> returns 0.
\<close>

theorem kalloc_pages_distinct:
  assumes "kmem_ok s" and "n \<le> card (kmem_avail s)"
  shows "\<exists>ps s'. allocs kalloc n s = Inr (ps, s') \<and> length ps = n \<and> distinct ps
    \<and> set ps \<subseteq> kmem_avail s \<and> kmem_ok s' \<and> kmem_avail s' = kmem_avail s - set ps
    \<and> (\<forall>a. (\<forall>p \<in> set ps. \<not> in_page p a) \<longrightarrow> pmem s' a = pmem s a)
    \<and> (n = card (kmem_avail s) \<longrightarrow> (\<exists>s''. kalloc s' = Inr (0, s'')))"
proof -
  obtain ps s' where 1: "allocs kalloc n s = Inr (ps, s')" "length ps = n" "distinct ps"
      "set ps \<subseteq> kmem_avail s" "kmem_ok s'" "kmem_avail s' = kmem_avail s - set ps"
      "\<forall>a. (\<forall>p \<in> set ps. \<not> in_page p a) \<longrightarrow> pmem s' a = pmem s a"
    using kmem.allocs_distinct [OF assms] by blast
  moreover have "n = card (kmem_avail s) \<Longrightarrow> \<exists>s''. kalloc s' = Inr (0, s'')"
    using kmem.allocs_exhausted [OF assms(1), of n] 1(1) by auto
  ultimately show ?thesis by blast
qed

lemma kalloc_pages_distinct_witness:
  "\<exists>ps s'. allocs kalloc 1 kmem_one = Inr (ps, s') \<and> set ps \<subseteq> {0x87FFF000} \<and> length ps = 1"
  using kalloc_pages_distinct [OF kmem_one_ok, of 1] kmem_one_avail by auto

text \<open>
  C18: freeing and allocating. \<open>kfree\<close> of an aligned page in range that is not already free
  returns, and the next \<open>kalloc\<close> returns exactly that page and the free list of the start;
  \<open>kfree\<close> of any other address panics.
\<close>

theorem kfree_kalloc_roundtrip:
  assumes "kmem_ready s" and "free_list s xs" and "p \<notin> set xs" and "p \<noteq> 0"
  shows "if valid_page s p
    then \<exists>s1 s2. kfree p s = Inr s1 \<and> free_list s1 (p # xs) \<and> kalloc s1 = Inr (p, s2) \<and> free_list s2 xs
      \<and> (\<forall>a. \<not> in_page p a \<longrightarrow> pmem s2 a = pmem s a)
    else kfree p s = Inl (Panic ''kfree'')"
proof (cases "valid_page s p")
  case True
  then obtain s1 where s1: "kfree p s = Inr s1" "free_list s1 (p # xs)" "kmem_ready s1"
      "\<forall>a. \<not> in_page p a \<longrightarrow> pmem s1 a = pmem s a"
    using kfree_Cons [OF assms(1,2) _ assms(3,4)] by auto
  moreover obtain s2 where "kalloc s1 = Inr (p, s2)" "free_list s2 xs" "pmem s2 = memset (pmem s1) p 5 4096"
    using kalloc_Cons [OF s1(3,2)] by auto
  ultimately show ?thesis using True by (auto simp: memset_eq)
qed (simp add: kfree_panics)

lemma kfree_kalloc_roundtrip_witness:
  "\<exists>s1. kfree 0x87FFF000 (kmem_one\<lparr>freelist := 0\<rparr>) = Inr s1"
proof -
  have "kmem_ready (kmem_one\<lparr>freelist := 0\<rparr>)" "free_list (kmem_one\<lparr>freelist := 0\<rparr>) []"
    using kmem_one_ready by (simp_all add: free_list_def)
  from kfree_kalloc_roundtrip [OF this, of "0x87FFF000"] show ?thesis
    using kmem_one_free by (auto simp: free_list_def split: if_splits)
qed

end
