(* ===== verification/Vm.thy ===== *)
theory Vm
  imports Kalloc
begin

text \<open>
  Page tables and user memory, kernel/vm.c (and \<open>proc_mapstacks\<close> of kernel/proc.c, which
  \<open>kvmmake\<close> calls).

  A page table is what the code says it is: a page of 512 64-bit entries in physical memory,
  so \<open>walk\<close> reads and writes entries with \<open>ld64\<close>/\<open>st64\<close> and takes new table pages from
  \<open>kalloc\<close>. The linker symbols \<open>trampoline\<close> and \<open>etext\<close> are fields of the state. The loops end
  because \<open>walk\<close> panics at \<open>MAXVA\<close>; \<open>freewalk\<close> follows three levels of tables, which is every
  table \<open>walk\<close> can build, and is \<open>Diverges\<close> below that. A kernel buffer that is not in physical
  memory (a local variable, a buffer of the block cache) is passed as the list of its bytes.
\<close>

unbundle bit_operations_syntax

record vstate = mstate +
  kernel_pagetable :: u64
  trampoline :: u64
  etext :: u64

abbreviation set_mem :: "memory \<Rightarrow> 'a mstate_scheme \<Rightarrow> 'a mstate_scheme" where
  "set_mem m s \<equiv> s\<lparr>pmem := m\<rparr>"

section \<open>Walking a page table\<close>

fun walk_levels :: "nat \<Rightarrow> u64 \<Rightarrow> u64 \<Rightarrow> bool \<Rightarrow> 'a mstate_scheme \<Rightarrow> fault + u64 \<times> 'a mstate_scheme"
  where
  "walk_levels 0 pagetable va alloc s = Inr (pagetable + 8 * PX 0 va, s)"
| "walk_levels (Suc level) pagetable va alloc s =
     (let pte = pagetable + 8 * PX (Suc level) va
      in if ld64 (pmem s) pte AND PTE_V \<noteq> 0
         then walk_levels level (PTE2PA (ld64 (pmem s) pte)) va alloc s
         else if \<not> alloc then Inr (0, s)
         else bnd (kalloc s) (\<lambda>(pagetable, s).
              if pagetable = 0 then Inr (0, s)
              else let s = set_mem (memset (pmem s) pagetable 0 4096) s;
                       s = set_mem (st64 (pmem s) pte (PA2PTE pagetable OR PTE_V)) s
                   in walk_levels level pagetable va alloc s))"

definition walk :: "u64 \<Rightarrow> u64 \<Rightarrow> bool \<Rightarrow> 'a mstate_scheme \<Rightarrow> fault + u64 \<times> 'a mstate_scheme" where
  "walk pagetable va alloc s =
     (if va \<ge> MAXVA then Inl (Panic ''walk'') else walk_levels 2 pagetable va alloc s)"

definition walkaddr :: "u64 \<Rightarrow> u64 \<Rightarrow> 'a mstate_scheme \<Rightarrow> fault + u64" where
  "walkaddr pagetable va s =
     (if va \<ge> MAXVA then Inr 0
      else bnd (walk pagetable va False s) (\<lambda>(pte, s).
           if pte = 0 then Inr 0
           else if ld64 (pmem s) pte AND PTE_V = 0 then Inr 0
           else if ld64 (pmem s) pte AND PTE_U = 0 then Inr 0
           else Inr (PTE2PA (ld64 (pmem s) pte))))"

lemma walk_below: "walk pagetable va alloc s = Inr r \<Longrightarrow> unat va < 2 ^ 38"
  by (auto simp: walk_def layout_values word_le_nat_alt not_le split: if_splits)

lemma next_page_measure: "unat (a :: u64) < 2 ^ 38 \<Longrightarrow> 2 ^ 64 - unat (a + PGSIZE) < 2 ^ 64 - unat a"
  by (simp add: unat_word_ariths)

section \<open>Mapping and unmapping\<close>

function mappages_loop ::
  "u64 \<Rightarrow> u64 \<Rightarrow> u64 \<Rightarrow> u64 \<Rightarrow> u64 \<Rightarrow> 'a mstate_scheme \<Rightarrow> fault + int \<times> 'a mstate_scheme" where
  "mappages_loop pagetable a lst pa perm s =
     bnd (walk pagetable a True s) (\<lambda>(pte, s).
       if pte = 0 then Inr (- 1, s)
       else if ld64 (pmem s) pte AND PTE_V \<noteq> 0 then Inl (Panic ''mappages: remap'')
       else let s = set_mem (st64 (pmem s) pte (PA2PTE pa OR perm OR PTE_V)) s
            in if a = lst then Inr (0, s)
               else mappages_loop pagetable (a + PGSIZE) lst (pa + PGSIZE) perm s)"
  by pat_completeness auto
termination
  by (relation "measure (\<lambda>(pt, a, lst, pa, perm, s). 2 ^ 64 - unat a)")
    (auto simp only: in_measure split_conv wf_measure intro!: next_page_measure dest: walk_below)

declare mappages_loop.simps [simp del]

definition mappages ::
  "u64 \<Rightarrow> u64 \<Rightarrow> u64 \<Rightarrow> u64 \<Rightarrow> u64 \<Rightarrow> 'a mstate_scheme \<Rightarrow> fault + int \<times> 'a mstate_scheme" where
  "mappages pagetable va sz pa perm s =
     (if sz = 0 then Inl (Panic ''mappages: size'')
      else mappages_loop pagetable (PGROUNDDOWN va) (PGROUNDDOWN (va + sz - 1)) pa perm s)"

definition kvmmap ::
  "u64 \<Rightarrow> u64 \<Rightarrow> u64 \<Rightarrow> u64 \<Rightarrow> u64 \<Rightarrow> 'a mstate_scheme \<Rightarrow> fault + 'a mstate_scheme" where
  "kvmmap kpgtbl va pa sz perm s =
     bnd (mappages kpgtbl va sz pa perm s) (\<lambda>(r, s).
       if r \<noteq> 0 then Inl (Panic ''kvmmap'') else Inr s)"

function uvmunmap_loop ::
  "u64 \<Rightarrow> u64 \<Rightarrow> u64 \<Rightarrow> bool \<Rightarrow> 'a mstate_scheme \<Rightarrow> fault + 'a mstate_scheme" where
  "uvmunmap_loop pagetable a stop do_free s =
     (if \<not> a < stop then Inr s
      else bnd (walk pagetable a False s) (\<lambda>(pte, s).
        if pte = 0 then Inl (Panic ''uvmunmap: walk'')
        else if ld64 (pmem s) pte AND PTE_V = 0 then Inl (Panic ''uvmunmap: not mapped'')
        else if PTE_FLAGS (ld64 (pmem s) pte) = PTE_V then Inl (Panic ''uvmunmap: not a leaf'')
        else bnd (if do_free then kfree (PTE2PA (ld64 (pmem s) pte)) s else Inr s) (\<lambda>s.
          let s = set_mem (st64 (pmem s) pte 0) s
          in uvmunmap_loop pagetable (a + PGSIZE) stop do_free s)))"
  by pat_completeness auto
termination
  by (relation "measure (\<lambda>(pt, a, stop, f, s). 2 ^ 64 - unat a)")
    (auto simp only: in_measure split_conv wf_measure intro!: next_page_measure dest: walk_below)

declare uvmunmap_loop.simps [simp del]

definition uvmunmap ::
  "u64 \<Rightarrow> u64 \<Rightarrow> u64 \<Rightarrow> bool \<Rightarrow> 'a mstate_scheme \<Rightarrow> fault + 'a mstate_scheme" where
  "uvmunmap pagetable va npages do_free s =
     (if va mod PGSIZE \<noteq> 0 then Inl (Panic ''uvmunmap: not aligned'')
      else uvmunmap_loop pagetable va (va + npages * PGSIZE) do_free s)"

section \<open>Creating, growing and freeing user memory\<close>

definition uvmcreate :: "'a mstate_scheme \<Rightarrow> fault + u64 \<times> 'a mstate_scheme" where
  "uvmcreate s =
     bnd (kalloc s) (\<lambda>(pagetable, s).
       if pagetable = 0 then Inr (0, s)
       else Inr (pagetable, set_mem (memset (pmem s) pagetable 0 4096) s))"

definition uvmfirst :: "u64 \<Rightarrow> u64 \<Rightarrow> u32 \<Rightarrow> 'a mstate_scheme \<Rightarrow> fault + 'a mstate_scheme" where
  "uvmfirst pagetable src sz s =
     (if sz \<ge> 4096 then Inl (Panic ''uvmfirst: more than a page'')
      else bnd (kalloc s) (\<lambda>(mem, s).
        let s = set_mem (memset (pmem s) mem 0 4096) s
        in bnd (mappages pagetable 0 PGSIZE mem (PTE_W OR PTE_R OR PTE_X OR PTE_U) s) (\<lambda>(_, s).
           Inr (set_mem (memmove (pmem s) mem src sz) s))))"

definition uvmdealloc :: "u64 \<Rightarrow> u64 \<Rightarrow> u64 \<Rightarrow> 'a mstate_scheme \<Rightarrow> fault + u64 \<times> 'a mstate_scheme"
  where
  "uvmdealloc pagetable oldsz newsz s =
     (if newsz \<ge> oldsz then Inr (oldsz, s)
      else bnd (if PGROUNDUP newsz < PGROUNDUP oldsz
                then let npages = s32 (uint ((PGROUNDUP oldsz - PGROUNDUP newsz) div PGSIZE))
                     in uvmunmap pagetable (PGROUNDUP newsz) (word_of_int npages) True s
                else Inr s)
           (\<lambda>s. Inr (newsz, s)))"

lemma mappages_below: "mappages pagetable va sz pa perm s = Inr r \<Longrightarrow> unat va < 2 ^ 38"
proof -
  assume a: "mappages pagetable va sz pa perm s = Inr r"
  then have "mappages_loop pagetable (PGROUNDDOWN va) (PGROUNDDOWN (va + sz - 1)) pa perm s = Inr r"
    by (auto simp: mappages_def split: if_splits)
  then obtain w where "walk pagetable (PGROUNDDOWN va) True s = Inr w"
    by (subst (asm) mappages_loop.simps) (auto elim: bnd_InrE)
  then have "unat va div 4096 * 4096 < 2 ^ 38"
    using walk_below unat_PGROUNDDOWN by metis
  then show ?thesis by simp
qed

function uvmalloc_loop ::
  "u64 \<Rightarrow> u64 \<Rightarrow> u64 \<Rightarrow> u64 \<Rightarrow> u64 \<Rightarrow> 'a mstate_scheme \<Rightarrow> fault + u64 \<times> 'a mstate_scheme" where
  "uvmalloc_loop pagetable a oldsz newsz xperm s =
     (if \<not> a < newsz then Inr (newsz, s)
      else bnd (kalloc s) (\<lambda>(mem, s).
        if mem = 0 then bnd (uvmdealloc pagetable a oldsz s) (\<lambda>(_, s). Inr (0, s))
        else let s = set_mem (memset (pmem s) mem 0 4096) s
        in bnd (mappages pagetable a PGSIZE mem (PTE_R OR PTE_U OR xperm) s) (\<lambda>(r, s).
           if r \<noteq> 0
           then bnd (kfree mem s) (\<lambda>s.
                bnd (uvmdealloc pagetable a oldsz s) (\<lambda>(_, s). Inr (0, s)))
           else uvmalloc_loop pagetable (a + PGSIZE) oldsz newsz xperm s)))"
  by pat_completeness auto
termination
  by (relation "measure (\<lambda>(pt, a, oldsz, newsz, xperm, s). 2 ^ 64 - unat a)")
    (auto simp only: in_measure split_conv wf_measure intro!: next_page_measure dest: mappages_below)

declare uvmalloc_loop.simps [simp del]

definition uvmalloc ::
  "u64 \<Rightarrow> u64 \<Rightarrow> u64 \<Rightarrow> u64 \<Rightarrow> 'a mstate_scheme \<Rightarrow> fault + u64 \<times> 'a mstate_scheme" where
  "uvmalloc pagetable oldsz newsz xperm s =
     (if newsz < oldsz then Inr (oldsz, s)
      else let oldsz = PGROUNDUP oldsz in uvmalloc_loop pagetable oldsz oldsz newsz xperm s)"

text \<open>\<open>freewalk\<close>: the loop over the 512 entries, then the table page itself.\<close>

primrec freewalk_depth :: "nat \<Rightarrow> u64 \<Rightarrow> 'a mstate_scheme \<Rightarrow> fault + 'a mstate_scheme" where
  "freewalk_depth 0 pagetable s = Inl Diverges"
| "freewalk_depth (Suc d) pagetable s =
     bnd (for_each [0..<512] (\<lambda>i s.
            let pte = ld64 (pmem s) (pagetable + 8 * of_nat i)
            in if pte AND PTE_V \<noteq> 0 \<and> pte AND (PTE_R OR PTE_W OR PTE_X) = 0
               then bnd (freewalk_depth d (PTE2PA pte) s) (\<lambda>s.
                    Inr (set_mem (st64 (pmem s) (pagetable + 8 * of_nat i) 0) s))
               else if pte AND PTE_V \<noteq> 0 then Inl (Panic ''freewalk: leaf'')
               else Inr s) s)
     (\<lambda>s. kfree pagetable s)"

definition freewalk :: "u64 \<Rightarrow> 'a mstate_scheme \<Rightarrow> fault + 'a mstate_scheme" where
  "freewalk pagetable s = freewalk_depth 3 pagetable s"

definition uvmfree :: "u64 \<Rightarrow> u64 \<Rightarrow> 'a mstate_scheme \<Rightarrow> fault + 'a mstate_scheme" where
  "uvmfree pagetable sz s =
     bnd (if sz > 0 then uvmunmap pagetable 0 (PGROUNDUP sz div PGSIZE) True s else Inr s)
     (\<lambda>s. freewalk pagetable s)"

function uvmcopy_loop ::
  "u64 \<Rightarrow> u64 \<Rightarrow> u64 \<Rightarrow> u64 \<Rightarrow> 'a mstate_scheme \<Rightarrow> fault + int \<times> 'a mstate_scheme" where
  "uvmcopy_loop old new i sz s =
     (if \<not> i < sz then Inr (0, s)
      else bnd (walk old i False s) (\<lambda>(pte, s).
        if pte = 0 then Inl (Panic ''uvmcopy: pte should exist'')
        else if ld64 (pmem s) pte AND PTE_V = 0 then Inl (Panic ''uvmcopy: page not present'')
        else let pa = PTE2PA (ld64 (pmem s) pte); flags = PTE_FLAGS (ld64 (pmem s) pte)
        in bnd (kalloc s) (\<lambda>(mem, s).
           if mem = 0
           then bnd (uvmunmap new 0 (i div PGSIZE) True s) (\<lambda>s. Inr (- 1, s))
           else let s = set_mem (memmove (pmem s) mem pa 4096) s
           in bnd (mappages new i PGSIZE mem flags s) (\<lambda>(r, s).
              if r \<noteq> 0
              then bnd (kfree mem s) (\<lambda>s.
                   bnd (uvmunmap new 0 (i div PGSIZE) True s) (\<lambda>s. Inr (- 1, s)))
              else uvmcopy_loop old new (i + PGSIZE) sz s))))"
  by pat_completeness auto
termination
  by (relation "measure (\<lambda>(old, new, i, sz, s). 2 ^ 64 - unat i)")
    (auto simp only: in_measure split_conv wf_measure intro!: next_page_measure dest: mappages_below)

declare uvmcopy_loop.simps [simp del]

definition uvmcopy :: "u64 \<Rightarrow> u64 \<Rightarrow> u64 \<Rightarrow> 'a mstate_scheme \<Rightarrow> fault + int \<times> 'a mstate_scheme" where
  "uvmcopy old new sz s = uvmcopy_loop old new 0 sz s"

definition uvmclear :: "u64 \<Rightarrow> u64 \<Rightarrow> 'a mstate_scheme \<Rightarrow> fault + 'a mstate_scheme" where
  "uvmclear pagetable va s =
     bnd (walk pagetable va False s) (\<lambda>(pte, s).
       if pte = 0 then Inl (Panic ''uvmclear'')
       else Inr (set_mem (st64 (pmem s) pte (ld64 (pmem s) pte AND NOT PTE_U)) s))"

section \<open>Copying between kernel and user\<close>

text \<open>The bytes of a kernel object, stored at an address.\<close>

fun store_bytes :: "memory \<Rightarrow> u64 \<Rightarrow> u8 list \<Rightarrow> memory" where
  "store_bytes m a [] = m"
| "store_bytes m a (b # bs) = store_bytes (m(a := b)) (a + 1) bs"

text \<open>How many of \<open>len\<close> bytes from \<open>va\<close> are on the page of \<open>va\<close>.\<close>

definition chunk :: "u64 \<Rightarrow> nat \<Rightarrow> nat" where
  "chunk va len = (let n = unat (PGSIZE - (va - PGROUNDDOWN va)) in if n > len then len else n)"

lemma page_offset: "unat (va - PGROUNDDOWN va) = unat va mod 4096"
  by (simp add: unat_sub64 unat_PGROUNDDOWN minus_div_mult_eq_mod)

lemma chunk_eq: "chunk va len = min len (4096 - unat va mod 4096)"
proof -
  have "unat va mod 4096 < 4096" by simp
  then have "unat (PGSIZE - (va - PGROUNDDOWN va)) = 4096 - unat va mod 4096"
    unfolding unat_sub64 [of PGSIZE] page_offset by simp
  then show ?thesis by (simp add: chunk_def Let_def min_def)
qed

lemma chunk_pos: "0 < len \<Longrightarrow> 0 < chunk va len"
  by (simp add: chunk_eq)

lemma chunk_le: "chunk va len \<le> len"
  by (simp add: chunk_eq)

function copyout :: "u64 \<Rightarrow> u64 \<Rightarrow> u8 list \<Rightarrow> 'a mstate_scheme \<Rightarrow> fault + int \<times> 'a mstate_scheme" where
  "copyout pagetable dstva src s =
     (if src = [] then Inr (0, s)
      else let va0 = PGROUNDDOWN dstva
      in bnd (walkaddr pagetable va0 s) (\<lambda>pa0.
         if pa0 = 0 then Inr (- 1, s)
         else let n = chunk dstva (length src);
                  s = set_mem (store_bytes (pmem s) (pa0 + (dstva - va0)) (take n src)) s
              in copyout pagetable (va0 + PGSIZE) (drop n src) s))"
  by pat_completeness auto
termination
  by (relation "measure (\<lambda>(pt, va, src, s). length src)") (auto simp: chunk_pos)

declare copyout.simps [simp del]

text \<open>\<open>copyin\<close> returns the bytes it stored at \<open>dst\<close> too: on an error, those copied before it.\<close>

function copyin :: "u64 \<Rightarrow> u64 \<Rightarrow> nat \<Rightarrow> 'a mstate_scheme \<Rightarrow> fault + int \<times> u8 list" where
  "copyin pagetable srcva len s =
     (if len = 0 then Inr (0, [])
      else let va0 = PGROUNDDOWN srcva
      in bnd (walkaddr pagetable va0 s) (\<lambda>pa0.
         if pa0 = 0 then Inr (- 1, [])
         else let n = chunk srcva len
              in bnd (copyin pagetable (va0 + PGSIZE) (len - n) s) (\<lambda>(r, bs).
                 Inr (r, bytes (pmem s) (pa0 + (srcva - va0)) n @ bs))))"
  by pat_completeness auto
termination
  by (relation "measure (\<lambda>(pt, va, len, s). len)") (auto simp: chunk_pos)

declare copyin.simps [simp del]

text \<open>\<open>copyinstr\<close>: the inner loop over one page says whether it met the NUL and what it stored.\<close>

fun copyinstr_page :: "memory \<Rightarrow> u64 \<Rightarrow> nat \<Rightarrow> bool \<times> u8 list" where
  "copyinstr_page m p 0 = (False, [])"
| "copyinstr_page m p (Suc n) =
     (if m p = 0 then (True, [0])
      else case copyinstr_page m (p + 1) n of (got_null, bs) \<Rightarrow> (got_null, m p # bs))"

function copyinstr :: "u64 \<Rightarrow> u64 \<Rightarrow> nat \<Rightarrow> 'a mstate_scheme \<Rightarrow> fault + int \<times> u8 list" where
  "copyinstr pagetable srcva mx s =
     (if mx = 0 then Inr (- 1, [])
      else let va0 = PGROUNDDOWN srcva
      in bnd (walkaddr pagetable va0 s) (\<lambda>pa0.
         if pa0 = 0 then Inr (- 1, [])
         else let n = chunk srcva mx
              in case copyinstr_page (pmem s) (pa0 + (srcva - va0)) n of (got_null, bs) \<Rightarrow>
                 if got_null then Inr (0, bs)
                 else bnd (copyinstr pagetable (va0 + PGSIZE) (mx - n) s) (\<lambda>(r, bs').
                      Inr (r, bs @ bs'))))"
  by pat_completeness auto
termination
  by (relation "measure (\<lambda>(pt, va, mx, s). mx)") (auto simp: chunk_pos)

declare copyinstr.simps [simp del]

section \<open>The kernel page table\<close>

definition proc_mapstacks :: "u64 \<Rightarrow> 'a mstate_scheme \<Rightarrow> fault + 'a mstate_scheme" where
  "proc_mapstacks kpgtbl s =
     for_each [0..<NPROC] (\<lambda>p s.
       bnd (kalloc s) (\<lambda>(pa, s).
         if pa = 0 then Inl (Panic ''kalloc'')
         else kvmmap kpgtbl (KSTACK p) pa PGSIZE (PTE_R OR PTE_W) s)) s"

definition kvmmake :: "'a vstate_scheme \<Rightarrow> fault + u64 \<times> 'a vstate_scheme" where
  "kvmmake s =
     bnd (kalloc s) (\<lambda>(kpgtbl, s).
     let s = set_mem (memset (pmem s) kpgtbl 0 4096) s in
     bnd (kvmmap kpgtbl UART0 UART0 PGSIZE (PTE_R OR PTE_W) s) (\<lambda>s.
     bnd (kvmmap kpgtbl VIRTIO0 VIRTIO0 PGSIZE (PTE_R OR PTE_W) s) (\<lambda>s.
     bnd (kvmmap kpgtbl PLIC PLIC 0x400000 (PTE_R OR PTE_W) s) (\<lambda>s.
     bnd (kvmmap kpgtbl KERNBASE KERNBASE (etext s - KERNBASE) (PTE_R OR PTE_X) s) (\<lambda>s.
     bnd (kvmmap kpgtbl (etext s) (etext s) (PHYSTOP - etext s) (PTE_R OR PTE_W) s) (\<lambda>s.
     bnd (kvmmap kpgtbl TRAMPOLINE (trampoline s) PGSIZE (PTE_R OR PTE_X) s) (\<lambda>s.
     bnd (proc_mapstacks kpgtbl s) (\<lambda>s. Inr (kpgtbl, s)))))))))"

definition kvminit :: "'a vstate_scheme \<Rightarrow> fault + 'a vstate_scheme" where
  "kvminit s = bnd (kvmmake s) (\<lambda>(kpgtbl, s). Inr (s\<lparr>kernel_pagetable := kpgtbl\<rparr>))"

end
