(* ===== verification/Pagetable.thy ===== *)
theory Pagetable
  imports Vm
begin

text \<open>
  What the page-table code of kernel/vm.c does to a table.

  A table is a tree of pages in memory. \<open>tpages\<close> are its pages, \<open>wf_tbl\<close> says that it is a tree,
  and \<open>leaf\<close> abstracts it to the function it represents: the level-0 entry of a virtual address
  (0 where an interior table is missing). The lemmas are a refinement: \<open>walk\<close> with allocation
  leaves \<open>leaf\<close> as it is and returns the address of the entry, \<open>mappages\<close> and \<open>uvmunmap\<close> update
  \<open>leaf\<close> on exactly the pages of their range, and \<open>walkaddr\<close> reads it. \<open>tbl_inv\<close> is the invariant:
  the tree is well formed and none of its pages is on the free list. Every operation changes
  memory only in table pages, pages taken from the allocator, and pages it frees.
\<close>

unbundle bit_operations_syntax

section \<open>Entries\<close>

abbreviation pte_valid :: "u64 \<Rightarrow> bool" where
  "pte_valid e \<equiv> e AND PTE_V \<noteq> 0"

definition ent :: "memory \<Rightarrow> u64 \<Rightarrow> u64 \<Rightarrow> u64" where
  "ent m pt i = ld64 m (pt + 8 * i)"

lemma and_1FF: "(a :: u64) AND 0x1FF = take_bit 9 a"
  by (simp add: take_bit_eq_mask mask_eq_exp_minus_1)

lemma PX_less: "PX l va < 512"
proof -
  have "unat (drop_bit (PXSHIFT l) va mod 512) = unat (drop_bit (PXSHIFT l) va) mod 512"
    by (simp add: unat_mod)
  then show ?thesis
    unfolding PX_def and_1FF by (simp add: word_less_nat_alt take_bit_eq_mod)
qed

lemma unat_index: "i < (512 :: u64) \<Longrightarrow> unat i < 512 \<and> unat (8 * i) = 8 * unat i"
proof -
  assume "i < 512"
  then have "unat i < 512" by (simp add: word_less_nat_alt)
  then show ?thesis by (simp add: unat_word_ariths)
qed

lemma ent_offset:
  assumes "i < 512" and "in_rng (pt + 8 * i) 8 x"
  shows "unat (x - pt) = unat (x - (pt + 8 * i)) + 8 * unat i"
proof -
  have "x - pt = (x - (pt + 8 * i)) + 8 * i" by simp
  then have "unat (x - pt) = (unat (x - (pt + 8 * i)) + unat (8 * i)) mod 2 ^ LENGTH(64)"
    by (metis unat_word_ariths(1))
  then show ?thesis using assms(2) unat_index [OF assms(1)] by (simp add: in_rng_def)
qed

lemma ent_rng_page: "i < 512 \<Longrightarrow> in_rng (pt + 8 * i) 8 x \<Longrightarrow> in_page pt x"
  using ent_offset [of i pt x] unat_index [of i] by (simp add: in_rng_def)

lemma ent_disj:
  assumes "i < 512" and "j < 512" and "i \<noteq> j"
  shows "disj_rng (pt + 8 * i) 8 (pt + 8 * j) 8"
proof -
  have "False" if x: "in_rng (pt + 8 * i) 8 x" "in_rng (pt + 8 * j) 8 x" for x
  proof -
    have "unat (x - (pt + 8 * i)) < 8" "unat (x - (pt + 8 * j)) < 8"
      using x by (simp_all add: in_rng_def)
    with ent_offset [OF assms(1) x(1)] ent_offset [OF assms(2) x(2)] have "unat i = unat j" by linarith
    with assms(3) show False by (simp add: word_unat_eq_iff)
  qed
  then show ?thesis by (auto simp: disj_rng_def)
qed

lemma small_bits: "f < 1024 \<Longrightarrow> 10 \<le> k \<Longrightarrow> \<not> bit (f :: u64) k"
proof
  assume f: "f < 1024" and k: "10 \<le> k" and b: "bit f k"
  have "f = take_bit 10 f" using f
    by (simp add: take_bit_eq_mod word_unat_eq_iff unat_mod word_less_nat_alt)
  with k b show False by (metis bit_take_bit_iff not_le)
qed

lemma aligned_bits: "page_aligned p \<Longrightarrow> n < 12 \<Longrightarrow> \<not> bit p n"
  using PGROUNDDOWN_aligned [of p] by (metis PGROUNDDOWN_eq bit_push_bit_iff not_le)

lemma high_bits: "unat (p :: u64) < 2 ^ k \<Longrightarrow> k \<le> n \<Longrightarrow> \<not> bit p n"
proof
  assume p: "unat p < 2 ^ k" and n: "k \<le> n" and b: "bit p n"
  then have "bit (unat p) n" by (simp add: bit_unsigned_iff)
  moreover have "take_bit k (unat p) = unat p" using p by (simp add: take_bit_nat_eq_self_iff)
  ultimately show False using n by (metis bit_take_bit_iff not_le)
qed

lemma PTE2PA_PA2PTE:
  assumes "page_aligned p" and "unat p < 2 ^ 56" and "f < 1024"
  shows "PTE2PA (PA2PTE p OR f) = p"
proof (rule bit_word_eqI)
  fix n assume n: "n < LENGTH(64)"
  have "\<not> bit f (10 + (n - 12))" by (rule small_bits [OF assms(3)]) simp
  moreover have "n < 12 \<Longrightarrow> \<not> bit p n" by (rule aligned_bits [OF assms(1)])
  moreover have "56 \<le> n \<Longrightarrow> \<not> bit p n" by (rule high_bits [OF assms(2)])
  moreover have "12 \<le> n \<Longrightarrow> 12 + (n - 12) = n" by simp
  ultimately show "bit (PTE2PA (PA2PTE p OR f)) n = bit p n"
    using n by (cases "12 \<le> n")
      (auto simp: PTE2PA_def PA2PTE_def bit_push_bit_iff bit_drop_bit_eq bit_or_iff)
qed

lemma PTE_FLAGS_or:
  assumes "f < 1024"
  shows "PTE_FLAGS (PA2PTE p OR f) = f"
proof -
  have m: "(0x3FF :: u64) = mask 10" by (simp add: mask_eq_exp_minus_1)
  show ?thesis
  proof (rule bit_word_eqI)
    fix n assume n: "n < LENGTH(64)"
    have "10 \<le> n \<Longrightarrow> \<not> bit f n" by (rule small_bits [OF assms])
    then show "bit (PTE_FLAGS (PA2PTE p OR f)) n = bit f n"
      unfolding PTE_FLAGS_def m using n
      by (cases "10 \<le> n")
        (auto simp only: PA2PTE_def bit_and_iff bit_or_iff bit_push_bit_iff bit_mask_iff not_le possible_bit_word)
  qed
qed

section \<open>Tables\<close>

text \<open>
  The pages a table of level \<open>l\<close> consists of, when it is well formed (a tree: no page occurs
  twice, interior entries have no permission bits), the address of the level-0 entry of a
  virtual address, and the value \<open>leaf\<close> of that entry, 0 where an interior entry is missing.
\<close>

fun tpages :: "memory \<Rightarrow> nat \<Rightarrow> u64 \<Rightarrow> u64 set" where
  "tpages m 0 pt = {pt}"
| "tpages m (Suc l) pt =
     insert pt (\<Union>i \<in> {i. i < 512 \<and> pte_valid (ent m pt i)}. tpages m l (PTE2PA (ent m pt i)))"

fun wf_tbl :: "memory \<Rightarrow> nat \<Rightarrow> u64 \<Rightarrow> bool" where
  "wf_tbl m 0 pt \<longleftrightarrow> page_aligned pt \<and> pt \<noteq> 0"
| "wf_tbl m (Suc l) pt \<longleftrightarrow> page_aligned pt \<and> pt \<noteq> 0
     \<and> (\<forall>i < 512. pte_valid (ent m pt i) \<longrightarrow> PTE_FLAGS (ent m pt i) = PTE_V
          \<and> wf_tbl m l (PTE2PA (ent m pt i)) \<and> pt \<notin> tpages m l (PTE2PA (ent m pt i)))
     \<and> (\<forall>i < 512. \<forall>j < 512. i \<noteq> j \<longrightarrow> pte_valid (ent m pt i) \<longrightarrow> pte_valid (ent m pt j) \<longrightarrow>
          tpages m l (PTE2PA (ent m pt i)) \<inter> tpages m l (PTE2PA (ent m pt j)) = {})"

fun pte_at :: "memory \<Rightarrow> nat \<Rightarrow> u64 \<Rightarrow> u64 \<Rightarrow> u64 option" where
  "pte_at m 0 pt va = Some (pt + 8 * PX 0 va)"
| "pte_at m (Suc l) pt va =
     (let e = ent m pt (PX (Suc l) va)
      in if pte_valid e then pte_at m l (PTE2PA e) va else None)"

definition leaf :: "memory \<Rightarrow> nat \<Rightarrow> u64 \<Rightarrow> u64 \<Rightarrow> u64" where
  "leaf m l pt va = (case pte_at m l pt va of None \<Rightarrow> 0 | Some a \<Rightarrow> ld64 m a)"

text \<open>Two memories with the same bytes on a set of pages.\<close>

definition agree :: "u64 set \<Rightarrow> memory \<Rightarrow> memory \<Rightarrow> bool" where
  "agree P m m' \<longleftrightarrow> (\<forall>p \<in> P. \<forall>a. in_page p a \<longrightarrow> m' a = m a)"

lemma agree_mono: "agree P m m' \<Longrightarrow> Q \<subseteq> P \<Longrightarrow> agree Q m m'"
  by (auto simp: agree_def)

lemma agree_ent: "agree P m m' \<Longrightarrow> pt \<in> P \<Longrightarrow> i < 512 \<Longrightarrow> ent m' pt i = ent m pt i"
  unfolding ent_def by (rule ld64_cong) (auto simp: agree_def dest: ent_rng_page)

lemma tpages_self: "pt \<in> tpages m l pt"
  by (cases l) auto

lemma tpages_child:
  "i < 512 \<Longrightarrow> pte_valid (ent m pt i) \<Longrightarrow> tpages m l (PTE2PA (ent m pt i)) \<subseteq> tpages m (Suc l) pt"
  by auto

lemma tpages_cong: "agree (tpages m l pt) m m' \<Longrightarrow> tpages m' l pt = tpages m l pt"
proof (induction l arbitrary: pt)
  case (Suc l)
  have e: "ent m' pt i = ent m pt i" if "i < 512" for i
    using that agree_ent [OF Suc.prems tpages_self] by blast
  have "tpages m' l (PTE2PA (ent m pt i)) = tpages m l (PTE2PA (ent m pt i))"
    if "i < 512" "pte_valid (ent m pt i)" for i
    by (rule Suc.IH [OF agree_mono [OF Suc.prems tpages_child [OF that]]])
  with e show ?case by (auto simp: cong: conj_cong)
qed simp

lemma wf_tbl_cong: "agree (tpages m l pt) m m' \<Longrightarrow> wf_tbl m' l pt = wf_tbl m l pt"
proof (induction l arbitrary: pt)
  case (Suc l)
  have e: "ent m' pt i = ent m pt i" if "i < 512" for i
    using that agree_ent [OF Suc.prems tpages_self] by blast
  have "tpages m' l (PTE2PA (ent m pt i)) = tpages m l (PTE2PA (ent m pt i))"
      "wf_tbl m' l (PTE2PA (ent m pt i)) = wf_tbl m l (PTE2PA (ent m pt i))"
    if "i < 512" "pte_valid (ent m pt i)" for i
    using Suc.IH tpages_cong agree_mono [OF Suc.prems tpages_child [OF that]] by auto
  with e show ?case by (simp cong: conj_cong imp_cong)
qed simp

lemma pte_at_page: "pte_at m l pt va = Some a \<Longrightarrow>
    \<exists>p \<in> tpages m l pt. \<exists>i < 512. a = p + 8 * i"
proof (induction l arbitrary: pt)
  case (Suc l)
  let ?e = "ent m pt (PX (Suc l) va)"
  from Suc.prems have v: "pte_valid ?e" and "pte_at m l (PTE2PA ?e) va = Some a"
    by (auto simp: Let_def split: if_splits)
  from Suc.IH [OF this(2)] show ?case using tpages_child [OF PX_less v] by blast
qed (use PX_less in auto)

lemma pte_at_cong: "agree (tpages m l pt) m m' \<Longrightarrow> pte_at m' l pt va = pte_at m l pt va"
proof (induction l arbitrary: pt)
  case (Suc l)
  let ?e = "ent m pt (PX (Suc l) va)"
  have e: "ent m' pt (PX (Suc l) va) = ?e"
    by (rule agree_ent [OF Suc.prems tpages_self PX_less])
  have "pte_at m' l (PTE2PA ?e) va = pte_at m l (PTE2PA ?e) va" if "pte_valid ?e"
    by (rule Suc.IH [OF agree_mono [OF Suc.prems tpages_child [OF PX_less that]]])
  with e show ?case by (simp add: Let_def)
qed simp

lemma leaf_cong: "agree (tpages m l pt) m m' \<Longrightarrow> leaf m' l pt va = leaf m l pt va"
proof (cases "pte_at m l pt va")
  case (Some a)
  assume g: "agree (tpages m l pt) m m'"
  obtain p i where "p \<in> tpages m l pt" "i < 512" "a = p + 8 * i"
    using pte_at_page [OF Some] by blast
  then have "ld64 m' a = ld64 m a" using agree_ent [OF g] by (auto simp: ent_def)
  with Some show ?thesis by (simp add: leaf_def pte_at_cong [OF g])
qed (simp add: leaf_def pte_at_cong)

lemmas tbl_congs = tpages_cong wf_tbl_cong pte_at_cong leaf_cong

lemma wf_tblD: "wf_tbl m l pt \<Longrightarrow> page_aligned pt \<and> pt \<noteq> 0"
  by (cases l) auto

lemma wf_pages: "wf_tbl m l pt \<Longrightarrow> p \<in> tpages m l pt \<Longrightarrow> page_aligned p \<and> p \<noteq> 0"
proof (induction l arbitrary: pt)
  case (Suc l)
  then show ?case by (cases "p = pt") auto
qed simp

lemma wf_child:
  assumes "wf_tbl m (Suc l) pt" and "i < 512" and "pte_valid (ent m pt i)"
  shows "PTE_FLAGS (ent m pt i) = PTE_V" "wf_tbl m l (PTE2PA (ent m pt i))"
    "pt \<notin> tpages m l (PTE2PA (ent m pt i))"
  using assms by auto

lemma wf_disjoint:
  assumes "wf_tbl m (Suc l) pt" and "i < 512" "j < 512" "i \<noteq> j" "pte_valid (ent m pt i)" "pte_valid (ent m pt j)"
  shows "tpages m l (PTE2PA (ent m pt i)) \<inter> tpages m l (PTE2PA (ent m pt j)) = {}"
  using assms by simp

text \<open>Writing inside one page does not change the others.\<close>

lemma agree_write:
  assumes "page_aligned q" and "\<And>a. \<not> in_page q a \<Longrightarrow> m' a = m a" and "q \<notin> P"
    and "\<And>p. p \<in> P \<Longrightarrow> page_aligned p"
  shows "agree P m m'"
  using assms in_page_unique unfolding agree_def by metis

lemma st64_ent_page: "i < 512 \<Longrightarrow> \<not> in_page p a \<Longrightarrow> st64 m (p + 8 * i) w a = m a"
  by (rule st64_outside) (use ent_rng_page in blast)

lemma ent_st64: "i < 512 \<Longrightarrow> j < 512 \<Longrightarrow> ent (st64 m (pt + 8 * i) w) pt j = (if j = i then w else ent m pt j)"
  by (auto simp: ent_def intro!: ld64_st64_other ent_disj)

text \<open>Memories that differ only on a set of pages.\<close>

definition only_in :: "u64 set \<Rightarrow> memory \<Rightarrow> memory \<Rightarrow> bool" where
  "only_in P m m' \<longleftrightarrow> (\<forall>a. (\<forall>p \<in> P. \<not> in_page p a) \<longrightarrow> m' a = m a)"

lemma only_in_agree:
  assumes "only_in P m m'" and "P \<inter> Q = {}" and "\<And>p. p \<in> P \<union> Q \<Longrightarrow> page_aligned p"
  shows "agree Q m m'"
  using assms in_page_unique unfolding agree_def only_in_def by (metis IntI Un_iff empty_iff)

lemma only_in_mono: "only_in P m m' \<Longrightarrow> P \<subseteq> Q \<Longrightarrow> only_in Q m m'"
  by (auto simp: only_in_def)

lemma only_in_trans: "only_in P m m' \<Longrightarrow> only_in P m' m'' \<Longrightarrow> only_in P m m''"
  by (auto simp: only_in_def)

lemma only_in_refl [simp]: "only_in P m m"
  by (simp add: only_in_def)

text \<open>A change of one subtree, which may take pages of \<open>A\<close>, seen from the table above it.\<close>

lemma subtree_change:
  assumes wf: "wf_tbl m (Suc l) pt" and i: "i < 512" "pte_valid (ent m pt i)"
    and c: "c = PTE2PA (ent m pt i)"
    and A: "A \<inter> tpages m (Suc l) pt = {}" "\<And>p. p \<in> A \<Longrightarrow> page_aligned p"
    and m': "only_in (tpages m l c \<union> A) m m'" "wf_tbl m' l c" "tpages m' l c \<subseteq> tpages m l c \<union> A"
  shows "wf_tbl m' (Suc l) pt"
    and "tpages m' (Suc l) pt = (tpages m (Suc l) pt - tpages m l c) \<union> tpages m' l c"
    and "leaf m' (Suc l) pt va = (if PX (Suc l) va = i then leaf m' l c va else leaf m (Suc l) pt va)"
    and "pte_at m' (Suc l) pt va = (if PX (Suc l) va = i then pte_at m' l c va else pte_at m (Suc l) pt va)"
proof -
  have al: "page_aligned p" if "p \<in> tpages m (Suc l) pt \<union> A" for p
    using that A(2) wf_pages [OF wf] by blast
  have sub: "tpages m l c \<subseteq> tpages m (Suc l) pt" using tpages_child [OF i] c by simp
  have pc: "pt \<notin> tpages m l c" using wf_child(3) [OF wf i] c by simp
  have ag: "agree Q m m'" if "Q \<subseteq> tpages m (Suc l) pt" "Q \<inter> tpages m l c = {}" for Q
    by (rule only_in_agree [OF m'(1)]) (use that A(1) sub in blast, use that al sub in blast)
  have e: "ent m' pt j = ent m pt j" if "j < 512" for j
    by (rule agree_ent [OF ag [of "{pt}"]]) (use that pc tpages_self in auto)
  have g: "agree (tpages m l (PTE2PA (ent m pt j))) m m'"
      "tpages m l (PTE2PA (ent m pt j)) \<inter> tpages m l c = {}"
    if j: "j < 512" "pte_valid (ent m pt j)" "j \<noteq> i" for j
  proof -
    show d: "tpages m l (PTE2PA (ent m pt j)) \<inter> tpages m l c = {}"
      unfolding c using wf_disjoint [OF wf j(1) i(1) j(3,2) i(2)] .
    show "agree (tpages m l (PTE2PA (ent m pt j))) m m'"
      by (rule ag [OF tpages_child [OF j(1,2)] d])
  qed
  have tp: "tpages m' l (PTE2PA (ent m pt j)) = (if j = i then tpages m' l c else tpages m l (PTE2PA (ent m pt j)))"
    if "j < 512" "pte_valid (ent m pt j)" for j
    using that g tpages_cong c by auto
  have sm: "tpages m l (PTE2PA (ent m pt j)) \<inter> tpages m' l c = {}"
    if j: "j < 512" "pte_valid (ent m pt j)" "j \<noteq> i" for j
    using m'(3) g(2) [OF j] tpages_child [OF j(1,2), of l] A(1) by fastforce
  have w: "wf_tbl m' l (PTE2PA (ent m pt j))" if "j < 512" "pte_valid (ent m pt j)" for j
    using wf_child(2) [OF wf that] wf_tbl_cong [OF g(1) [OF that]] m'(2) c by (cases "j = i") auto
  have pc': "pt \<notin> tpages m' l c" using m'(3) pc A(1) tpages_self [of pt m "Suc l"] by auto
  show "wf_tbl m' (Suc l) pt"
    unfolding wf_tbl.simps
  proof (intro conjI allI impI)
    show "page_aligned pt" "pt \<noteq> 0" using wf by auto
  next
    fix j assume j: "j < 512" "pte_valid (ent m' pt j)"
    then have j': "pte_valid (ent m pt j)" and ej: "ent m' pt j = ent m pt j" using e by auto
    show "PTE_FLAGS (ent m' pt j) = PTE_V" "wf_tbl m' l (PTE2PA (ent m' pt j))"
        "pt \<notin> tpages m' l (PTE2PA (ent m' pt j))"
      unfolding ej using wf_child [OF wf j(1) j'] w [OF j(1) j'] pc' tp [OF j(1) j'] by auto
  next
    fix j k :: u64
    assume j: "j < 512" and k: "k < 512" and jk: "j \<noteq> k"
      and "pte_valid (ent m' pt j)" "pte_valid (ent m' pt k)"
    then have v: "pte_valid (ent m pt j)" "pte_valid (ent m pt k)"
      and ej: "ent m' pt j = ent m pt j" "ent m' pt k = ent m pt k" using e by auto
    show "tpages m' l (PTE2PA (ent m' pt j)) \<inter> tpages m' l (PTE2PA (ent m' pt k)) = {}"
      unfolding ej tp [OF j v(1)] tp [OF k v(2)]
      using sm [OF j v(1)] sm [OF k v(2)] wf_disjoint [OF wf j k jk v] jk
      by (cases "j = i"; cases "k = i") (auto simp: Int_commute)
  qed
  show "tpages m' (Suc l) pt = (tpages m (Suc l) pt - tpages m l c) \<union> tpages m' l c"
  proof -
    have "tpages m' (Suc l) pt = insert pt (tpages m' l c \<union>
        (\<Union>j \<in> {j. j < 512 \<and> pte_valid (ent m pt j) \<and> j \<noteq> i}. tpages m l (PTE2PA (ent m pt j))))"
      using i by (force simp: e tp cong: conj_cong split: if_splits)
    moreover have "tpages m (Suc l) pt - tpages m l c = insert pt
        (\<Union>j \<in> {j. j < 512 \<and> pte_valid (ent m pt j) \<and> j \<noteq> i}. tpages m l (PTE2PA (ent m pt j)))"
      using i c pc g(2) by auto
    ultimately show ?thesis by auto
  qed
  show "leaf m' (Suc l) pt va = (if PX (Suc l) va = i then leaf m' l c va else leaf m (Suc l) pt va)"
    using e [OF PX_less] i c leaf_cong [OF g(1) [OF PX_less]] by (simp add: leaf_def Let_def)
  show "pte_at m' (Suc l) pt va = (if PX (Suc l) va = i then pte_at m' l c va else pte_at m (Suc l) pt va)"
    using e [OF PX_less] i c pte_at_cong [OF g(1) [OF PX_less]] by (simp add: Let_def)
qed

section \<open>Writing a leaf entry\<close>

definition same_px :: "nat \<Rightarrow> u64 \<Rightarrow> u64 \<Rightarrow> bool" where
  "same_px l va va' \<longleftrightarrow> (\<forall>k \<le> l. PX k va = PX k va')"

lemma same_px_Suc: "same_px (Suc l) va va' \<longleftrightarrow> PX (Suc l) va = PX (Suc l) va' \<and> same_px l va va'"
  by (auto simp: same_px_def le_Suc_eq)

lemma pages_disj_rng:
  assumes "page_aligned p" "page_aligned q" "p \<noteq> q" "i < 512" "j < 512"
  shows "disj_rng (p + 8 * i) 8 (q + 8 * j) 8"
  using assms ent_rng_page in_page_unique unfolding disj_rng_def by blast

lemma pte_at_same: "same_px l va va' \<Longrightarrow> pte_at m l pt va' = pte_at m l pt va"
proof (induction l arbitrary: pt)
  case (Suc l)
  then have "PX (Suc l) va' = PX (Suc l) va" "\<And>pt. pte_at m l pt va' = pte_at m l pt va"
    by (auto simp: same_px_Suc)
  then show ?case by (simp add: Let_def)
qed (simp add: same_px_def)

lemma pte_at_sep:
  "wf_tbl m l pt \<Longrightarrow> pte_at m l pt va = Some a \<Longrightarrow> pte_at m l pt va' = Some a' \<Longrightarrow>
     \<not> same_px l va va' \<Longrightarrow> disj_rng a 8 a' 8"
proof (induction l arbitrary: pt)
  case 0
  then show ?case using ent_disj [OF PX_less PX_less] by (auto simp: same_px_def)
next
  case (Suc l)
  let ?i = "PX (Suc l) va" and ?j = "PX (Suc l) va'"
  from Suc.prems have v: "pte_valid (ent m pt ?i)" "pte_valid (ent m pt ?j)"
    and a: "pte_at m l (PTE2PA (ent m pt ?i)) va = Some a" "pte_at m l (PTE2PA (ent m pt ?j)) va' = Some a'"
    by (auto simp: Let_def split: if_splits)
  show ?case
  proof (cases "?i = ?j")
    case True
    with Suc.prems(4) have "\<not> same_px l va va'" by (simp add: same_px_Suc)
    with Suc.IH [OF wf_child(2) [OF Suc.prems(1) PX_less v(1)] a(1)] a(2) True show ?thesis by simp
  next
    case False
    obtain p i where p: "p \<in> tpages m l (PTE2PA (ent m pt ?i))" "i < 512" "a = p + 8 * i"
      using pte_at_page [OF a(1)] by blast
    obtain q j where q: "q \<in> tpages m l (PTE2PA (ent m pt ?j))" "j < 512" "a' = q + 8 * j"
      using pte_at_page [OF a(2)] by blast
    have "p \<noteq> q" using wf_disjoint [OF Suc.prems(1) PX_less PX_less False v] p(1) q(1) by blast
    moreover have "page_aligned p" "page_aligned q"
      using wf_pages [OF wf_child(2) [OF Suc.prems(1) PX_less]] v p(1) q(1) by blast+
    ultimately show ?thesis using pages_disj_rng p q by blast
  qed
qed

lemma st64_only_in: "p \<in> P \<Longrightarrow> i < 512 \<Longrightarrow> only_in P m (st64 m (p + 8 * i) w)"
  unfolding only_in_def using st64_ent_page by blast

lemma leaf_write_shape:
  "wf_tbl m l pt \<Longrightarrow> pte_at m l pt va = Some a \<Longrightarrow>
     wf_tbl (st64 m a w) l pt \<and> tpages (st64 m a w) l pt = tpages m l pt
     \<and> pte_at (st64 m a w) l pt va' = pte_at m l pt va'"
proof (induction l arbitrary: pt)
  case (Suc l)
  let ?i = "PX (Suc l) va" and ?m = "st64 m a w"
  define c where "c = PTE2PA (ent m pt ?i)"
  from Suc.prems(2) have v: "pte_valid (ent m pt ?i)" and a: "pte_at m l c va = Some a"
    by (auto simp: Let_def c_def split: if_splits)
  note ih = Suc.IH [OF wf_child(2) [OF Suc.prems(1) PX_less v, folded c_def] a]
  obtain p i where p: "p \<in> tpages m l c" "i < 512" "a = p + 8 * i"
    using pte_at_page [OF a] by blast
  have o: "only_in (tpages m l c \<union> {}) m ?m" using st64_only_in [OF p(1,2)] p(3) by simp
  have s: "tpages ?m l c \<subseteq> tpages m l c \<union> {}" using ih by simp
  note ch = subtree_change [OF Suc.prems(1) PX_less v c_def _ _ o conjunct1 [OF ih] s]
  have sub: "tpages m l c \<subseteq> tpages m (Suc l) pt"
    unfolding c_def by (rule tpages_child [OF PX_less v])
  have "pte_at ?m (Suc l) pt va' = pte_at m (Suc l) pt va'"
    using ch(4) [of va'] ih v by (auto simp: Let_def c_def)
  moreover have "tpages ?m (Suc l) pt = tpages m (Suc l) pt"
    using ch(2) ih sub by auto
  ultimately show ?case using ch(1) by simp
qed simp

lemma leaf_write:
  assumes "wf_tbl m l pt" and "pte_at m l pt va = Some a"
  shows "leaf (st64 m a w) l pt va' = (if same_px l va va' then w else leaf m l pt va')"
proof (cases "pte_at m l pt va'")
  case None
  with assms(2) pte_at_same [of l va va' m pt] show ?thesis
    using leaf_write_shape [OF assms, of w va'] by (auto simp: leaf_def)
next
  case (Some b)
  show ?thesis
  proof (cases "same_px l va va'")
    case True
    with Some assms(2) pte_at_same [OF True, of m pt] show ?thesis
      using leaf_write_shape [OF assms, of w va'] by (simp add: leaf_def)
  next
    case False
    with pte_at_sep [OF assms Some] Some show ?thesis
      using leaf_write_shape [OF assms, of w va'] by (simp add: leaf_def ld64_st64_other)
  qed
qed

section \<open>A new table page\<close>

lemma PTE_V_small [simp]: "PTE_V < 1024" "PTE_V \<noteq> 0" "PTE_V AND PTE_V = PTE_V"
  by (simp_all add: pte_flag_values)

lemma or_valid: "pte_valid (e OR PTE_V)"
proof -
  have "bit ((e OR PTE_V) AND PTE_V) 0"
    by (simp add: bit_and_iff bit_or_iff PTE_V_def)
  then show ?thesis by auto
qed

lemma zero_table:
  assumes "\<And>a. in_page q a \<Longrightarrow> m a = 0"
  shows "ent m q i = 0 \<or> \<not> i < 512" and "page_aligned q \<Longrightarrow> q \<noteq> 0 \<Longrightarrow> wf_tbl m l q"
    and "tpages m l q = {q}" and "leaf m l q va = 0"
proof -
  have z: "ent m q i = 0" if "i < 512" for i
    unfolding ent_def by (rule ld64_zero) (use that assms ent_rng_page in blast)
  then show "ent m q i = 0 \<or> \<not> i < 512" by blast
  show "page_aligned q \<Longrightarrow> q \<noteq> 0 \<Longrightarrow> wf_tbl m l q" by (cases l) (auto simp: z)
  show "tpages m l q = {q}" by (cases l) (auto simp: z)
  show "leaf m l q va = 0"
    using z [OF PX_less, of 0 va] z [OF PX_less] by (cases l) (auto simp: leaf_def ent_def Let_def)
qed

lemma new_table:
  assumes wf: "wf_tbl m (Suc l) pt" and i: "i < 512" "\<not> pte_valid (ent m pt i)"
    and q: "page_aligned q" "q \<noteq> 0" "unat q < 2 ^ 56" "q \<notin> tpages m (Suc l) pt"
    and m0: "\<forall>a. \<not> in_page q a \<longrightarrow> m0 a = m a" "\<forall>a. in_page q a \<longrightarrow> m0 a = 0"
    and m1: "m1 = st64 m0 (pt + 8 * i) (PA2PTE q OR PTE_V)"
  shows "wf_tbl m1 (Suc l) pt" "tpages m1 (Suc l) pt = insert q (tpages m (Suc l) pt)"
    "leaf m1 (Suc l) pt va = leaf m (Suc l) pt va" "ent m1 pt i = PA2PTE q OR PTE_V"
proof -
  have al: "page_aligned p" if "p \<in> tpages m (Suc l) pt" for p using that wf_pages [OF wf] by blast
  have ptq: "pt \<noteq> q" using q(4) tpages_self by blast
  have out: "m1 a = m a" if "\<not> in_page pt a" "\<not> in_page q a" for a
    using that m0(1) st64_ent_page [OF i(1)] m1 by simp
  have q0: "m1 a = 0" if "in_page q a" for a
  proof -
    have "\<not> in_page pt a" using that ptq in_page_unique [OF al [OF tpages_self] q(1)] by blast
    then show ?thesis using that m0(2) st64_ent_page [OF i(1)] m1 by simp
  qed
  have g0: "agree {pt} m m0"
    by (rule agree_write [OF q(1)]) (use m0(1) ptq al tpages_self in auto)
  have e: "ent m1 pt j = (if j = i then PA2PTE q OR PTE_V else ent m pt j)" if "j < 512" for j
    using that i(1) agree_ent [OF g0] by (simp add: m1 ent_st64)
  show "ent m1 pt i = PA2PTE q OR PTE_V" using e i(1) by simp
  have Q: "PTE2PA (PA2PTE q OR PTE_V) = q" "PTE_FLAGS (PA2PTE q OR PTE_V) = PTE_V"
    using PTE2PA_PA2PTE [OF q(1,3)] PTE_FLAGS_or by auto
  have g: "agree (tpages m l (PTE2PA (ent m pt j))) m m1"
    if j: "j < 512" "pte_valid (ent m pt j)" for j
  proof (rule only_in_agree [where P = "{pt, q}"])
    show "only_in {pt, q} m m1" using out by (auto simp: only_in_def)
    show "{pt, q} \<inter> tpages m l (PTE2PA (ent m pt j)) = {}"
      using wf_child(3) [OF wf j] tpages_child [OF j, of l] q(4) by blast
    show "page_aligned p" if "p \<in> {pt, q} \<union> tpages m l (PTE2PA (ent m pt j))" for p
      using that q(1) al tpages_self tpages_child [OF j, of l] by blast
  qed
  have new: "tpages m1 l q = {q}" "wf_tbl m1 l q" "leaf m1 l q va = 0"
    using zero_table [of q m1] q0 q(1,2) by auto
  have tp: "tpages m1 l (PTE2PA (ent m1 pt j)) = (if j = i then {q} else tpages m l (PTE2PA (ent m pt j)))"
    if "j < 512" "pte_valid (ent m1 pt j)" for j
    using that e Q new tpages_cong [OF g] by auto
  have old: "pte_valid (ent m pt j)" if "j < 512" "pte_valid (ent m1 pt j)" "j \<noteq> i" for j
    using that e by auto
  have nq: "q \<notin> tpages m l (PTE2PA (ent m pt j))" if "j < 512" "pte_valid (ent m pt j)" for j
    using q(4) tpages_child [OF that, of l] by blast
  show "wf_tbl m1 (Suc l) pt"
    unfolding wf_tbl.simps
  proof (intro conjI [where P = "page_aligned pt"] conjI [where P = "pt \<noteq> 0"] conjI [where Q = "\<forall>i < 512. \<forall>j < 512. _ i j"] allI impI)
    show "page_aligned pt" "pt \<noteq> 0" using wf_tblD [OF wf] by auto
  next
    fix j assume j: "j < 512" "pte_valid (ent m1 pt j)"
    show "PTE_FLAGS (ent m1 pt j) = PTE_V \<and> wf_tbl m1 l (PTE2PA (ent m1 pt j))
        \<and> pt \<notin> tpages m1 l (PTE2PA (ent m1 pt j))"
    proof (cases "j = i")
      case True
      with e [OF j(1)] Q new ptq show ?thesis by simp
    next
      case False
      note o = old [OF j False]
      have "ent m1 pt j = ent m pt j" using e [OF j(1)] False by simp
      then show ?thesis
        using wf_child [OF wf j(1) o] tbl_congs(1,2) [OF g [OF j(1) o]] by simp
    qed
  next
    fix j k :: u64
    assume jk: "j < 512" "k < 512" "j \<noteq> k" "pte_valid (ent m1 pt j)" "pte_valid (ent m1 pt k)"
    then show "tpages m1 l (PTE2PA (ent m1 pt j)) \<inter> tpages m1 l (PTE2PA (ent m1 pt k)) = {}"
      unfolding tp [OF jk(1,4)] tp [OF jk(2,5)]
      using nq old wf_disjoint [OF wf jk(1-3)] by auto
  qed
  have "tpages m1 (Suc l) pt = insert pt (insert q
      (\<Union>j \<in> {j. j < 512 \<and> pte_valid (ent m pt j)}. tpages m l (PTE2PA (ent m pt j))))"
  proof -
    have "{j. j < 512 \<and> pte_valid (ent m1 pt j)} = insert i {j. j < 512 \<and> pte_valid (ent m pt j)}"
      using i(1) by (auto simp: e or_valid split: if_splits)
    moreover have "(\<Union>j \<in> {j. j < 512 \<and> pte_valid (ent m pt j)}. tpages m1 l (PTE2PA (ent m1 pt j)))
        = (\<Union>j \<in> {j. j < 512 \<and> pte_valid (ent m pt j)}. tpages m l (PTE2PA (ent m pt j)))"
    proof (rule SUP_cong [OF refl])
      fix j assume j: "j \<in> {j. j < 512 \<and> pte_valid (ent m pt j)}"
      with i(2) have "j \<noteq> i" by auto
      with j e [of j] tpages_cong [OF g [of j]] show "tpages m1 l (PTE2PA (ent m1 pt j)) = tpages m l (PTE2PA (ent m pt j))"
        by simp
    qed
    ultimately show ?thesis using e [OF i(1)] Q new by simp
  qed
  then show "tpages m1 (Suc l) pt = insert q (tpages m (Suc l) pt)" by auto
  show "leaf m1 (Suc l) pt va = leaf m (Suc l) pt va"
  proof (cases "PX (Suc l) va = i")
    case True
    with i e [OF i(1)] new(3) Q or_valid show ?thesis by (simp add: leaf_def Let_def)
  next
    case False
    with e [OF PX_less] leaf_cong [OF g [OF PX_less]] show ?thesis by (simp add: leaf_def Let_def)
  qed
qed

section \<open>\<open>walk\<close>\<close>

definition tbl_inv :: "'a mstate_scheme \<Rightarrow> nat \<Rightarrow> u64 \<Rightarrow> bool" where
  "tbl_inv s l pt \<longleftrightarrow> kmem_ok s \<and> wf_tbl (pmem s) l pt \<and> tpages (pmem s) l pt \<inter> kmem_avail s = {}"

text \<open>
  What a walk that may allocate leaves behind: the same mapping in a table that may have taken
  up to \<open>n\<close> pages from the allocator, and the address of the entry (0 only if the pages ran out).
\<close>

definition walk_post ::
  "nat \<Rightarrow> 'a mstate_scheme \<Rightarrow> nat \<Rightarrow> u64 \<Rightarrow> u64 \<Rightarrow> u64 \<Rightarrow> 'a mstate_scheme \<Rightarrow> bool" where
  "walk_post n s l pt va pte s' \<longleftrightarrow> tbl_inv s' l pt \<and> only_mem s s'
     \<and> tpages (pmem s') l pt \<union> kmem_avail s' = tpages (pmem s) l pt \<union> kmem_avail s
     \<and> tpages (pmem s) l pt \<subseteq> tpages (pmem s') l pt
     \<and> (\<forall>va'. leaf (pmem s') l pt va' = leaf (pmem s) l pt va')
     \<and> only_in (tpages (pmem s) l pt \<union> kmem_avail s) (pmem s) (pmem s')
     \<and> (if pte = 0 then card (kmem_avail s) < n
        else pte_at (pmem s') l pt va = Some pte \<and> card (kmem_avail s) \<le> card (kmem_avail s') + n)"

lemma kmem_avail_pages: "kmem_ok s \<Longrightarrow> p \<in> kmem_avail s \<Longrightarrow> page_aligned p \<and> p \<noteq> 0 \<and> valid_page s p"
  using kmem.avail_ok by blast

lemma valid_page_small: "valid_page s p \<Longrightarrow> unat p < 2 ^ 56"
  by (simp add: valid_page_def word_less_nat_alt unat_phystop)

lemma ent_nonzero: "page_aligned p \<Longrightarrow> p \<noteq> 0 \<Longrightarrow> i < 512 \<Longrightarrow> p + 8 * i \<noteq> 0"
proof
  assume p: "page_aligned p" "p \<noteq> 0" "i < 512" and z: "p + 8 * i = 0"
  have "in_page p (p + 8 * i)" by (rule ent_rng_page [OF p(3)]) (simp add: in_rng_def)
  then have "in_page p 0" using z by simp
  then show False using p(1,2) by (simp add: in_page_iff PGROUNDDOWN_def)
qed

lemma pte_at_nonzero: "wf_tbl m l pt \<Longrightarrow> pte_at m l pt va = Some a \<Longrightarrow> a \<noteq> 0"
  using pte_at_page wf_pages ent_nonzero by metis

lemma walk_post_lift:
  assumes inv: "tbl_inv s (Suc l) pt" and v: "pte_valid (ent (pmem s) pt (PX (Suc l) va))"
    and c: "c = PTE2PA (ent (pmem s) pt (PX (Suc l) va))" and w: "walk_post n s l c va pte s'"
  shows "walk_post n s (Suc l) pt va pte s'"
proof -
  let ?m = "pmem s" and ?m' = "pmem s'" and ?A = "kmem_avail s"
  have wf: "wf_tbl ?m (Suc l) pt" and ok: "kmem_ok s" and d: "?A \<inter> tpages ?m (Suc l) pt = {}"
    using inv by (auto simp: tbl_inv_def)
  have sub: "tpages ?m l c \<subseteq> tpages ?m (Suc l) pt" using tpages_child [OF PX_less v] c by simp
  have w': "wf_tbl ?m' l c" "only_in (tpages ?m l c \<union> ?A) ?m ?m'" "tpages ?m' l c \<subseteq> tpages ?m l c \<union> ?A"
      "tpages ?m l c \<subseteq> tpages ?m' l c" "tpages ?m' l c \<union> kmem_avail s' = tpages ?m l c \<union> ?A"
      "tpages ?m' l c \<inter> kmem_avail s' = {}" "\<And>va. leaf ?m' l c va = leaf ?m l c va" "kmem_ok s'" "only_mem s s'"
    using w by (auto simp: walk_post_def tbl_inv_def)
  note ch = subtree_change [OF wf PX_less v c d _ w'(2,1,3)]
  have al: "\<And>p. p \<in> ?A \<Longrightarrow> page_aligned p" using kmem_avail_pages [OF ok] by blast
  have tp: "tpages ?m' (Suc l) pt = (tpages ?m (Suc l) pt - tpages ?m l c) \<union> tpages ?m' l c"
    by (rule ch(2) [OF al])
  have inv': "tbl_inv s' (Suc l) pt"
    unfolding tbl_inv_def tp using ch(1) [OF al] w'(5,6,8) d sub by blast
  have lf: "leaf ?m' (Suc l) pt va' = leaf ?m (Suc l) pt va'" for va'
    using ch(3) [OF al, of va'] w'(7) v c by (auto simp: leaf_def Let_def)
  have eq: "tpages ?m' (Suc l) pt \<union> kmem_avail s' = tpages ?m (Suc l) pt \<union> ?A"
    unfolding tp using w'(5) sub by blast
  have le: "tpages ?m (Suc l) pt \<subseteq> tpages ?m' (Suc l) pt" unfolding tp using w'(4) by blast
  have oi: "only_in (tpages ?m (Suc l) pt \<union> ?A) ?m ?m'"
    by (rule only_in_mono [OF w'(2)]) (use sub in blast)
  have pte: "pte_at ?m' l c va = Some pte \<Longrightarrow> pte_at ?m' (Suc l) pt va = Some pte"
    using ch(4) [OF al, of va] by simp
  show ?thesis
    unfolding walk_post_def using inv' w'(9) eq le lf oi pte w by (auto simp: walk_post_def)
qed

lemma walk_post_trans:
  assumes "walk_post n s1 l pt va pte s'" and "tbl_inv s l pt" and "tbl_inv s1 l pt" and "only_mem s s1"
    and "tpages (pmem s1) l pt \<union> kmem_avail s1 = tpages (pmem s) l pt \<union> kmem_avail s"
    and "tpages (pmem s) l pt \<subseteq> tpages (pmem s1) l pt"
    and "\<And>va. leaf (pmem s1) l pt va = leaf (pmem s) l pt va"
    and "only_in (tpages (pmem s) l pt \<union> kmem_avail s) (pmem s) (pmem s1)"
    and "card (kmem_avail s) = Suc (card (kmem_avail s1))"
  shows "walk_post (Suc n) s l pt va pte s'"
  using assms only_mem_trans [of s s1 s'] only_in_trans [of _ "pmem s" "pmem s1" "pmem s'"]
  unfolding walk_post_def by auto

text \<open>The step that adds a table page, as \<open>walk_levels\<close> performs it.\<close>

lemma new_table_step:
  assumes inv: "tbl_inv s (Suc l) pt" and i: "i < 512" "\<not> pte_valid (ent (pmem s) pt i)"
    and k: "q \<in> kmem_avail s" "kmem_ok s1" "kmem_avail s1 = kmem_avail s - {q}" "only_mem s s1"
      "\<forall>a. \<not> in_page q a \<longrightarrow> pmem s1 a = pmem s a"
    and s3: "s3 = set_mem (st64 (memset (pmem s1) q 0 4096) (pt + 8 * i) (PA2PTE q OR PTE_V)) s1"
  shows "tbl_inv s3 (Suc l) pt" "only_mem s s3"
    "tpages (pmem s3) (Suc l) pt \<union> kmem_avail s3 = tpages (pmem s) (Suc l) pt \<union> kmem_avail s"
    "tpages (pmem s) (Suc l) pt \<subseteq> tpages (pmem s3) (Suc l) pt"
    "\<And>va. leaf (pmem s3) (Suc l) pt va = leaf (pmem s) (Suc l) pt va"
    "only_in (tpages (pmem s) (Suc l) pt \<union> kmem_avail s) (pmem s) (pmem s3)"
    "card (kmem_avail s) = Suc (card (kmem_avail s3))"
    "ent (pmem s3) pt i = PA2PTE q OR PTE_V" "PTE2PA (PA2PTE q OR PTE_V) = q"
proof -
  let ?T = "tpages (pmem s) (Suc l) pt" and ?m0 = "memset (pmem s1) q 0 4096"
  have wf: "wf_tbl (pmem s) (Suc l) pt" and ok: "kmem_ok s" and d: "?T \<inter> kmem_avail s = {}"
    using inv by (auto simp: tbl_inv_def)
  have q: "page_aligned q" "q \<noteq> 0" "unat q < 2 ^ 56" "q \<notin> ?T"
    using kmem_avail_pages [OF ok k(1)] valid_page_small k(1) d by auto
  have m0: "\<forall>a. \<not> in_page q a \<longrightarrow> ?m0 a = pmem s a" "\<forall>a. in_page q a \<longrightarrow> ?m0 a = 0"
    using k(5) by (simp_all add: memset_eq)
  have m3: "pmem s3 = st64 ?m0 (pt + 8 * i) (PA2PTE q OR PTE_V)" by (simp add: s3)
  note nt = new_table [OF wf i q m0 m3]
  have pt: "pt \<in> ?T" by (rule tpages_self)
  have out: "pmem s3 a = pmem s1 a" if "\<not> in_page q a" "\<not> in_page pt a" for a
    using that st64_ent_page [OF i(1)] m3 by (simp add: memset_eq)
  have upd: "pmem s3 a = pmem s1 a" if p: "p \<in> kmem_avail s1" "in_page p a" for p a
  proof (rule out)
    have "page_aligned p" "p \<noteq> q" "p \<noteq> pt" "page_aligned pt"
      using p(1) k(3) kmem_avail_pages [OF ok] d pt wf_tblD [OF wf] by auto
    then show "\<not> in_page q a" "\<not> in_page pt a" using p(2) in_page_unique q(1) by blast+
  qed
  have s3': "s3 = set_mem (pmem s3) s1" by (simp add: s3)
  have ok3: "kmem_ok s3" "kmem_avail s3 = kmem_avail s1"
    using kmem_mem_upd [OF k(2), of "pmem s3"] upd s3' by metis+
  show "only_mem s s3" unfolding s3 by (rule only_mem_trans [OF k(4) only_mem_upd])
  show "tbl_inv s3 (Suc l) pt"
    unfolding tbl_inv_def nt(2) ok3(2) k(3) using ok3(1) nt(1) d by blast
  show "tpages (pmem s3) (Suc l) pt \<union> kmem_avail s3 = ?T \<union> kmem_avail s"
    unfolding nt(2) ok3(2) k(3) using k(1) by blast
  show "?T \<subseteq> tpages (pmem s3) (Suc l) pt" unfolding nt(2) by blast
  show "leaf (pmem s3) (Suc l) pt va = leaf (pmem s) (Suc l) pt va" for va by (rule nt(3))
  show "only_in (?T \<union> kmem_avail s) (pmem s) (pmem s3)"
    unfolding only_in_def
  proof (intro allI impI)
    fix a assume a: "\<forall>p \<in> ?T \<union> kmem_avail s. \<not> in_page p a"
    then have "\<not> in_page q a" "\<not> in_page pt a" using k(1) pt by blast+
    then show "pmem s3 a = pmem s a" using out k(5) by simp
  qed
  show "card (kmem_avail s) = Suc (card (kmem_avail s3))"
    unfolding ok3(2) k(3) by (rule card.remove) (use k(1) kmem.avail_ok [OF ok] in auto)
  show "ent (pmem s3) pt i = PA2PTE q OR PTE_V" by (rule nt(4))
  show "PTE2PA (PA2PTE q OR PTE_V) = q" by (rule PTE2PA_PA2PTE [OF q(1,3)]) simp
qed

lemma tbl_inv_child:
  assumes "tbl_inv s (Suc l) pt" and "i < 512" and "pte_valid (ent (pmem s) pt i)"
  shows "tbl_inv s l (PTE2PA (ent (pmem s) pt i))"
proof -
  from assms(1) have "wf_tbl (pmem s) (Suc l) pt" "kmem_ok s" "tpages (pmem s) (Suc l) pt \<inter> kmem_avail s = {}"
    by (auto simp: tbl_inv_def)
  then show ?thesis
    using wf_child(2) [OF _ assms(2,3)] tpages_child [OF assms(2,3), of l] by (auto simp only: tbl_inv_def)
qed

lemma walk_levels_alloc:
  "tbl_inv s l pt \<Longrightarrow> \<exists>pte s'. walk_levels l pt va True s = Inr (pte, s') \<and> walk_post l s l pt va pte s'"
proof (induction l arbitrary: pt s)
  case 0
  then have "pt + 8 * PX 0 va \<noteq> 0"
    using ent_nonzero [OF _ _ PX_less] by (auto simp: tbl_inv_def)
  with 0 show ?case by (auto simp: walk_post_def)
next
  case (Suc l)
  let ?i = "PX (Suc l) va"
  let ?e = "ent (pmem s) pt ?i"
  have W: "walk_levels (Suc l) pt va True s =
      (if pte_valid ?e then walk_levels l (PTE2PA ?e) va True s
       else bnd (kalloc s) (\<lambda>(q, s). if q = 0 then Inr (0, s)
         else walk_levels l q va True (set_mem (st64 (memset (pmem s) q 0 4096) (pt + 8 * ?i) (PA2PTE q OR PTE_V)) s)))"
    by (simp add: ent_def Let_def split_def cong: if_cong)
  show ?case
  proof (cases "pte_valid ?e")
    case True
    obtain pte s' where "walk_levels l (PTE2PA ?e) va True s = Inr (pte, s')"
        "walk_post l s l (PTE2PA ?e) va pte s'"
      using Suc.IH [OF tbl_inv_child [OF Suc.prems PX_less True]] by blast
    moreover from walk_post_lift [OF Suc.prems True refl this(2)]
    have "walk_post (Suc l) s (Suc l) pt va pte s'" by (auto simp: walk_post_def)
    ultimately show ?thesis unfolding W using True by auto
  next
    case False
    from Suc.prems have ok: "kmem_ok s" by (simp add: tbl_inv_def)
    from ok show ?thesis
    proof (cases rule: kmem.alloc_cases)
      case (none s')
      then have "walk_post (Suc l) s (Suc l) pt va 0 s'"
        using Suc.prems by (simp add: walk_post_def tbl_inv_def)
      with none False show ?thesis unfolding W by auto
    next
      case (page q s1)
      define s3 where "s3 = set_mem (st64 (memset (pmem s1) q 0 4096) (pt + 8 * ?i) (PA2PTE q OR PTE_V)) s1"
      note st = new_table_step [OF Suc.prems PX_less False page(2,6,7,9,8) s3_def]
      have v: "pte_valid (ent (pmem s3) pt ?i)" unfolding st(8) by (rule or_valid)
      have c: "q = PTE2PA (ent (pmem s3) pt ?i)" unfolding st(8) st(9) by (rule refl)
      from tbl_inv_child [OF st(1) PX_less v] have "tbl_inv s3 l q" unfolding c [symmetric] .
      then obtain pte s' where w: "walk_levels l q va True s3 = Inr (pte, s')"
          "walk_post l s3 l q va pte s'"
        using Suc.IH by blast
      have "walk_post (Suc l) s (Suc l) pt va pte s'"
        by (rule walk_post_trans [OF walk_post_lift [OF st(1) v c w(2)] Suc.prems st(1-7)])
      moreover have "walk_levels (Suc l) pt va True s = Inr (pte, s')"
        unfolding W using w(1) page(1,3) False by (simp add: s3_def)
      ultimately show ?thesis by blast
    qed
  qed
qed

text \<open>Without allocation a walk only reads.\<close>

lemma walk_levels_read:
  "walk_levels l pt va False s = Inr (case pte_at (pmem s) l pt va of None \<Rightarrow> 0 | Some a \<Rightarrow> a, s)"
  by (induction l arbitrary: pt) (auto simp: Let_def ent_def)

lemma walk_read:
  "walk pt va False s = (if MAXVA \<le> va then Inl (Panic ''walk'')
     else Inr (case pte_at (pmem s) 2 pt va of None \<Rightarrow> 0 | Some a \<Rightarrow> a, s))"
  by (simp add: walk_def walk_levels_read)

lemma walkaddr_eq:
  assumes "wf_tbl (pmem s) 2 pt"
  shows "walkaddr pt va s = Inr (let e = leaf (pmem s) 2 pt va
     in if MAXVA \<le> va \<or> \<not> pte_valid e \<or> e AND PTE_U = 0 then 0 else PTE2PA e)"
  using pte_at_nonzero [OF assms]
  by (auto simp: walkaddr_def walk_read leaf_def Let_def split: option.splits)

section \<open>Virtual pages\<close>

lemma PX_nat: "unat (PX k va) = unat va div 2 ^ (12 + 9 * k) mod 512"
proof -
  have "unat (drop_bit n va) = unat va div 2 ^ n" for n
    by (simp add: unat_drop_bit_eq drop_bit_eq_div [where ?'a = nat])
  then show ?thesis
    by (simp add: PX_def PXSHIFT_def and_1FF take_bit_eq_mod unat_mod del: drop_bit_eq_div)
qed

lemma same_px_2:
  "same_px 2 va va' \<longleftrightarrow> (\<forall>k \<in> {0, 1, 2}. unat (PX k va) = unat (PX k va'))"
  by (auto simp: same_px_def word_unat_eq_iff le_Suc_eq numeral_2_eq_2)

lemma digits3: "(n :: nat) < 2 ^ 27 \<Longrightarrow> n = n mod 512 + 512 * (n div 512 mod 512) + 512 * 512 * (n div 512 div 512 mod 512)"
proof -
  assume "n < 2 ^ 27"
  then have "n div 512 div 512 mod 512 = n div 512 div 512" by simp
  moreover have "n = n mod 512 + 512 * (n div 512)" for n :: nat by simp
  from this [of n] this [of "n div 512"]
  have "n = n mod 512 + 512 * (n div 512 mod 512) + 512 * 512 * (n div 512 div 512)" by linarith
  ultimately show ?thesis by simp
qed

lemma same_px_page:
  assumes "unat va < 2 ^ 39" and "unat va' < 2 ^ 39"
  shows "same_px 2 va va' \<longleftrightarrow> PGROUNDDOWN va = PGROUNDDOWN va'"
proof -
  let ?n = "unat va div 4096" and ?n' = "unat va' div 4096"
  have px: "unat (PX 0 v) = unat v div 4096 mod 512" "unat (PX 1 v) = unat v div 4096 div 512 mod 512"
      "unat (PX 2 v) = unat v div 4096 div 512 div 512 mod 512" for v
    by (simp_all add: PX_nat div_mult2_eq [symmetric])
  have "same_px 2 va va' \<longleftrightarrow> ?n = ?n'"
  proof
    assume "same_px 2 va va'"
    then have e: "?n mod 512 = ?n' mod 512" "?n div 512 mod 512 = ?n' div 512 mod 512"
        "?n div 512 div 512 mod 512 = ?n' div 512 div 512 mod 512"
      unfolding same_px_2 using px by auto
    have "?n < 2 ^ 27" "?n' < 2 ^ 27" using assms by simp_all
    from digits3 [OF this(1)] digits3 [OF this(2)] show "?n = ?n'" unfolding e by simp
  qed (unfold same_px_2, use px in auto)
  also have "\<dots> \<longleftrightarrow> PGROUNDDOWN va = PGROUNDDOWN va'"
    by (simp add: word_unat_eq_iff unat_PGROUNDDOWN)
  finally show ?thesis .
qed

lemma leaf_page:
  assumes "unat va < 2 ^ 39"
  shows "leaf m 2 pt (PGROUNDDOWN va) = leaf m 2 pt va"
proof -
  have "unat (PGROUNDDOWN va) < 2 ^ 39" using PGROUNDDOWN_le assms by (rule le_less_trans)
  then have "same_px 2 va (PGROUNDDOWN va)"
    using assms by (simp add: same_px_page PGROUNDDOWN_aligned)
  from pte_at_same [OF this, of m pt] show ?thesis by (simp add: leaf_def)
qed

section \<open>\<open>mappages\<close>\<close>

text \<open>
  What every operation on a table keeps: the invariant, the state outside memory, and the pages
  outside the table and the allocator.
\<close>

definition tbl_step :: "'a mstate_scheme \<Rightarrow> u64 \<Rightarrow> 'a mstate_scheme \<Rightarrow> bool" where
  "tbl_step s pt s' \<longleftrightarrow> tbl_inv s' 2 pt \<and> only_mem s s'
     \<and> tpages (pmem s') 2 pt \<union> kmem_avail s' = tpages (pmem s) 2 pt \<union> kmem_avail s
     \<and> tpages (pmem s) 2 pt \<subseteq> tpages (pmem s') 2 pt
     \<and> only_in (tpages (pmem s) 2 pt \<union> kmem_avail s) (pmem s) (pmem s')"

lemma tbl_step_trans: "tbl_step s pt s' \<Longrightarrow> tbl_step s' pt s'' \<Longrightarrow> tbl_step s pt s''"
  using only_mem_trans [of s s' s''] only_in_trans [of _ "pmem s" "pmem s'" "pmem s''"]
  unfolding tbl_step_def by auto

lemma tbl_step_walk: "walk_post n s 2 pt va pte s' \<Longrightarrow> tbl_step s pt s'"
  by (simp add: walk_post_def tbl_step_def)

lemma agree_avail:
  assumes "tbl_inv s 2 pt" and "only_in (tpages (pmem s) 2 pt) (pmem s) m"
  shows "kmem_ok (set_mem m s)" "kmem_avail (set_mem m s) = kmem_avail s"
proof -
  have "agree (kmem_avail s) (pmem s) m"
  proof (rule only_in_agree [OF assms(2)])
    fix p assume "p \<in> tpages (pmem s) 2 pt \<union> kmem_avail s"
    with assms(1) wf_pages [of "pmem s" 2 pt p] kmem_avail_pages [of s p] show "page_aligned p"
      by (auto simp: tbl_inv_def)
  qed (use assms(1) in \<open>simp add: tbl_inv_def\<close>)
  with assms(1) show "kmem_ok (set_mem m s)" "kmem_avail (set_mem m s) = kmem_avail s"
    using kmem_mem_upd [of s m] by (auto simp: tbl_inv_def agree_def)
qed

lemma tbl_step_write:
  assumes inv: "tbl_inv s 2 pt" and a: "pte_at (pmem s) 2 pt va = Some a"
  shows "tbl_step s pt (set_mem (st64 (pmem s) a w) s)"
    "kmem_avail (set_mem (st64 (pmem s) a w) s) = kmem_avail s"
proof -
  let ?m = "st64 (pmem s) a w"
  have wf: "wf_tbl (pmem s) 2 pt" using inv by (simp add: tbl_inv_def)
  obtain p i where "p \<in> tpages (pmem s) 2 pt" "i < 512" "a = p + 8 * i"
    using pte_at_page [OF a] by blast
  then have o: "only_in (tpages (pmem s) 2 pt) (pmem s) ?m" using st64_only_in by blast
  show av: "kmem_avail (set_mem ?m s) = kmem_avail s" by (rule agree_avail(2) [OF inv o])
  have "only_in (tpages (pmem s) 2 pt \<union> kmem_avail s) (pmem s) ?m" using o by (rule only_in_mono) simp
  then show "tbl_step s pt (set_mem ?m s)"
    using leaf_write_shape [OF wf a, of w] av agree_avail(1) [OF inv o] inv
    by (simp add: tbl_step_def tbl_inv_def)
qed

text \<open>The bytes from \<open>a\<close> on \<open>n\<close> pages and the next one.\<close>

definition in_pages :: "u64 \<Rightarrow> nat \<Rightarrow> u64 \<Rightarrow> bool" where
  "in_pages a n va \<longleftrightarrow> unat a \<le> unat va \<and> unat va < unat a + 4096 * n"

lemma in_pages_0 [simp]: "\<not> in_pages a 0 va"
  by (simp add: in_pages_def)

lemma page_next: "unat a < 2 ^ 38 \<Longrightarrow> unat (a + 4096) = unat a + 4096"
  for a :: u64
  by (simp add: unat_word_ariths)

lemma in_pages_1: "page_aligned a \<Longrightarrow> in_pages a 1 va \<longleftrightarrow> PGROUNDDOWN va = a"
proof -
  assume "page_aligned a"
  then obtain k where "unat a = 4096 * k" by (auto simp: page_aligned_unat elim: dvdE)
  then show ?thesis by (auto simp: in_pages_def word_unat_eq_iff unat_PGROUNDDOWN)
qed

lemma in_pages_Suc:
  "unat a < 2 ^ 38 \<Longrightarrow> page_aligned a \<Longrightarrow>
     in_pages a (Suc n) va \<longleftrightarrow> PGROUNDDOWN va = a \<or> in_pages (a + 4096) n va"
  unfolding in_pages_1 [symmetric] by (auto simp: in_pages_def page_next)

lemma in_pages_next: "unat a < 2 ^ 38 \<Longrightarrow> page_aligned a \<Longrightarrow> in_pages (a + 4096) n va \<Longrightarrow> PGROUNDDOWN va \<noteq> a"
  unfolding in_pages_1 [symmetric] by (simp add: in_pages_def page_next)

lemma page_aligned_next: "page_aligned a \<Longrightarrow> page_aligned (a + 4096)"
proof -
  assume "page_aligned a"
  then have "4096 dvd unat a + 4096" by (simp add: page_aligned_unat)
  then have "4096 dvd (unat a + 4096) mod 2 ^ 64" by (simp add: dvd_mod)
  then show ?thesis by (simp add: page_aligned_unat unat_word_ariths)
qed

text \<open>One entry: the walk, the check and the store.\<close>

lemma map_one:
  assumes inv: "tbl_inv s 2 pt" and a: "a < MAXVA" and nv: "\<not> pte_valid (leaf (pmem s) 2 pt a)"
  obtains (fail) s' where "walk pt a True s = Inr (0, s')" "tbl_step s pt s'"
      "card (kmem_avail s) < 2" "\<forall>va. leaf (pmem s') 2 pt va = leaf (pmem s) 2 pt va"
  | (entry) pte s' where "walk pt a True s = Inr (pte, s')" "pte \<noteq> 0" "\<not> pte_valid (ld64 (pmem s') pte)"
      "tbl_step s pt (set_mem (st64 (pmem s') pte w) s')"
      "card (kmem_avail s) \<le> card (kmem_avail (set_mem (st64 (pmem s') pte w) s')) + 2"
      "\<forall>va. unat va < 2 ^ 39 \<longrightarrow> leaf (st64 (pmem s') pte w) 2 pt va =
         (if PGROUNDDOWN va = PGROUNDDOWN a then w else leaf (pmem s) 2 pt va)"
proof -
  obtain pte s' where w: "walk_levels 2 pt a True s = Inr (pte, s')" "walk_post 2 s 2 pt a pte s'"
    using walk_levels_alloc [OF inv] by blast
  have walk: "walk pt a True s = Inr (pte, s')" using w(1) a by (simp add: walk_def)
  have lf: "\<forall>va. leaf (pmem s') 2 pt va = leaf (pmem s) 2 pt va" and inv': "tbl_inv s' 2 pt"
    using w(2) by (simp_all add: walk_post_def)
  show thesis
  proof (cases "pte = 0")
    case True
    then show thesis using fail [of s'] walk lf tbl_step_walk [OF w(2)] w(2) by (simp add: walk_post_def)
  next
    case False
    then have p: "pte_at (pmem s') 2 pt a = Some pte" and c: "card (kmem_avail s) \<le> card (kmem_avail s') + 2"
      using w(2) by (simp_all add: walk_post_def)
    have "ld64 (pmem s') pte = leaf (pmem s) 2 pt a" using lf p by (metis leaf_def option.simps(5))
    with nv have "\<not> pte_valid (ld64 (pmem s') pte)" by simp
    moreover have "unat a < 2 ^ 39" using a by (simp add: layout_values word_less_nat_alt)
    then have "leaf (st64 (pmem s') pte w) 2 pt va =
         (if PGROUNDDOWN va = PGROUNDDOWN a then w else leaf (pmem s) 2 pt va)" if "unat va < 2 ^ 39" for va
      using leaf_write [OF _ p, of w va] inv' lf same_px_page [OF _ that, of a] by (auto simp: tbl_inv_def)
    ultimately show thesis
      using entry [OF walk False] tbl_step_write [OF inv' p, of w] tbl_step_trans [OF tbl_step_walk [OF w(2)]] c
      by simp
  qed
qed

lemma mappages_loop_spec:
  assumes "tbl_inv s 2 pt" and "page_aligned a" and "unat a + 4096 * n < 2 ^ 38"
    and "lst = a + 4096 * of_nat n" and "\<forall>va. in_pages a (Suc n) va \<longrightarrow> \<not> pte_valid (leaf (pmem s) 2 pt va)"
  shows "\<exists>r s'. mappages_loop pt a lst pa perm s = Inr (r, s') \<and> tbl_step s pt s' \<and> (r = 0 \<or> r = -1)
    \<and> (r = 0 \<longrightarrow> (\<forall>va. unat va < 2 ^ 39 \<longrightarrow> leaf (pmem s') 2 pt va =
         (if in_pages a (Suc n) va then PA2PTE (pa + (PGROUNDDOWN va - a)) OR perm OR PTE_V
          else leaf (pmem s) 2 pt va)))
    \<and> (r = -1 \<longrightarrow> card (kmem_avail s) < 2 * Suc n
         \<and> (\<forall>va. unat va < 2 ^ 39 \<longrightarrow> \<not> in_pages a (Suc n) va \<longrightarrow> leaf (pmem s') 2 pt va = leaf (pmem s) 2 pt va))"
  using assms
proof (induction n arbitrary: a pa s)
  case 0
  let ?w = "PA2PTE pa OR perm OR PTE_V"
  have a: "a < MAXVA" using "0.prems"(3) by (simp add: layout_values word_less_nat_alt)
  have ra: "PGROUNDDOWN a = a" by (rule PGROUNDDOWN_aligned [OF "0.prems"(2)])
  have R: "in_pages a (Suc 0) va \<longleftrightarrow> PGROUNDDOWN va = a" for va using in_pages_1 [OF "0.prems"(2)] by simp
  have "\<not> pte_valid (leaf (pmem s) 2 pt a)" using "0.prems"(5) R ra by simp
  with "0.prems"(1) a show ?case
  proof (cases rule: map_one [where w = ?w])
    case (fail s')
    then show ?thesis by (subst mappages_loop.simps) auto
  next
    case (entry pte s')
    have "mappages_loop pt a lst pa perm s = Inr (0, set_mem (st64 (pmem s') pte ?w) s')"
      using entry(1,2,3) "0.prems"(4) by (subst mappages_loop.simps) (simp add: Let_def)
    with entry(4,6) show ?thesis by (auto simp: R ra)
  qed
next
  case (Suc n)
  let ?w = "PA2PTE pa OR perm OR PTE_V"
  have a38: "unat a < 2 ^ 38" using Suc.prems(3) by simp
  then have a: "a < MAXVA" by (simp add: layout_values word_less_nat_alt)
  have ra: "PGROUNDDOWN a = a" by (rule PGROUNDDOWN_aligned [OF Suc.prems(2)])
  note R = in_pages_Suc [OF a38 Suc.prems(2)]
  note Rn = in_pages_next [OF a38 Suc.prems(2)]
  have nv: "\<not> pte_valid (leaf (pmem s) 2 pt a)" using Suc.prems(5) R ra by simp
  have lst: "a \<noteq> lst"
  proof
    assume "a = lst"
    then have "4096 * of_nat (Suc n) = (0 :: u64)" using Suc.prems(4) by simp
    moreover have "unat (4096 * of_nat (Suc n) :: u64) = 4096 * Suc n"
      using Suc.prems(3) by (simp add: unat_word_ariths unat_of_nat del: of_nat_Suc)
    ultimately show False by simp
  qed
  from Suc.prems(1) a nv show ?case
  proof (cases rule: map_one [where w = ?w])
    case (fail s')
    then show ?thesis by (subst mappages_loop.simps) auto
  next
    case (entry pte s')
    define s1 where "s1 = set_mem (st64 (pmem s') pte ?w) s'"
    have loop: "mappages_loop pt a lst pa perm s = mappages_loop pt (a + 4096) lst (pa + 4096) perm s1"
      using entry(1,2,3) lst by (subst mappages_loop.simps) (simp add: Let_def s1_def)
    have st: "tbl_step s pt s1" and c: "card (kmem_avail s) \<le> card (kmem_avail s1) + 2"
      and l1: "\<And>va. unat va < 2 ^ 39 \<Longrightarrow> leaf (pmem s1) 2 pt va =
         (if PGROUNDDOWN va = a then ?w else leaf (pmem s) 2 pt va)"
      using entry(4,5,6) ra by (auto simp: s1_def)
    have inv1: "tbl_inv s1 2 pt" using st by (simp add: tbl_step_def)
    have lim: "unat (a + 4096) + 4096 * n < 2 ^ 38" using Suc.prems(3) page_next [OF a38] by simp
    have nv1: "\<forall>va. in_pages (a + 4096) (Suc n) va \<longrightarrow> \<not> pte_valid (leaf (pmem s1) 2 pt va)"
    proof (intro allI impI)
      fix va assume i: "in_pages (a + 4096) (Suc n) va"
      then have "unat va < 2 ^ 39" using lim by (simp add: in_pages_def)
      with l1 Rn [OF i] Suc.prems(5) R i show "\<not> pte_valid (leaf (pmem s1) 2 pt va)" by auto
    qed
    have lst': "lst = a + 4096 + 4096 * of_nat n" by (simp add: Suc.prems(4) algebra_simps)
    obtain r s'' where ih: "mappages_loop pt (a + 4096) lst (pa + 4096) perm s1 = Inr (r, s'')"
        "tbl_step s1 pt s''" "r = 0 \<or> r = -1"
        "r = 0 \<longrightarrow> (\<forall>va. unat va < 2 ^ 39 \<longrightarrow> leaf (pmem s'') 2 pt va =
           (if in_pages (a + 4096) (Suc n) va then PA2PTE (pa + 4096 + (PGROUNDDOWN va - (a + 4096))) OR perm OR PTE_V
            else leaf (pmem s1) 2 pt va))"
        "r = -1 \<longrightarrow> card (kmem_avail s1) < 2 * Suc n
           \<and> (\<forall>va. unat va < 2 ^ 39 \<longrightarrow> \<not> in_pages (a + 4096) (Suc n) va \<longrightarrow> leaf (pmem s'') 2 pt va = leaf (pmem s1) 2 pt va)"
      using Suc.IH [OF inv1 page_aligned_next [OF Suc.prems(2)] lim lst' nv1, of "pa + 4096"] by blast
    show ?thesis
    proof (intro exI conjI impI allI)
      show "mappages_loop pt a lst pa perm s = Inr (r, s'')" using loop ih(1) by simp
      show "tbl_step s pt s''" by (rule tbl_step_trans [OF st ih(2)])
      show "r = 0 \<or> r = -1" by (rule ih(3))
    next
      fix va :: u64 assume "r = 0" "unat va < 2 ^ 39"
      then show "leaf (pmem s'') 2 pt va =
         (if in_pages a (Suc (Suc n)) va then PA2PTE (pa + (PGROUNDDOWN va - a)) OR perm OR PTE_V
          else leaf (pmem s) 2 pt va)"
        using ih(4) l1 R Rn by (auto simp: algebra_simps)
    next
      assume "r = -1"
      then show "card (kmem_avail s) < 2 * Suc (Suc n)" using ih(5) c by simp
    next
      fix va :: u64 assume "r = -1" "unat va < 2 ^ 39" "\<not> in_pages a (Suc (Suc n)) va"
      then show "leaf (pmem s'') 2 pt va = leaf (pmem s) 2 pt va" using ih(5) l1 R by auto
    qed
  qed
qed

section \<open>\<open>uvmunmap\<close>\<close>

text \<open>The physical pages that the \<open>n\<close> virtual pages from \<open>a\<close> are mapped to.\<close>

definition frames :: "memory \<Rightarrow> u64 \<Rightarrow> u64 \<Rightarrow> nat \<Rightarrow> u64 set" where
  "frames m pt a n = (\<lambda>va. PTE2PA (leaf m 2 pt va)) ` {va. in_pages a n va}"

definition mapped :: "u64 \<Rightarrow> bool" where
  "mapped e \<longleftrightarrow> pte_valid e \<and> PTE_FLAGS e \<noteq> PTE_V"

text \<open>
  Pages that may be given back: the allocator's own pages, not free yet, no table pages, each
  mapped once.
\<close>

definition freeable :: "'a mstate_scheme \<Rightarrow> u64 \<Rightarrow> u64 \<Rightarrow> nat \<Rightarrow> bool" where
  "freeable s pt a n \<longleftrightarrow>
     (\<forall>p \<in> frames (pmem s) pt a n. valid_page s p \<and> p \<notin> kmem_avail s \<and> p \<notin> tpages (pmem s) 2 pt)
     \<and> (\<forall>x y. in_pages a n x \<longrightarrow> in_pages a n y \<longrightarrow> PGROUNDDOWN x \<noteq> PGROUNDDOWN y \<longrightarrow>
          PTE2PA (leaf (pmem s) 2 pt x) \<noteq> PTE2PA (leaf (pmem s) 2 pt y))"

lemma frames_Suc:
  assumes "unat a < 2 ^ 38" and "page_aligned a"
  shows "frames m pt a (Suc n) = insert (PTE2PA (leaf m 2 pt a)) (frames m pt (a + 4096) n)"
proof -
  have "leaf m 2 pt va = leaf m 2 pt a" if "PGROUNDDOWN va = a" for va
  proof -
    have "in_pages a 1 va" using in_pages_1 [OF assms(2)] that by simp
    then have "unat va < 2 ^ 39" using assms(1) by (simp add: in_pages_def)
    from leaf_page [OF this] that show ?thesis by simp
  qed
  then have "(\<lambda>va. PTE2PA (leaf m 2 pt va)) ` {va. PGROUNDDOWN va = a} =
      (\<lambda>va. PTE2PA (leaf m 2 pt a)) ` {va. PGROUNDDOWN va = a}"
    by (intro image_cong) simp_all
  also have "\<dots> = {PTE2PA (leaf m 2 pt a)}"
    using PGROUNDDOWN_aligned [OF assms(2)] by (intro image_constant) simp
  finally show ?thesis
    unfolding frames_def in_pages_Suc [OF assms] Collect_disj_eq image_Un by simp
qed

lemma frames_cong:
  "(\<And>va. in_pages a n va \<Longrightarrow> leaf m' 2 pt va = leaf m 2 pt va) \<Longrightarrow> frames m' pt a n = frames m pt a n"
  unfolding frames_def by (rule image_cong) simp_all

text \<open>One entry: the page is freed, if asked, and the entry cleared.\<close>

lemma unmap_one:
  assumes inv: "tbl_inv s 2 pt" and a: "pte_at (pmem s) 2 pt va = Some pte" and va: "unat va < 2 ^ 39"
    and fr: "do_free \<longrightarrow> valid_page s p \<and> p \<notin> kmem_avail s \<and> p \<notin> tpages (pmem s) 2 pt"
  shows "\<exists>s1 s2. (if do_free then kfree p s else Inr s) = Inr s1 \<and> s2 = set_mem (st64 (pmem s1) pte 0) s1
    \<and> tbl_inv s2 2 pt \<and> only_mem s s2 \<and> tpages (pmem s2) 2 pt = tpages (pmem s) 2 pt
    \<and> kmem_avail s2 = kmem_avail s \<union> (if do_free then {p} else {})
    \<and> only_in (tpages (pmem s) 2 pt \<union> (if do_free then {p} else {})) (pmem s) (pmem s2)
    \<and> (\<forall>x. unat x < 2 ^ 39 \<longrightarrow> leaf (pmem s2) 2 pt x =
         (if PGROUNDDOWN x = PGROUNDDOWN va then 0 else leaf (pmem s) 2 pt x))"
proof -
  let ?T = "tpages (pmem s) 2 pt"
  have wf: "wf_tbl (pmem s) 2 pt" and ok: "kmem_ok s" and d: "?T \<inter> kmem_avail s = {}"
    using inv by (auto simp: tbl_inv_def)
  obtain s1 where s1: "(if do_free then kfree p s else Inr s) = Inr s1" "kmem_ok s1" "only_mem s s1"
      "kmem_avail s1 = kmem_avail s \<union> (if do_free then {p} else {})"
      "only_in (if do_free then {p} else {}) (pmem s) (pmem s1)"
  proof (cases do_free)
    case True
    then obtain s1 where "kfree p s = Inr s1" "kmem_ok s1" "kmem_avail s1 = insert p (kmem_avail s)"
        "\<forall>a. \<not> in_page p a \<longrightarrow> pmem s1 a = pmem s a" "only_mem s s1"
      using kmem.free_page [OF ok] fr by blast
    then show ?thesis using that [of s1] True by (simp add: only_in_def)
  qed (use that [of s] ok in simp)
  have ag: "agree ?T (pmem s) (pmem s1)"
    by (rule only_in_agree [OF s1(5)])
      (use fr wf_pages [OF wf] in \<open>auto simp: valid_page_def split: if_splits\<close>)
  note cong = tbl_congs [OF ag]
  have inv1: "tbl_inv s1 2 pt"
    unfolding tbl_inv_def cong s1(4) using s1(2) wf d fr by auto
  have a1: "pte_at (pmem s1) 2 pt va = Some pte" using a cong(3) by simp
  note w = tbl_step_write [OF inv1 a1, of 0]
  have shape: "tpages (st64 (pmem s1) pte 0) 2 pt = ?T"
    using leaf_write_shape [OF _ a1, of 0] inv1 cong(1) by (simp add: tbl_inv_def)
  have om: "only_mem s (set_mem (st64 (pmem s1) pte 0) s1)"
    by (rule only_mem_trans [OF s1(3) only_mem_upd])
  have lf: "leaf (st64 (pmem s1) pte 0) 2 pt x = (if PGROUNDDOWN x = PGROUNDDOWN va then 0 else leaf (pmem s) 2 pt x)"
    if "unat x < 2 ^ 39" for x
    using leaf_write [OF _ a1, of 0 x] inv1 cong(4) same_px_page [OF va that] by (auto simp: tbl_inv_def)
  obtain q i where "q \<in> ?T" "i < 512" "pte = q + 8 * i" using pte_at_page [OF a] by blast
  then have o: "only_in ?T (pmem s1) (st64 (pmem s1) pte 0)" using st64_only_in by blast
  have oi: "only_in (?T \<union> (if do_free then {p} else {})) (pmem s) (st64 (pmem s1) pte 0)"
    by (rule only_in_trans [OF only_in_mono [OF s1(5)] only_in_mono [OF o]]) simp_all
  show ?thesis
  proof (intro exI conjI)
    show "(if do_free then kfree p s else Inr s) = Inr s1" by (rule s1(1))
    show "set_mem (st64 (pmem s1) pte 0) s1 = set_mem (st64 (pmem s1) pte 0) s1" ..
    show "tbl_inv (set_mem (st64 (pmem s1) pte 0) s1) 2 pt" using w(1) unfolding tbl_step_def by blast
    show "kmem_avail (set_mem (st64 (pmem s1) pte 0) s1) = kmem_avail s \<union> (if do_free then {p} else {})"
      unfolding w(2) by (rule s1(4))
  qed (use shape om lf oi in simp_all)
qed

definition unmap_post ::
  "'a mstate_scheme \<Rightarrow> u64 \<Rightarrow> u64 \<Rightarrow> nat \<Rightarrow> bool \<Rightarrow> 'a mstate_scheme \<Rightarrow> bool" where
  "unmap_post s pt a n do_free s' \<longleftrightarrow> tbl_inv s' 2 pt \<and> only_mem s s'
     \<and> tpages (pmem s') 2 pt = tpages (pmem s) 2 pt
     \<and> kmem_avail s' = kmem_avail s \<union> (if do_free then frames (pmem s) pt a n else {})
     \<and> only_in (tpages (pmem s) 2 pt \<union> (if do_free then frames (pmem s) pt a n else {})) (pmem s) (pmem s')
     \<and> (\<forall>va. unat va < 2 ^ 39 \<longrightarrow>
          leaf (pmem s') 2 pt va = (if in_pages a n va then 0 else leaf (pmem s) 2 pt va))"

lemma uvmunmap_loop_spec:
  assumes "tbl_inv s 2 pt" and "page_aligned a" and "unat a + 4096 * n \<le> 2 ^ 38"
    and "stop = a + 4096 * of_nat n" and "\<forall>va. in_pages a n va \<longrightarrow> mapped (leaf (pmem s) 2 pt va)"
    and "do_free \<longrightarrow> freeable s pt a n"
  shows "\<exists>s'. uvmunmap_loop pt a stop do_free s = Inr s' \<and> unmap_post s pt a n do_free s'"
  using assms
proof (induction n arbitrary: a s)
  case 0
  then have "uvmunmap_loop pt a stop do_free s = Inr s" by (subst uvmunmap_loop.simps) simp
  with 0 show ?case by (auto simp: unmap_post_def frames_def)
next
  case (Suc n)
  have a38: "unat a < 2 ^ 38" using Suc.prems(3) by simp
  then have a: "\<not> MAXVA \<le> a" "unat a < 2 ^ 39" by (simp_all add: layout_values word_le_nat_alt)
  have ra: "PGROUNDDOWN a = a" by (rule PGROUNDDOWN_aligned [OF Suc.prems(2)])
  note R = in_pages_Suc [OF a38 Suc.prems(2)]
  note Rn = in_pages_next [OF a38 Suc.prems(2)]
  let ?e = "leaf (pmem s) 2 pt a"
  have e: "mapped ?e" using Suc.prems(5) R ra by simp
  then obtain pte where pte: "pte_at (pmem s) 2 pt a = Some pte"
    by (cases "pte_at (pmem s) 2 pt a") (auto simp: mapped_def leaf_def)
  have ld: "ld64 (pmem s) pte = ?e" using pte by (simp add: leaf_def)
  have wf: "wf_tbl (pmem s) 2 pt" using Suc.prems(1) by (simp add: tbl_inv_def)
  have walk: "walk pt a False s = Inr (pte, s)" "pte \<noteq> 0"
    using pte a(1) pte_at_nonzero [OF wf pte] by (simp_all add: walk_read)
  have u: "unat (4096 * of_nat (Suc n) :: u64) = 4096 * Suc n"
    using Suc.prems(3) by (simp add: unat_word_ariths unat_of_nat del: of_nat_Suc)
  then have lt: "a < stop"
    using Suc.prems(3) by (simp add: Suc.prems(4) word_less_nat_alt unat_word_ariths(1) del: of_nat_Suc)
  have fr: "do_free \<longrightarrow> valid_page s (PTE2PA ?e) \<and> PTE2PA ?e \<notin> kmem_avail s \<and> PTE2PA ?e \<notin> tpages (pmem s) 2 pt"
    using Suc.prems(6) frames_Suc [OF a38 Suc.prems(2), of "pmem s" pt n] by (auto simp: freeable_def)
  obtain s1 s2 where s2: "(if do_free then kfree (PTE2PA ?e) s else Inr s) = Inr s1"
      "s2 = set_mem (st64 (pmem s1) pte 0) s1"
      "tbl_inv s2 2 pt" "only_mem s s2" "tpages (pmem s2) 2 pt = tpages (pmem s) 2 pt"
      "kmem_avail s2 = kmem_avail s \<union> (if do_free then {PTE2PA ?e} else {})"
      "only_in (tpages (pmem s) 2 pt \<union> (if do_free then {PTE2PA ?e} else {})) (pmem s) (pmem s2)"
      "\<forall>x. unat x < 2 ^ 39 \<longrightarrow> leaf (pmem s2) 2 pt x = (if PGROUNDDOWN x = a then 0 else leaf (pmem s) 2 pt x)"
    using unmap_one [OF Suc.prems(1) pte a(2) fr] unfolding ra by blast
  have loop: "uvmunmap_loop pt a stop do_free s = uvmunmap_loop pt (a + 4096) stop do_free s2"
    using lt walk e ld s2(1,2) by (subst uvmunmap_loop.simps) (cases do_free, simp_all add: mapped_def)
  have lim: "unat (a + 4096) + 4096 * n \<le> 2 ^ 38" using Suc.prems(3) page_next [OF a38] by simp
  have l2: "leaf (pmem s2) 2 pt x = leaf (pmem s) 2 pt x" if "in_pages (a + 4096) n x" for x
    using that s2(8) Rn lim by (auto simp: in_pages_def)
  have f2: "frames (pmem s2) pt (a + 4096) n = frames (pmem s) pt (a + 4096) n"
    by (rule frames_cong) (rule l2)
  have fs: "frames (pmem s) pt a (Suc n) = insert (PTE2PA ?e) (frames (pmem s) pt (a + 4096) n)"
    by (rule frames_Suc [OF a38 Suc.prems(2)])
  have dist: "PTE2PA (leaf (pmem s) 2 pt x) \<noteq> PTE2PA (leaf (pmem s) 2 pt y)"
    if "do_free" "in_pages a (Suc n) x" "in_pages a (Suc n) y" "PGROUNDDOWN x \<noteq> PGROUNDDOWN y" for x y
    using Suc.prems(6) that unfolding freeable_def by blast
  have new: "PTE2PA ?e \<notin> frames (pmem s) pt (a + 4096) n" if df: do_free
  proof
    assume "PTE2PA ?e \<in> frames (pmem s) pt (a + 4096) n"
    then obtain y where y: "in_pages (a + 4096) n y" "PTE2PA ?e = PTE2PA (leaf (pmem s) 2 pt y)"
      by (auto simp: frames_def)
    moreover have "in_pages a (Suc n) a" "in_pages a (Suc n) y" using R ra y(1) by auto
    moreover have "PGROUNDDOWN a \<noteq> PGROUNDDOWN y" using ra Rn [OF y(1)] by simp
    ultimately show False using dist [OF df] by blast
  qed
  have "do_free \<longrightarrow> freeable s2 pt (a + 4096) n"
  proof
    assume df: do_free
    then have V: "valid_page s p \<and> p \<notin> kmem_avail s \<and> p \<notin> tpages (pmem s) 2 pt"
      if "p \<in> frames (pmem s) pt (a + 4096) n" for p
      using Suc.prems(6) that fs unfolding freeable_def by blast
    show "freeable s2 pt (a + 4096) n"
      unfolding freeable_def f2 s2(5,6) only_mem_simps(10) [OF s2(4)]
    proof (intro conjI ballI allI impI)
      fix p assume "p \<in> frames (pmem s) pt (a + 4096) n"
      then show "valid_page s p" "p \<notin> tpages (pmem s) 2 pt"
          "p \<notin> kmem_avail s \<union> (if do_free then {PTE2PA ?e} else {})"
        using V [of p] new [OF df] by auto
    next
      fix x y assume "in_pages (a + 4096) n x" "in_pages (a + 4096) n y" "PGROUNDDOWN x \<noteq> PGROUNDDOWN y"
      then show "PTE2PA (leaf (pmem s2) 2 pt x) \<noteq> PTE2PA (leaf (pmem s2) 2 pt y)"
        using dist [OF df, of x y] R l2 by simp
    qed
  qed
  moreover have "stop = a + 4096 + 4096 * of_nat n" by (simp add: Suc.prems(4) algebra_simps)
  moreover have "\<forall>va. in_pages (a + 4096) n va \<longrightarrow> mapped (leaf (pmem s2) 2 pt va)"
    using Suc.prems(5) R l2 by auto
  ultimately obtain s' where ih: "uvmunmap_loop pt (a + 4096) stop do_free s2 = Inr s'"
      "unmap_post s2 pt (a + 4096) n do_free s'"
    using Suc.IH [OF s2(3) page_aligned_next [OF Suc.prems(2)] lim] by blast
  have P: "tbl_inv s' 2 pt" "only_mem s2 s'" "tpages (pmem s') 2 pt = tpages (pmem s) 2 pt"
      "kmem_avail s' = kmem_avail s2 \<union> (if do_free then frames (pmem s) pt (a + 4096) n else {})"
      "only_in (tpages (pmem s) 2 pt \<union> (if do_free then frames (pmem s) pt (a + 4096) n else {})) (pmem s2) (pmem s')"
      "\<And>va. unat va < 2 ^ 39 \<Longrightarrow>
        leaf (pmem s') 2 pt va = (if in_pages (a + 4096) n va then 0 else leaf (pmem s2) 2 pt va)"
    using ih(2) unfolding unmap_post_def s2(5) f2 by blast+
  have "unmap_post s pt a (Suc n) do_free s'"
    unfolding unmap_post_def
  proof (intro conjI allI impI)
    show "tbl_inv s' 2 pt" "tpages (pmem s') 2 pt = tpages (pmem s) 2 pt" by (rule P(1), rule P(3))
    show "only_mem s s'" by (rule only_mem_trans [OF s2(4) P(2)])
    show "kmem_avail s' = kmem_avail s \<union> (if do_free then frames (pmem s) pt a (Suc n) else {})"
      unfolding P(4) s2(6) fs by auto
    show "only_in (tpages (pmem s) 2 pt \<union> (if do_free then frames (pmem s) pt a (Suc n) else {})) (pmem s) (pmem s')"
      by (rule only_in_trans [OF only_in_mono [OF s2(7)] only_in_mono [OF P(5)]]) (use fs in auto)
  next
    fix va :: u64 assume va: "unat va < 2 ^ 39"
    show "leaf (pmem s') 2 pt va = (if in_pages a (Suc n) va then 0 else leaf (pmem s) 2 pt va)"
      unfolding P(6) [OF va] R using s2(8) va by auto
  qed
  with loop ih(1) show ?case by auto
qed

section \<open>Properties\<close>

text \<open>The pages that the \<open>sz\<close> bytes from \<open>va\<close> touch.\<close>

definition touches :: "u64 \<Rightarrow> u64 \<Rightarrow> u64 \<Rightarrow> bool" where
  "touches va sz x \<longleftrightarrow> unat va div 4096 \<le> unat x div 4096
     \<and> unat x div 4096 \<le> (unat va + unat sz - 1) div 4096"

definition npages :: "u64 \<Rightarrow> u64 \<Rightarrow> nat" where
  "npages va sz = (unat va + unat sz - 1) div 4096 - unat va div 4096 + 1"

lemma unat_pos: "(a :: u64) \<noteq> 0 \<Longrightarrow> 0 < unat a"
  by (rule ccontr) (simp add: unsigned_eq_0_iff)

lemma touches_pages:
  assumes "sz \<noteq> 0"
  shows "touches va sz x \<longleftrightarrow> in_pages (PGROUNDDOWN va) (npages va sz) x"
proof -
  have "0 < unat sz" by (rule unat_pos [OF assms])
  then have le: "unat va div 4096 \<le> (unat va + unat sz - 1) div 4096" by (intro div_le_mono) simp
  have "unat x < (q + 1) * 4096 \<longleftrightarrow> unat x div 4096 \<le> q" for q
    using div_less_iff_less_mult [of 4096 "unat x" "q + 1"] by linarith
  moreover have "q * 4096 \<le> unat x \<longleftrightarrow> q \<le> unat x div 4096" for q
    using less_eq_div_iff_mult_less_eq [of 4096 q "unat x"] by simp
  moreover have "unat va div 4096 * 4096 + 4096 * npages va sz = ((unat va + unat sz - 1) div 4096 + 1) * 4096"
    using le by (simp add: npages_def algebra_simps)
  ultimately show ?thesis by (simp add: touches_def in_pages_def unat_PGROUNDDOWN)
qed

lemma mappages_last:
  assumes "sz \<noteq> 0" and "unat va + unat sz \<le> 2 ^ 38"
  shows "PGROUNDDOWN (va + sz - 1) = PGROUNDDOWN va + 4096 * of_nat (npages va sz - 1)"
    and "unat (PGROUNDDOWN va) + 4096 * (npages va sz - 1) < 2 ^ 38"
proof -
  have pos: "0 < unat sz" by (rule unat_pos [OF assms(1)])
  then have le: "unat va div 4096 \<le> (unat va + unat sz - 1) div 4096" by (intro div_le_mono) simp
  have "unat (va + (sz - 1)) = unat va + (unat sz - 1)"
    using assms pos by (subst unat_word_ariths(1)) (simp add: unat_sub64 word_le_nat_alt)
  then have u: "unat (va + sz - 1) = unat va + unat sz - 1" using pos by (simp only: add_diff_eq)
  have e: "unat va div 4096 * 4096 + 4096 * (npages va sz - 1) = (unat va + unat sz - 1) div 4096 * 4096"
    using le by (simp add: npages_def algebra_simps)
  have "(unat va + unat sz - 1) div 4096 * 4096 \<le> unat va + unat sz - 1" by simp
  then have lt: "(unat va + unat sz - 1) div 4096 * 4096 < 2 ^ 38" using assms(2) pos by linarith
  then show "unat (PGROUNDDOWN va) + 4096 * (npages va sz - 1) < 2 ^ 38"
    using e by (simp add: unat_PGROUNDDOWN)
  have "unat (PGROUNDDOWN va + 4096 * of_nat (npages va sz - 1)) = (unat va + unat sz - 1) div 4096 * 4096"
  proof -
    have "unat (4096 * of_nat (npages va sz - 1) :: u64) = 4096 * (npages va sz - 1)"
      using e lt by (simp add: unat_word_ariths unat_of_nat)
    then show ?thesis using e lt by (subst unat_word_ariths(1)) (simp add: unat_PGROUNDDOWN)
  qed
  then show "PGROUNDDOWN (va + sz - 1) = PGROUNDDOWN va + 4096 * of_nat (npages va sz - 1)"
    by (simp add: word_unat_eq_iff unat_PGROUNDDOWN u)
qed

text \<open>
  C6: \<open>mappages\<close> refines an update of the mapping. On a well-formed table whose pages the
  allocator does not own, for a range below \<open>MAXVA\<close> with no page mapped yet, the call returns.
  If it returns 0, exactly the pages of the range are mapped, to consecutive physical pages with
  the given permissions, and every other virtual page keeps its entry; it returns -1 only when
  fewer than two free pages per mapped page were left. The table stays well formed and no memory
  outside it and the allocator's pages changes.
\<close>

theorem mappages_installs:
  assumes "tbl_inv s 2 pt" and "sz \<noteq> 0" and "unat va + unat sz \<le> 2 ^ 38"
    and "\<forall>x. touches va sz x \<longrightarrow> \<not> pte_valid (leaf (pmem s) 2 pt x)"
  shows "\<exists>r s'. mappages pt va sz pa perm s = Inr (r, s') \<and> tbl_step s pt s' \<and> (r = 0 \<or> r = - 1)
    \<and> (r = 0 \<longrightarrow> (\<forall>x. unat x < 2 ^ 39 \<longrightarrow> leaf (pmem s') 2 pt x =
         (if touches va sz x then PA2PTE (pa + (PGROUNDDOWN x - PGROUNDDOWN va)) OR perm OR PTE_V
          else leaf (pmem s) 2 pt x)))
    \<and> (r = - 1 \<longrightarrow> card (kmem_avail s) < 2 * npages va sz)"
proof -
  obtain n where n: "npages va sz = Suc n" by (simp add: npages_def)
  note t = touches_pages [OF assms(2), of va, unfolded n]
  note last = mappages_last [OF assms(2,3), unfolded n diff_Suc_1]
  have "mappages pt va sz pa perm s = mappages_loop pt (PGROUNDDOWN va) (PGROUNDDOWN (va + sz - 1)) pa perm s"
    using assms(2) by (simp add: mappages_def)
  with mappages_loop_spec [OF assms(1) page_aligned_round(1) last(2) last(1) assms(4) [unfolded t], of pa perm]
  show ?thesis unfolding t n by auto
qed

text \<open>An empty table at 0x87FFC000 and three free pages.\<close>

definition vm_demo :: mstate where
  "vm_demo = kmem_one\<lparr>kend := 0x87FFC000,
     pmem := st64 (st64 (\<lambda>_. 0) 0x87FFF000 0x87FFE000) 0x87FFE000 0x87FFD000\<rparr>"

lemma vm_demo_free: "free_list vm_demo [0x87FFF000, 0x87FFE000, 0x87FFD000]"
proof -
  have al: "page_aligned 0x87FFF000" "page_aligned 0x87FFE000" "page_aligned 0x87FFD000"
    by (simp_all add: page_aligned_unat)
  have z: "ld64 (\<lambda>_. 0) p = 0" for p by (rule ld64_zero) simp
  have d: "disj_rng p 8 q 8" if "page_aligned p" "page_aligned q" "p \<noteq> q" for p q
    using pages_disj_rng [OF that, of 0 0] by simp
  let ?m = "st64 (st64 (\<lambda>_. 0) 0x87FFF000 0x87FFE000) 0x87FFE000 0x87FFD000"
  have "ld64 ?m 0x87FFF000 = 0x87FFE000" "ld64 ?m 0x87FFE000 = 0x87FFD000" "ld64 ?m 0x87FFD000 = 0"
    using d [OF al(2,1)] d [OF al(2,3)] d [OF al(1,3)] z by (simp_all add: ld64_st64_other)
  then show ?thesis
    using al by (simp add: free_list_def vm_demo_def kmem_one_def valid_page_def layout_values)
qed

lemma vm_demo_inv: "tbl_inv vm_demo 2 0x87FFC000" "tpages (pmem vm_demo) 2 0x87FFC000 = {0x87FFC000}"
    "leaf (pmem vm_demo) 2 0x87FFC000 va = 0" "kmem_avail vm_demo = {0x87FFF000, 0x87FFE000, 0x87FFD000}"
proof -
  have al: "page_aligned 0x87FFF000" "page_aligned 0x87FFE000" "page_aligned 0x87FFC000"
    by (simp_all add: page_aligned_unat)
  have z: "pmem vm_demo a = 0" if "in_page 0x87FFC000 a" for a
  proof -
    have "\<not> in_page 0x87FFF000 a" "\<not> in_page 0x87FFE000 a"
      using that al in_page_unique [OF _ al(3)] by fastforce+
    then show ?thesis
      using st64_ent_page [of 0 "0x87FFF000" a] st64_ent_page [of 0 "0x87FFE000" a]
      by (simp add: vm_demo_def)
  qed
  note t = zero_table [OF z]
  show tp: "tpages (pmem vm_demo) 2 0x87FFC000 = {0x87FFC000}" by (rule t(3))
  show "leaf (pmem vm_demo) 2 0x87FFC000 va = 0" by (rule t(4))
  show av: "kmem_avail vm_demo = {0x87FFF000, 0x87FFE000, 0x87FFD000}"
    using kmem_avail_eq [OF vm_demo_free] by simp
  have "kmem_ok vm_demo"
    using vm_demo_free kmem_one_ready by (auto simp: kmem_ok_def vm_demo_def kmem_one_def kmem_ready_def lk_free_def cpu_ok_def lock_defs)
  moreover have "wf_tbl (pmem vm_demo) 2 0x87FFC000" by (rule t(2)) (use al in auto)
  ultimately show "tbl_inv vm_demo 2 0x87FFC000" unfolding tbl_inv_def tp av by simp
qed

lemma mappages_installs_witness:
  "\<exists>s'. mappages 0x87FFC000 0x3000 4096 0x80042000 (PTE_R OR PTE_U) vm_demo = Inr (0, s')
     \<and> leaf (pmem s') 2 0x87FFC000 0x3010 = PA2PTE 0x80042000 OR (PTE_R OR PTE_U) OR PTE_V"
proof -
  have "card (kmem_avail vm_demo) = 3" by (simp add: vm_demo_inv)
  moreover have "npages 0x3000 4096 = 1" by (simp add: npages_def)
  moreover have "touches 0x3000 4096 0x3010" by (simp add: touches_def)
  moreover have "PGROUNDDOWN 0x3010 - PGROUNDDOWN 0x3000 = (0 :: u64)" by (simp add: PGROUNDDOWN_def)
  moreover have "\<forall>x. touches 0x3000 4096 x \<longrightarrow> \<not> pte_valid (leaf (pmem vm_demo) 2 0x87FFC000 x)"
    by (simp add: vm_demo_inv)
  ultimately show ?thesis
    using mappages_installs [OF vm_demo_inv(1), of 4096 "0x3000" "0x80042000" "PTE_R OR PTE_U"] by auto
qed

text \<open>
  C10: \<open>uvmunmap\<close> refines the removal of a range. If every page of the range is a mapped leaf (and,
  when the pages are to be freed, each is an allocated page mapped once), the call returns with
  exactly these entries cleared, the table pages as they were, and the frames on the free list
  if \<open>do_free\<close> was given.
\<close>

theorem uvmunmap_removes:
  assumes "tbl_inv s 2 pt" and "page_aligned va" and "unat va + 4096 * n \<le> 2 ^ 38"
    and "\<forall>x. in_pages va n x \<longrightarrow> mapped (leaf (pmem s) 2 pt x)" and "do_free \<longrightarrow> freeable s pt va n"
  shows "\<exists>s'. uvmunmap pt va (of_nat n) do_free s = Inr s' \<and> tbl_inv s' 2 pt
    \<and> (\<forall>x. unat x < 2 ^ 39 \<longrightarrow> leaf (pmem s') 2 pt x = (if in_pages va n x then 0 else leaf (pmem s) 2 pt x))
    \<and> tpages (pmem s') 2 pt = tpages (pmem s) 2 pt
    \<and> kmem_avail s' = kmem_avail s \<union> (if do_free then frames (pmem s) pt va n else {})"
proof -
  obtain s' where "uvmunmap_loop pt va (va + 4096 * of_nat n) do_free s = Inr s'" "unmap_post s pt va n do_free s'"
    using uvmunmap_loop_spec [OF assms(1-3) refl assms(4,5)] by blast
  moreover have "uvmunmap pt va (of_nat n) do_free s = uvmunmap_loop pt va (va + 4096 * of_nat n) do_free s"
    using assms(2) unfolding uvmunmap_def page_aligned_def by (simp only: PGSIZE_def mult.commute) simp
  ultimately show ?thesis by (auto simp: unmap_post_def)
qed

lemma uvmunmap_removes_witness:
  "\<exists>(s :: mstate) s'. leaf (pmem s) 2 0x87FFC000 0x3000 = PA2PTE 0x80042000 OR PTE_R OR PTE_V
     \<and> uvmunmap 0x87FFC000 0x3000 1 False s = Inr s' \<and> leaf (pmem s') 2 0x87FFC000 0x3000 = 0"
proof -
  have R: "in_pages 0x3000 (Suc 0) x \<longleftrightarrow> PGROUNDDOWN x = 0x3000" for x
    using in_pages_1 [of "0x3000" x] by (simp add: page_aligned_unat)
  obtain r :: int and s where s: "tbl_step vm_demo 0x87FFC000 s" "r = 0 \<or> r = -1"
      "r = 0 \<longrightarrow> (\<forall>va. unat va < 2 ^ 39 \<longrightarrow> leaf (pmem s) 2 0x87FFC000 va =
         (if in_pages 0x3000 (Suc 0) va then PA2PTE (0x80042000 + (PGROUNDDOWN va - 0x3000)) OR PTE_R OR PTE_V
          else leaf (pmem vm_demo) 2 0x87FFC000 va))"
      "r = -1 \<longrightarrow> card (kmem_avail vm_demo) < 2"
  proof -
    have "page_aligned 0x3000" by (simp add: page_aligned_unat)
    from mappages_loop_spec [OF vm_demo_inv(1) this, of 0 "0x3000" "0x80042000" PTE_R] that show thesis
      by (auto simp: vm_demo_inv(3))
  qed
  have r: "r = 0" using s(2,4) by (auto simp: vm_demo_inv)
  have lf: "leaf (pmem s) 2 0x87FFC000 x = PA2PTE 0x80042000 OR PTE_R OR PTE_V" if "in_pages 0x3000 1 x" for x
  proof -
    have "unat x < 2 ^ 39" using that by (simp add: in_pages_def)
    then show ?thesis using s(3) r that R [of x] by simp
  qed
  have m: "mapped (PA2PTE 0x80042000 OR PTE_R OR PTE_V)"
    using or_valid [of "PA2PTE 0x80042000 OR PTE_R"] PTE_FLAGS_or [of "PTE_R OR PTE_V" "0x80042000"]
    by (simp add: mapped_def or.assoc pte_flag_values)
  have i: "in_pages 0x3000 1 0x3000" by (simp add: in_pages_def)
  have "tbl_inv s 2 0x87FFC000" using s(1) by (simp add: tbl_step_def)
  moreover have "page_aligned 0x3000" by (simp add: page_aligned_unat)
  ultimately obtain s' where "uvmunmap 0x87FFC000 0x3000 (of_nat 1) False s = Inr s'"
      "\<forall>x. unat x < 2 ^ 39 \<longrightarrow> leaf (pmem s') 2 0x87FFC000 x = (if in_pages 0x3000 1 x then 0 else leaf (pmem s) 2 0x87FFC000 x)"
    using uvmunmap_removes [of s "0x87FFC000" "0x3000" 1 False] lf m by auto
  then show ?thesis using lf [OF i] i by (intro exI [of _ s] exI [of _ s']) simp
qed

text \<open>The faults of a mapping request: past the top of the address space, or a page that is mapped.\<close>

lemma mappages_walk_panics: "sz \<noteq> 0 \<Longrightarrow> MAXVA \<le> PGROUNDDOWN va \<Longrightarrow> mappages pt va sz pa perm s = Inl (Panic ''walk'')"
  by (simp add: mappages_def mappages_loop.simps [of pt "PGROUNDDOWN va"] walk_def)

lemma walk_levels_valid:
  "pte_at (pmem s) l pt va = Some a \<Longrightarrow> walk_levels l pt va True s = Inr (a, s)"
  by (induction l arbitrary: pt) (auto simp: Let_def ent_def split: if_splits)

lemma mappages_remap_panics:
  assumes "wf_tbl (pmem s) 2 pt" and "sz \<noteq> 0" and "va < MAXVA" and "page_aligned va"
    and "pte_valid (leaf (pmem s) 2 pt va)"
  shows "mappages pt va sz pa perm s = Inl (Panic ''mappages: remap'')"
proof -
  obtain a where a: "pte_at (pmem s) 2 pt va = Some a" "ld64 (pmem s) a = leaf (pmem s) 2 pt va"
    using assms(5) by (cases "pte_at (pmem s) 2 pt va") (auto simp: leaf_def)
  then have "walk pt va True s = Inr (a, s)" "a \<noteq> 0"
    using assms(3) walk_levels_valid pte_at_nonzero [OF assms(1)] by (auto simp: walk_def)
  then show ?thesis
    using assms a PGROUNDDOWN_aligned [OF assms(4)]
    by (simp add: mappages_def mappages_loop.simps [of pt va])
qed

end
