(* ===== verification/Freewalk.thy ===== *)
theory Freewalk
  imports Pagetable
begin

text \<open>
  \<open>freewalk\<close> of kernel/vm.c. A table whose leaves have all been cleared is given back to the
  allocator page by page; a leaf that is still valid is a panic, whatever the order in which the
  entries are met. \<open>some_leaf\<close> says that a table has a level-0 entry of some kind, \<open>fw_inv\<close> is the
  invariant of the loop over the 512 entries.
\<close>

unbundle bit_operations_syntax

section \<open>\<open>freewalk\<close>\<close>

declare tpages.simps(2) [simp del] wf_tbl.simps(2) [simp del] freewalk_depth.simps(2) [simp del]

fun some_leaf :: "(u64 \<Rightarrow> bool) \<Rightarrow> memory \<Rightarrow> nat \<Rightarrow> u64 \<Rightarrow> bool" where
  "some_leaf P m 0 pt \<longleftrightarrow> (\<exists>i < 512. P (ent m pt i))"
| "some_leaf P m (Suc l) pt \<longleftrightarrow>
     (\<exists>i < 512. pte_valid (ent m pt i) \<and> some_leaf P m l (PTE2PA (ent m pt i)))"

lemma leaf_Suc: "pte_valid (ent m pt (PX (Suc l) va)) \<Longrightarrow>
    leaf m (Suc l) pt va = leaf m l (PTE2PA (ent m pt (PX (Suc l) va))) va"
  by (simp add: leaf_def Let_def)

lemma leaf_0: "leaf m 0 pt va = ent m pt (PX 0 va)"
  by (simp add: leaf_def ent_def)

lemma some_leafI: "P (leaf m l pt va) \<Longrightarrow> \<not> P 0 \<Longrightarrow> some_leaf P m l pt"
proof (induction l arbitrary: pt)
  case 0
  then show ?case using PX_less by (auto simp: leaf_0)
next
  case (Suc l)
  let ?e = "ent m pt (PX (Suc l) va)"
  have v: "pte_valid ?e"
  proof (rule ccontr)
    assume "\<not> pte_valid ?e"
    then have "leaf m (Suc l) pt va = 0" by (simp add: leaf_def Let_def)
    with Suc.prems show False by simp
  qed
  with Suc.IH [of "PTE2PA ?e"] Suc.prems leaf_Suc [OF v] PX_less show ?case by auto
qed

lemma some_leafD:
  "some_leaf P m l pt \<Longrightarrow> \<exists>n < 512 ^ Suc l. \<forall>va. unat va div 4096 mod 512 ^ Suc l = n \<longrightarrow> P (leaf m l pt va)"
proof (induction l arbitrary: pt)
  case 0
  then obtain i where i: "i < 512" "P (ent m pt i)" by auto
  have "PX 0 va = i" if "unat va div 4096 mod 512 = unat i" for va
    using that by (simp add: word_unat_eq_iff PX_nat)
  then show ?case using i unat_index [OF i(1)]
    by (intro exI [of _ "unat i"]) (auto simp: leaf_0)
next
  case (Suc l)
  then obtain i where i: "i < 512" "pte_valid (ent m pt i)" "some_leaf P m l (PTE2PA (ent m pt i))" by auto
  let ?B = "512 ^ Suc l :: nat"
  obtain n where n: "n < ?B" "\<forall>va. unat va div 4096 mod ?B = n \<longrightarrow> P (leaf m l (PTE2PA (ent m pt i)) va)"
    using Suc.IH [OF i(3)] by blast
  have "P (leaf m (Suc l) pt va)" if va: "unat va div 4096 mod (?B * 512) = n + ?B * unat i" for va
  proof -
    let ?v = "unat va div 4096"
    have "?v mod (?B * 512) = ?B * (?v div ?B mod 512) + ?v mod ?B" by (rule mod_mult2_eq)
    with va have e: "?B * (?v div ?B mod 512) + ?v mod ?B = ?B * unat i + n" by simp
    have dm: "(?B * x + y) mod ?B = y \<and> (?B * x + y) div ?B = x" if "y < ?B" for x y :: nat
      using that by (simp del: power_Suc)
    have "?v mod ?B < ?B" by simp
    from dm [OF this, of "?v div ?B mod 512"] dm [OF n(1), of "unat i"] e
    have "?v mod ?B = n" "?v div ?B mod 512 = unat i" by metis+
    moreover have "2 ^ (12 + 9 * Suc l) = (4096 :: nat) * ?B"
    proof -
      have "(2 :: nat) ^ (9 * Suc l) = ?B" unfolding power_mult by simp
      then show ?thesis by (simp only: power_add) simp
    qed
    then have "unat (PX (Suc l) va) = ?v div ?B mod 512"
      unfolding PX_nat by (simp only: div_mult2_eq)
    ultimately have "PX (Suc l) va = i" and "P (leaf m l (PTE2PA (ent m pt i)) va)"
      using n(2) by (auto simp: word_unat_eq_iff)
    with i(2) show ?thesis using leaf_Suc by simp
  qed
  moreover have "n + ?B * unat i < 512 ^ Suc (Suc l)"
  proof -
    have "unat i \<le> 511" using unat_index [OF i(1)] by simp
    then have "?B * unat i \<le> ?B * 511" by (rule mult_le_mono2)
    then have "n + ?B * unat i < ?B * 512" using n(1) by linarith
    then show ?thesis by (simp add: mult.commute)
  qed
  moreover have "512 ^ Suc (Suc l) = ?B * (512 :: nat)" by simp
  ultimately show ?case by metis
qed

lemma some_leaf_iff:
  assumes "\<not> P 0"
  shows "some_leaf P m 2 pt \<longleftrightarrow> (\<exists>va. unat va < 2 ^ 39 \<and> P (leaf m 2 pt va))"
proof
  assume "some_leaf P m 2 pt"
  then obtain n where n: "n < 512 ^ Suc 2" "\<forall>va. unat va div 4096 mod 512 ^ Suc 2 = n \<longrightarrow> P (leaf m 2 pt va)"
    using some_leafD by blast
  let ?va = "of_nat (4096 * n) :: u64"
  have u: "unat ?va = 4096 * n" using n(1) by (simp only: unat_of_nat) simp
  then have "unat ?va div 4096 mod 512 ^ Suc 2 = n" using n(1) by simp
  with n u show "\<exists>va. unat va < 2 ^ 39 \<and> P (leaf m 2 pt va)" by (intro exI [of _ ?va]) simp
next
  assume "\<exists>va. unat va < 2 ^ 39 \<and> P (leaf m 2 pt va)"
  then show "some_leaf P m 2 pt" using some_leafI assms by blast
qed

lemma index_ex: "(\<exists>i < (512 :: u64). Q i) \<longleftrightarrow> (\<exists>k < 512. Q (of_nat k))"
proof
  assume "\<exists>i < (512 :: u64). Q i"
  then obtain i where "i < 512" "Q i" by blast
  then show "\<exists>k < 512. Q (of_nat k)" using unat_index by (intro exI [of _ "unat i"]) simp
next
  assume "\<exists>k < 512. Q (of_nat k)"
  then obtain k where "k < 512" "Q (of_nat k)" by blast
  then show "\<exists>i < (512 :: u64). Q i"
    by (intro exI [of _ "of_nat k"]) (simp add: word_less_nat_alt unat_of_nat)
qed

lemma index_less: "k < 512 \<Longrightarrow> (of_nat k :: u64) < 512"
  by (simp add: word_less_nat_alt unat_of_nat)

lemma index_inj: "k < 512 \<Longrightarrow> j < 512 \<Longrightarrow> (of_nat k :: u64) = of_nat j \<longleftrightarrow> k = j"
  by (simp add: word_unat_eq_iff unat_of_nat)

text \<open>The entries \<open>freewalk\<close> recurses into, and those it panics on.\<close>

abbreviation pte_perm :: "u64 \<Rightarrow> bool" where
  "pte_perm e \<equiv> e AND (PTE_R OR PTE_W OR PTE_X) \<noteq> 0"

lemma interior_no_perm: "PTE_FLAGS e = PTE_V \<Longrightarrow> \<not> pte_perm e"
proof -
  assume "PTE_FLAGS e = PTE_V"
  then have f: "e AND 0x3FF = 1" by (simp add: PTE_FLAGS_def pte_flag_values)
  have "e AND 0xE = (e AND 0x3FF) AND 0xE" by (simp add: and.assoc)
  also have "\<dots> = 0" unfolding f by simp
  finally show ?thesis by (simp add: pte_flag_values)
qed

definition owned_tbl :: "'a mstate_scheme \<Rightarrow> nat \<Rightarrow> u64 \<Rightarrow> bool" where
  "owned_tbl s l pt \<longleftrightarrow> tbl_inv s l pt \<and> (\<forall>p \<in> tpages (pmem s) l pt. valid_page s p)"

definition freed :: "'a mstate_scheme \<Rightarrow> u64 set \<Rightarrow> 'a mstate_scheme \<Rightarrow> bool" where
  "freed s P s' \<longleftrightarrow> kmem_ok s' \<and> only_mem s s' \<and> kmem_avail s' = kmem_avail s \<union> P \<and> only_in P (pmem s) (pmem s')"

lemma kfree_freed:
  assumes "kmem_ok s" and "valid_page s p" and "p \<notin> kmem_avail s"
  obtains s' where "kfree p s = Inr s'" "freed s {p} s'"
  using kmem.free_page [OF assms] that by (auto simp: freed_def only_in_def)

lemma freed_trans: "freed s P s' \<Longrightarrow> freed s' Q s'' \<Longrightarrow> freed s (P \<union> Q) s''"
  unfolding freed_def using only_mem_trans [of s s' s''] only_in_trans [OF only_in_mono only_in_mono, of P "pmem s" "pmem s'" "P \<union> Q" Q "pmem s''"]
  by auto

text \<open>
  The loop at an interior table. \<open>fw_inv\<close> holds after the first \<open>k\<close> entries: their subtrees
  have been freed, the rest of the table is as it was.
\<close>

definition sub :: "memory \<Rightarrow> nat \<Rightarrow> u64 \<Rightarrow> nat \<Rightarrow> u64 set" where
  "sub m l pt k = (\<Union>j \<in> {j. j < k \<and> pte_valid (ent m pt (of_nat j))}. tpages m l (PTE2PA (ent m pt (of_nat j))))"

lemma sub_0 [simp]: "sub m l pt 0 = {}"
  by (simp add: sub_def)

lemma sub_Suc:
  "sub m l pt (Suc k) = sub m l pt k \<union>
     (if pte_valid (ent m pt (of_nat k)) then tpages m l (PTE2PA (ent m pt (of_nat k))) else {})"
  by (auto simp: sub_def less_Suc_eq)

lemma tpages_sub: "tpages m (Suc l) pt = insert pt (sub m l pt 512)"
proof -
  have "(\<exists>i < (512 :: u64). pte_valid (ent m pt i) \<and> x \<in> tpages m l (PTE2PA (ent m pt i))) \<longleftrightarrow>
      (\<exists>k < 512. pte_valid (ent m pt (of_nat k)) \<and> x \<in> tpages m l (PTE2PA (ent m pt (of_nat k))))" for x
    by (rule index_ex)
  then show ?thesis by (auto simp: sub_def tpages.simps(2))
qed

lemma sub_disjoint:
  assumes "wf_tbl m (Suc l) pt" and "k < 512" and "pte_valid (ent m pt (of_nat k))"
  shows "sub m l pt k \<inter> tpages m l (PTE2PA (ent m pt (of_nat k))) = {}"
proof -
  have "tpages m l (PTE2PA (ent m pt (of_nat j))) \<inter> tpages m l (PTE2PA (ent m pt (of_nat k))) = {}"
    if "j < k" "pte_valid (ent m pt (of_nat j))" for j
    using wf_disjoint [OF assms(1) index_less [of j] index_less [OF assms(2)] _ that(2) assms(3)]
      index_inj [of j k] that assms(2) by simp
  then show ?thesis by (auto simp: sub_def)
qed

lemma sub_below: "k \<le> 512 \<Longrightarrow> sub m l pt k \<subseteq> tpages m (Suc l) pt"
  unfolding tpages_sub sub_def by (rule subset_insertI2, rule UN_mono) auto

lemma pt_notin_sub: "wf_tbl m (Suc l) pt \<Longrightarrow> k \<le> 512 \<Longrightarrow> pt \<notin> sub m l pt k"
  using wf_child(3) [OF _ index_less] by (fastforce simp: sub_def)

definition fw_inv :: "'a mstate_scheme \<Rightarrow> nat \<Rightarrow> u64 \<Rightarrow> nat \<Rightarrow> 'a mstate_scheme \<Rightarrow> bool" where
  "fw_inv s l pt k t \<longleftrightarrow> kmem_ok t \<and> only_mem s t \<and> kmem_avail t = kmem_avail s \<union> sub (pmem s) l pt k
     \<and> only_in (insert pt (sub (pmem s) l pt k)) (pmem s) (pmem t)
     \<and> (\<forall>j. k \<le> j \<longrightarrow> j < 512 \<longrightarrow> ent (pmem t) pt (of_nat j) = ent (pmem s) pt (of_nat j))"

lemma owned_wf: "owned_tbl s l pt \<Longrightarrow> wf_tbl (pmem s) l pt"
  by (simp add: owned_tbl_def tbl_inv_def)

lemma fw_inv_child:
  assumes o: "owned_tbl s (Suc l) pt" and inv: "fw_inv s l pt k t" and k: "k < 512"
    and v: "pte_valid (ent (pmem s) pt (of_nat k))"
  defines "c \<equiv> PTE2PA (ent (pmem s) pt (of_nat k))"
  shows "agree (tpages (pmem s) l c) (pmem s) (pmem t)" "owned_tbl t l c"
proof -
  let ?m = "pmem s"
  note wf = owned_wf [OF o]
  have sub: "tpages ?m l c \<subseteq> tpages ?m (Suc l) pt"
    unfolding c_def by (rule tpages_child [OF index_less [OF k] v])
  have dj: "sub ?m l pt k \<inter> tpages ?m l c = {}" unfolding c_def by (rule sub_disjoint [OF wf k v])
  have pt: "pt \<notin> tpages ?m l c" unfolding c_def by (rule wf_child(3) [OF wf index_less [OF k] v])
  have le: "sub ?m l pt k \<subseteq> tpages ?m (Suc l) pt" by (rule sub_below) (use k in simp)
  show g: "agree (tpages ?m l c) ?m (pmem t)"
  proof (rule only_in_agree)
    show "only_in (insert pt (sub ?m l pt k)) ?m (pmem t)" using inv by (simp add: fw_inv_def)
    show "insert pt (sub ?m l pt k) \<inter> tpages ?m l c = {}" using dj pt by blast
    fix p assume "p \<in> insert pt (sub ?m l pt k) \<union> tpages ?m l c"
    then have "p \<in> tpages ?m (Suc l) pt" using le sub tpages_self by blast
    then show "page_aligned p" using wf_pages [OF wf] by blast
  qed
  have av: "tpages ?m (Suc l) pt \<inter> kmem_avail s = {}" and vp: "\<forall>p \<in> tpages ?m (Suc l) pt. valid_page s p"
    using o by (auto simp: owned_tbl_def tbl_inv_def)
  have "wf_tbl ?m l c" unfolding c_def by (rule wf_child(2) [OF wf index_less [OF k] v])
  moreover have "kmem_ok t" "only_mem s t" "kmem_avail t = kmem_avail s \<union> sub ?m l pt k"
    using inv by (simp_all add: fw_inv_def)
  ultimately show "owned_tbl t l c"
    using av sub dj vp only_mem_simps(10) [of s t] tbl_congs(1,2) [OF g]
    unfolding owned_tbl_def tbl_inv_def by auto
qed

lemma fw_step:
  assumes o: "owned_tbl s (Suc l) pt" and inv: "fw_inv s l pt k t" and k: "k < 512"
    and v: "pte_valid (ent (pmem s) pt (of_nat k))"
    and f: "freed t (tpages (pmem s) l (PTE2PA (ent (pmem s) pt (of_nat k)))) t1"
  shows "fw_inv s l pt (Suc k) (set_mem (st64 (pmem t1) (pt + 8 * of_nat k) 0) t1)"
proof -
  let ?m = "pmem s" and ?c = "PTE2PA (ent (pmem s) pt (of_nat k))" and ?m2 = "st64 (pmem t1) (pt + 8 * of_nat k) 0"
  note wf = owned_wf [OF o]
  have T: "kmem_ok t" "only_mem s t" "kmem_avail t = kmem_avail s \<union> sub ?m l pt k"
      "only_in (insert pt (sub ?m l pt k)) ?m (pmem t)"
      "\<And>j. k \<le> j \<Longrightarrow> j < 512 \<Longrightarrow> ent (pmem t) pt (of_nat j) = ent ?m pt (of_nat j)"
    using inv by (auto simp: fw_inv_def)
  have T1: "kmem_ok t1" "only_mem t t1" "kmem_avail t1 = kmem_avail t \<union> tpages ?m l ?c"
      "only_in (tpages ?m l ?c) (pmem t) (pmem t1)"
    using f by (auto simp: freed_def)
  have S: "sub ?m l pt (Suc k) = sub ?m l pt k \<union> tpages ?m l ?c" using v by (simp add: sub_Suc)
  have le: "sub ?m l pt (Suc k) \<subseteq> tpages ?m (Suc l) pt" by (rule sub_below) (use k in simp)
  have al: "page_aligned p" if "p \<in> tpages ?m (Suc l) pt" for p using wf_pages [OF wf that] by blast
  have pt: "pt \<notin> sub ?m l pt (Suc k)" by (rule pt_notin_sub [OF wf]) (use k in simp)
  have ptav: "pt \<notin> kmem_avail t1"
    using pt o tpages_self [of pt ?m "Suc l"] unfolding T1(3) T(3) S by (auto simp: owned_tbl_def tbl_inv_def)
  have o2: "only_in {pt} (pmem t1) ?m2" using st64_only_in [OF _ index_less [OF k], of pt "{pt}"] by simp
  have "agree (kmem_avail t1) (pmem t1) ?m2"
    by (rule only_in_agree [OF o2]) (use ptav al tpages_self kmem_avail_pages [OF T1(1)] in auto)
  then have K: "kmem_ok (set_mem ?m2 t1)" "kmem_avail (set_mem ?m2 t1) = kmem_avail t1"
    using kmem_mem_upd [OF T1(1), of ?m2] by (auto simp: agree_def)
  have "only_in (insert pt (sub ?m l pt (Suc k))) ?m ?m2"
    by (rule only_in_trans [OF only_in_mono [OF T(4)] only_in_trans [OF only_in_mono [OF T1(4)] only_in_mono [OF o2]]])
      (auto simp: S)
  moreover have "ent ?m2 pt (of_nat j) = ent ?m pt (of_nat j)" if j: "Suc k \<le> j" "j < 512" for j
  proof -
    have "agree {pt} (pmem t) (pmem t1)"
      by (rule only_in_agree [OF T1(4)]) (use pt S al le tpages_self in auto)
    then have "ent (pmem t1) pt (of_nat j) = ent (pmem t) pt (of_nat j)"
      by (rule agree_ent) (use index_less [OF j(2)] in auto)
    then show ?thesis
      using j k T(5) [of j] index_inj [of j k] by (simp add: ent_st64 index_less)
  qed
  moreover have "only_mem s (set_mem ?m2 t1)"
    by (rule only_mem_trans [OF only_mem_trans [OF T(2) T1(2)] only_mem_upd])
  ultimately show ?thesis
    unfolding fw_inv_def using K T1(3) T(3) S by auto
qed

text \<open>One round of the loop of \<open>freewalk\<close>.\<close>

definition fw_body :: "nat \<Rightarrow> u64 \<Rightarrow> nat \<Rightarrow> 'a mstate_scheme \<Rightarrow> fault + 'a mstate_scheme" where
  "fw_body d pt i s =
     (let e = ent (pmem s) pt (of_nat i)
      in if pte_valid e \<and> \<not> pte_perm e
         then bnd (freewalk_depth d (PTE2PA e) s) (\<lambda>s.
              Inr (set_mem (st64 (pmem s) (pt + 8 * of_nat i) 0) s))
         else if pte_valid e then Inl (Panic ''freewalk: leaf'') else Inr s)"

lemma freewalk_depth_body:
  fixes s :: "'a mstate_scheme"
  shows "freewalk_depth (Suc d) pt s = bnd (for_each [0..<512] (fw_body d pt) s) (kfree pt)"
proof -
  have "fw_body d pt = (\<lambda>i (s :: 'a mstate_scheme). let pte = ld64 (pmem s) (pt + 8 * of_nat i)
      in if pte AND PTE_V \<noteq> 0 \<and> pte AND (PTE_R OR PTE_W OR PTE_X) = 0
         then bnd (freewalk_depth d (PTE2PA pte) s) (\<lambda>s.
              Inr (set_mem (st64 (pmem s) (pt + 8 * of_nat i) 0) s))
         else if pte AND PTE_V \<noteq> 0 then Inl (Panic ''freewalk: leaf'') else Inr s)"
    by (intro ext) (simp add: fw_body_def ent_def Let_def)
  then show ?thesis by (simp only: freewalk_depth.simps)
qed

lemma some_leaf_cong: "agree (tpages m l pt) m m' \<Longrightarrow> some_leaf P m' l pt = some_leaf P m l pt"
proof (induction l arbitrary: pt)
  case 0
  then show ?case using agree_ent [OF 0 tpages_self] by auto
next
  case (Suc l)
  have e: "ent m' pt i = ent m pt i" if "i < 512" for i
    using that agree_ent [OF Suc.prems tpages_self] by blast
  have "some_leaf P m' l (PTE2PA (ent m pt i)) = some_leaf P m l (PTE2PA (ent m pt i))"
    if "i < 512" "pte_valid (ent m pt i)" for i
    by (rule Suc.IH [OF agree_mono [OF Suc.prems tpages_child [OF that]]])
  with e show ?case by (auto cong: conj_cong)
qed

abbreviation odd_leaf :: "u64 \<Rightarrow> bool" where
  "odd_leaf e \<equiv> pte_valid e \<and> \<not> pte_perm e"

lemma freewalk_leaf_table:
  assumes "owned_tbl s 0 pt" and "\<not> some_leaf odd_leaf (pmem s) 0 pt"
  shows "\<not> some_leaf pte_valid (pmem s) 0 pt \<Longrightarrow>
      \<exists>s'. freewalk_depth (Suc d) pt s = Inr s' \<and> freed s (tpages (pmem s) 0 pt) s'"
    and "some_leaf pte_valid (pmem s) 0 pt \<Longrightarrow> freewalk_depth (Suc d) pt s = Inl (Panic ''freewalk: leaf'')"
proof -
  let ?e = "\<lambda>k. ent (pmem s) pt (of_nat k)"
  have go: "fw_body d pt i t = Inr t" if "t = s" "\<not> pte_valid (?e i)" for i t
    using that by (simp add: fw_body_def)
  assume n: "\<not> some_leaf pte_valid (pmem s) 0 pt"
  then have "\<not> pte_valid (?e i)" if "i < 512" for i using that index_less by auto
  then have "\<exists>t. for_each [0..<512] (fw_body d pt) s = Inr t \<and> t = s"
    using go by (intro for_each_upt [where I = "\<lambda>k t. t = s"]) auto
  moreover obtain s' where "kfree pt s = Inr s'" "freed s {pt} s'"
    by (rule kfree_freed [of s pt]) (use assms(1) in \<open>auto simp: owned_tbl_def tbl_inv_def\<close>)
  ultimately show "\<exists>s'. freewalk_depth (Suc d) pt s = Inr s' \<and> freed s (tpages (pmem s) 0 pt) s'"
    by (auto simp: freewalk_depth_body)
next
  let ?e = "\<lambda>k. ent (pmem s) pt (of_nat k)"
  assume "some_leaf pte_valid (pmem s) 0 pt"
  then have "\<exists>k < 512. pte_valid (?e k)" using index_ex by simp
  then obtain k where k: "k < 512" "pte_valid (?e k)" "\<And>j. j < k \<Longrightarrow> \<not> (j < 512 \<and> pte_valid (?e j))"
    using exists_least_iff [of "\<lambda>k. k < 512 \<and> pte_valid (?e k)"] by blast
  have p: "pte_perm (?e k)" using assms(2) k(2) index_less [OF k(1)] by auto
  have "for_each [0..<512] (fw_body d pt) s = Inl (Panic ''freewalk: leaf'')"
  proof (rule for_each_upt_fail [where I = "\<lambda>k t. t = s"])
    show "\<exists>s'. fw_body d pt i t = Inr s' \<and> s' = s" if "i < k" "t = s" for i t
      using that k by (simp add: fw_body_def)
    show "fw_body d pt k t = Inl (Panic ''freewalk: leaf'')" if "t = s" for t
      using that k(2) p by (simp add: fw_body_def)
  qed (use k in auto)
  then show "freewalk_depth (Suc d) pt s = Inl (Panic ''freewalk: leaf'')"
    by (simp add: freewalk_depth_body)
qed

lemma freewalk_spec:
  assumes "owned_tbl s l pt" and "\<not> some_leaf odd_leaf (pmem s) l pt"
  shows "(\<not> some_leaf pte_valid (pmem s) l pt \<longrightarrow>
        (\<exists>s'. freewalk_depth (Suc l) pt s = Inr s' \<and> freed s (tpages (pmem s) l pt) s'))
    \<and> (some_leaf pte_valid (pmem s) l pt \<longrightarrow> freewalk_depth (Suc l) pt s = Inl (Panic ''freewalk: leaf''))"
  using assms
proof (induction l arbitrary: pt s)
  case 0
  then show ?case using freewalk_leaf_table by blast
next
  case (Suc l)
  let ?m = "pmem s" and ?e = "\<lambda>k. ent (pmem s) pt (of_nat k)"
  let ?bad = "\<lambda>k. pte_valid (?e k) \<and> some_leaf pte_valid (pmem s) l (PTE2PA (?e k))"
  note wf = owned_wf [OF Suc.prems(1)]
  have cur: "ent (pmem t) pt (of_nat k) = ?e k" if "fw_inv s l pt k t" "k < 512" for k t
    using that by (simp add: fw_inv_def)
  have np: "\<not> pte_perm (?e k)" if "k < 512" "pte_valid (?e k)" for k
    by (rule interior_no_perm [OF wf_child(1) [OF wf index_less [OF that(1)] that(2)]])
  have child: "\<not> some_leaf pte_valid ?m l (PTE2PA (?e k)) \<Longrightarrow>
        \<exists>s'. freewalk_depth (Suc l) (PTE2PA (?e k)) t = Inr s' \<and> freed t (tpages ?m l (PTE2PA (?e k))) s'"
      "some_leaf pte_valid ?m l (PTE2PA (?e k)) \<Longrightarrow>
        freewalk_depth (Suc l) (PTE2PA (?e k)) t = Inl (Panic ''freewalk: leaf'')"
    if t: "fw_inv s l pt k t" "k < 512" "pte_valid (?e k)" for k t
  proof -
    note c = fw_inv_child [OF Suc.prems(1) t]
    have "\<not> some_leaf odd_leaf (pmem t) l (PTE2PA (?e k))"
      using Suc.prems(2) t(3) index_less [OF t(2)] unfolding some_leaf_cong [OF c(1)] by auto
    note ih = Suc.IH [OF c(2) this, unfolded some_leaf_cong [OF c(1)] tpages_cong [OF c(1)]]
    show "\<not> some_leaf pte_valid ?m l (PTE2PA (?e k)) \<Longrightarrow>
        \<exists>s'. freewalk_depth (Suc l) (PTE2PA (?e k)) t = Inr s' \<and> freed t (tpages ?m l (PTE2PA (?e k))) s'"
      "some_leaf pte_valid ?m l (PTE2PA (?e k)) \<Longrightarrow>
        freewalk_depth (Suc l) (PTE2PA (?e k)) t = Inl (Panic ''freewalk: leaf'')"
      using ih by blast+
  qed
  have I0: "fw_inv s l pt 0 s" using Suc.prems(1) by (simp add: fw_inv_def owned_tbl_def tbl_inv_def)
  have step: "\<exists>t'. fw_body (Suc l) pt k t = Inr t' \<and> fw_inv s l pt (Suc k) t'"
    if t: "fw_inv s l pt k t" "k < 512" "\<not> ?bad k" for k t
  proof (cases "pte_valid (?e k)")
    case True
    with child(1) [OF t(1,2) True] t(3) obtain t1 where
      "freewalk_depth (Suc l) (PTE2PA (?e k)) t = Inr t1" and f: "freed t (tpages ?m l (PTE2PA (?e k))) t1"
      by blast
    then have "fw_body (Suc l) pt k t = Inr (set_mem (st64 (pmem t1) (pt + 8 * of_nat k) 0) t1)"
      using True np [OF t(2) True] cur [OF t(1,2)] by (simp add: fw_body_def Let_def)
    with fw_step [OF Suc.prems(1) t(1,2) True f] show ?thesis by blast
  next
    case False
    then have "fw_body (Suc l) pt k t = Inr t" using cur [OF t(1,2)] by (simp add: fw_body_def Let_def)
    moreover have "fw_inv s l pt (Suc k) t" using t(1) False by (simp add: fw_inv_def sub_Suc)
    ultimately show ?thesis by blast
  qed
  have bad: "some_leaf pte_valid ?m (Suc l) pt \<longleftrightarrow> (\<exists>k < 512. ?bad k)"
    unfolding some_leaf.simps by (rule index_ex)
  show ?case
  proof (intro conjI impI)
    assume "\<not> some_leaf pte_valid ?m (Suc l) pt"
    then have nb: "\<not> ?bad k" if "k < 512" for k using bad that by blast
    obtain t where t: "for_each [0..<512] (fw_body (Suc l) pt) s = Inr t" "fw_inv s l pt 512 t"
      using for_each_upt [of "fw_inv s l pt" s 512 "fw_body (Suc l) pt", OF I0] step nb by blast
    have "pt \<notin> kmem_avail s" "valid_page s pt"
      using Suc.prems(1) tpages_self [of pt ?m "Suc l"] by (auto simp: owned_tbl_def tbl_inv_def)
    moreover have ft: "kmem_ok t" "only_mem s t" "kmem_avail t = kmem_avail s \<union> sub ?m l pt 512"
        "only_in (insert pt (sub ?m l pt 512)) ?m (pmem t)"
      using t(2) by (auto simp: fw_inv_def)
    ultimately have "valid_page t pt" "pt \<notin> kmem_avail t"
      using only_mem_simps(10) [OF ft(2)] pt_notin_sub [OF wf, of 512] by auto
    then obtain s' where s': "kfree pt t = Inr s'" "freed t {pt} s'" using kfree_freed [OF ft(1)] by blast
    have "freed s (tpages ?m (Suc l) pt) s'"
      using s'(2) ft only_mem_trans [OF ft(2), of s']
        only_in_trans [OF ft(4) only_in_mono [of "{pt}" "pmem t" "pmem s'"]]
      unfolding freed_def tpages_sub by auto
    moreover have "freewalk_depth (Suc (Suc l)) pt s = Inr s'"
      unfolding freewalk_depth_body [of "Suc l"] t(1) by (simp add: s'(1))
    ultimately show "\<exists>s'. freewalk_depth (Suc (Suc l)) pt s = Inr s' \<and> freed s (tpages ?m (Suc l) pt) s'" by blast
  next
    assume "some_leaf pte_valid ?m (Suc l) pt"
    then obtain k where k: "k < 512" "?bad k" "\<And>j. j < k \<Longrightarrow> \<not> (j < 512 \<and> ?bad j)"
      using exists_least_iff [of "\<lambda>k. k < 512 \<and> ?bad k"] unfolding bad by blast
    have "for_each [0..<512] (fw_body (Suc l) pt) s = Inl (Panic ''freewalk: leaf'')"
    proof (rule for_each_upt_fail [where I = "fw_inv s l pt", OF I0 _ _ k(1)])
      show "\<exists>s'. fw_body (Suc l) pt i t = Inr s' \<and> fw_inv s l pt (Suc i) s'" if "i < k" "fw_inv s l pt i t" for i t
        using step [OF that(2)] k(1,3) that(1) by simp
      show "fw_body (Suc l) pt k t = Inl (Panic ''freewalk: leaf'')" if "fw_inv s l pt k t" for t
        using child(2) [OF that k(1)] k np [of k] cur [OF that k(1)]
        by (simp add: fw_body_def Let_def)
    qed
    then show "freewalk_depth (Suc (Suc l)) pt s = Inl (Panic ''freewalk: leaf'')"
      unfolding freewalk_depth_body [of "Suc l"] by simp
  qed
qed

section \<open>Properties\<close>

text \<open>
  C7: \<open>freewalk\<close> on a well-formed table of allocated pages. If no leaf is valid any more the call
  returns with exactly the table's pages added to the free list (no leak and no double free);
  if a valid leaf is left anywhere the call panics with \<open>freewalk: leaf\<close>.
\<close>

theorem freewalk_frees_or_panics:
  assumes "tbl_inv s 2 pt" and "\<forall>p \<in> tpages (pmem s) 2 pt. valid_page s p"
    and "\<forall>x. unat x < 2 ^ 39 \<longrightarrow> pte_valid (leaf (pmem s) 2 pt x) \<longrightarrow> pte_perm (leaf (pmem s) 2 pt x)"
  shows "if \<exists>x. unat x < 2 ^ 39 \<and> pte_valid (leaf (pmem s) 2 pt x)
    then freewalk pt s = Inl (Panic ''freewalk: leaf'')
    else \<exists>s'. freewalk pt s = Inr s' \<and> kmem_ok s' \<and> kmem_avail s' = kmem_avail s \<union> tpages (pmem s) 2 pt
      \<and> only_mem s s' \<and> only_in (tpages (pmem s) 2 pt) (pmem s) (pmem s')"
proof -
  have o: "owned_tbl s 2 pt" using assms(1,2) by (simp add: owned_tbl_def)
  have "\<not> some_leaf odd_leaf (pmem s) 2 pt" using assms(3) by (subst some_leaf_iff) auto
  note sp = freewalk_spec [OF o this]
  have v: "some_leaf pte_valid (pmem s) 2 pt \<longleftrightarrow> (\<exists>x. unat x < 2 ^ 39 \<and> pte_valid (leaf (pmem s) 2 pt x))"
    by (rule some_leaf_iff) simp
  have d: "freewalk pt s = freewalk_depth (Suc 2) pt s" by (simp add: freewalk_def numeral_3_eq_3 numeral_2_eq_2)
  show ?thesis using sp unfolding v d freed_def by auto
qed

lemma freewalk_frees_or_panics_witness:
  "\<exists>s'. freewalk 0x87FFC000 vm_demo = Inr s'
     \<and> kmem_avail s' = {0x87FFF000, 0x87FFE000, 0x87FFD000, 0x87FFC000}"
proof -
  have "valid_page vm_demo 0x87FFC000"
    by (simp add: valid_page_def vm_demo_def kmem_one_def layout_values page_aligned_unat)
  then show ?thesis
    using freewalk_frees_or_panics [OF vm_demo_inv(1)] by (auto simp: vm_demo_inv)
qed

end
