(* ===== verification/Usermem.thy ===== *)
theory Usermem
  imports Pagetable
begin

text \<open>
  \<open>copyin\<close> and \<open>copyout\<close> of kernel/vm.c against a byte-wise specification: \<open>uva\<close> translates one
  user address, \<open>copyin\<close> returns the bytes at the translated addresses and \<open>copyout\<close> stores there,
  across page boundaries; an unmapped byte anywhere in the range makes both return -1.
\<close>

unbundle bit_operations_syntax

section \<open>Translation of user addresses\<close>

definition uva :: "memory \<Rightarrow> u64 \<Rightarrow> u64 \<Rightarrow> u64 option" where
  "uva m pt va =
     (let e = leaf m 2 pt va
      in if va < MAXVA \<and> pte_valid e \<and> e AND PTE_U \<noteq> 0 \<and> PTE2PA e \<noteq> 0
         then Some (PTE2PA e + (va - PGROUNDDOWN va)) else None)"

text \<open>The bytes \<open>bs\<close>, written one by one at the addresses \<open>as\<close>.\<close>

fun wr :: "memory \<Rightarrow> u64 list \<Rightarrow> u8 list \<Rightarrow> memory" where
  "wr m (a # as) (b # bs) = wr (m(a := b)) as bs"
| "wr m as bs = m"

lemma wr_append: "length as = length bs \<Longrightarrow> wr m (as @ as') (bs @ bs') = wr (wr m as bs) as' bs'"
  by (induction m as bs rule: wr.induct) auto

lemma wr_other: "x \<notin> set as \<Longrightarrow> wr m as bs x = m x"
  by (induction m as bs rule: wr.induct) auto

lemma wr_nth: "distinct as \<Longrightarrow> length as = length bs \<Longrightarrow> i < length as \<Longrightarrow> wr m as bs (as ! i) = bs ! i"
proof (induction m as bs arbitrary: i rule: wr.induct)
  case (1 m a as b bs)
  then show ?case by (cases i) (auto simp: wr_other simp del: fun_upd_apply intro: fun_upd_same)
qed auto

lemma store_bytes_wr: "store_bytes m a bs = wr m (map (\<lambda>i. a + of_nat i) [0..<length bs]) bs"
proof (induction bs arbitrary: m a)
  case (Cons b bs)
  have "map (\<lambda>i. a + of_nat i) [0..<length (b # bs)] = a # map (\<lambda>i. a + 1 + of_nat i) [0..<length bs]"
    by (simp add: upt_conv_Cons map_Suc_upt [symmetric] add.assoc del: upt_Suc)
  then show ?case by (simp add: Cons.IH del: upt_Suc fun_upd_apply)
qed simp

lemma bytes_map: "bytes m a n = map (\<lambda>i. m (a + of_nat i)) [0..<n]"
  by (rule nth_equalityI) (simp_all add: nth_bytes)

section \<open>One page at a time\<close>

lemma unat_va_add: "unat (va :: u64) + i < 2 ^ 64 \<Longrightarrow> unat (va + of_nat i) = unat va + i"
  by (simp add: unat_word_ariths unat_of_nat)

lemma va_less: "va < MAXVA \<longleftrightarrow> unat va < 2 ^ 38"
  by (simp add: layout_values word_less_nat_alt)

lemma chunk_page:
  assumes "i < chunk va len"
  shows "PGROUNDDOWN (va + of_nat i) = PGROUNDDOWN va"
proof -
  have i: "unat va mod 4096 + i < 4096" using assms by (simp add: chunk_eq) linarith
  moreover have "unat va div 4096 * 4096 + 4096 \<le> 2 ^ 64"
  proof -
    have "unat va div 4096 < 2 ^ 52" using unat_less_64 [of va] by simp
    then have "unat va div 4096 * 4096 \<le> (2 ^ 52 - 1) * 4096" by (intro mult_le_mono1) simp
    then show ?thesis by simp
  qed
  moreover have split: "unat va = unat va div 4096 * 4096 + unat va mod 4096" by simp
  ultimately have u: "unat (va + of_nat i) = unat va div 4096 * 4096 + (unat va mod 4096 + i)"
    by (subst unat_va_add) linarith+
  have "(q * 4096 + r) div 4096 = q" if "r < 4096" for q r :: nat using that by simp
  from this [OF i, of "unat va div 4096"] have "unat (va + of_nat i) div 4096 = unat va div 4096"
    by (simp only: u)
  then show ?thesis by (simp add: word_unat_eq_iff unat_PGROUNDDOWN)
qed

lemma chunk_uva:
  assumes "uva m pt va = Some a" and "i < chunk va len"
  shows "uva m pt (va + of_nat i) = Some (a + of_nat i)"
proof -
  note pg = chunk_page [OF assms(2)]
  have va: "unat va < 2 ^ 38" using assms(1)
    by (auto simp: uva_def Let_def va_less split: if_splits)
  have "unat (va + of_nat i) div 4096 = unat va div 4096"
    using pg by (simp add: word_unat_eq_iff unat_PGROUNDDOWN)
  moreover have "unat va div 4096 < 2 ^ 26" using va by simp
  ultimately have "unat (va + of_nat i) div 4096 < 2 ^ 26" by simp
  then have va': "unat (va + of_nat i) < 2 ^ 38" by simp
  have "leaf m 2 pt (va + of_nat i) = leaf m 2 pt va"
    using leaf_page [of va m pt] leaf_page [of "va + of_nat i" m pt] va va' pg by simp
  then show ?thesis
    using assms(1) va' pg by (auto simp: uva_def Let_def va_less algebra_simps split: if_splits)
qed

lemma chunk_next:
  assumes "chunk va len < len"
  shows "PGROUNDDOWN va + PGSIZE = va + of_nat (chunk va len)"
proof -
  have c: "chunk va len = 4096 - unat va mod 4096" using assms by (auto simp: chunk_eq)
  have "of_nat (chunk va len) = PGSIZE - (va - PGROUNDDOWN va)"
    unfolding c by (simp add: word_unat_eq_iff unat_of_nat unat_sub64 [of 4096] page_offset)
  then show ?thesis by simp
qed

lemma walkaddr_uva:
  assumes "wf_tbl (pmem s) 2 pt"
  shows "walkaddr pt (PGROUNDDOWN va) s = Inr (case uva (pmem s) pt va of None \<Rightarrow> 0 | Some a \<Rightarrow> a - (va - PGROUNDDOWN va))"
proof (cases "va < MAXVA")
  case True
  then have "unat va < 2 ^ 38" by (simp add: layout_values word_less_nat_alt)
  then have "unat (PGROUNDDOWN va) < 2 ^ 38" "unat va < 2 ^ 39"
    using PGROUNDDOWN_le [of va] by simp_all
  then have "\<not> MAXVA \<le> PGROUNDDOWN va" "leaf (pmem s) 2 pt (PGROUNDDOWN va) = leaf (pmem s) 2 pt va"
    using leaf_page [of va] by (simp_all add: layout_values word_le_nat_alt)
  then show ?thesis using True by (auto simp: walkaddr_eq [OF assms] uva_def Let_def)
next
  case False
  then have "2 ^ 38 \<le> unat va" by (simp add: layout_values word_less_nat_alt)
  then have "2 ^ 38 \<le> unat va div 4096 * 4096" by simp
  then have "MAXVA \<le> PGROUNDDOWN va" by (simp add: layout_values word_le_nat_alt unat_PGROUNDDOWN)
  then show ?thesis using False by (simp add: walkaddr_eq [OF assms] uva_def)
qed

section \<open>\<open>copyin\<close>\<close>

lemma uva_pa0:
  assumes "uva m pt va = Some a"
  shows "a - (va - PGROUNDDOWN va) \<noteq> 0"
  using assms by (auto simp: uva_def Let_def split: if_splits)

lemma copyin_ok:
  "wf_tbl (pmem s) 2 pt \<Longrightarrow> (\<And>i. i < len \<Longrightarrow> uva (pmem s) pt (va + of_nat i) = Some (f i)) \<Longrightarrow>
     copyin pt va len s = Inr (0, map (\<lambda>i. pmem s (f i)) [0..<len])"
proof (induction pt va len s arbitrary: f rule: copyin.induct)
  case (1 pt va len s)
  show ?case
  proof (cases "len = 0")
    case False
    let ?n = "chunk va len"
    have n: "0 < ?n" "?n \<le> len" using chunk_pos [of len va] chunk_le False by auto
    have u: "uva (pmem s) pt va = Some (f 0)" using 1(3) [of 0] False by simp
    let ?pa = "f 0 - (va - PGROUNDDOWN va)"
    have w: "walkaddr pt (PGROUNDDOWN va) s = Inr ?pa" using walkaddr_uva [OF 1(2), of va] u by simp
    have fi: "f i = f 0 + of_nat i" if "i < ?n" for i
      using chunk_uva [OF u that] 1(3) [of i] that n by simp
    have ih: "copyin pt (PGROUNDDOWN va + PGSIZE) (len - ?n) s =
        Inr (0, map (\<lambda>i. pmem s (f (?n + i))) [0..<len - ?n])"
    proof (cases "?n < len")
      case True
      show ?thesis
      proof (rule 1(1) [OF False refl w uva_pa0 [OF u] refl 1(2)])
        fix i assume "i < len - ?n"
        then show "uva (pmem s) pt (PGROUNDDOWN va + PGSIZE + of_nat i) = Some (f (?n + i))"
          using 1(3) [of "?n + i"] unfolding chunk_next [OF True] by (simp add: add.assoc)
      qed
    next
      case False
      with n have "len - ?n = 0" by simp
      then show ?thesis by (simp add: copyin.simps)
    qed
    have "map (\<lambda>i. pmem s (f i)) [0..<len] = map (\<lambda>i. pmem s (f i)) [0..<?n] @ map (\<lambda>i. pmem s (f (?n + i))) [0..<len - ?n]"
      using n by (intro nth_equalityI) (auto simp: nth_append)
    moreover have "bytes (pmem s) (?pa + (va - PGROUNDDOWN va)) ?n = map (\<lambda>i. pmem s (f i)) [0..<?n]"
      unfolding bytes_map
    proof (rule map_cong [OF refl])
      fix i assume "i \<in> set [0..<?n]"
      then have "f i = f 0 + of_nat i" by (intro fi) simp
      then show "pmem s (?pa + (va - PGROUNDDOWN va) + of_nat i) = pmem s (f i)" by simp
    qed
    ultimately show ?thesis
      using False w uva_pa0 [OF u] ih by (subst copyin.simps) (simp add: Let_def)
  qed (simp add: copyin.simps)
qed

lemma copyin_bad:
  "wf_tbl (pmem s) 2 pt \<Longrightarrow> i < len \<Longrightarrow> uva (pmem s) pt (va + of_nat i) = None \<Longrightarrow>
     \<exists>bs. copyin pt va len s = Inr (- 1, bs)"
proof (induction pt va len s arbitrary: i rule: copyin.induct)
  case (1 pt va len s)
  let ?n = "chunk va len"
  have len: "len \<noteq> 0" using 1(3) by simp
  note W = walkaddr_uva [OF 1(2), of va]
  show ?case
  proof (cases "uva (pmem s) pt va")
    case None
    with W len show ?thesis by (subst copyin.simps) (simp add: Let_def)
  next
    case (Some a)
    let ?pa = "a - (va - PGROUNDDOWN va)"
    have w: "walkaddr pt (PGROUNDDOWN va) s = Inr ?pa" using W Some by simp
    have "\<not> i < ?n" using chunk_uva [OF Some, of i len] 1(4) by auto
    then have lt: "?n < len" "i - ?n < len - ?n" using 1(3) by auto
    have "uva (pmem s) pt (PGROUNDDOWN va + PGSIZE + of_nat (i - ?n)) = None"
    proof -
      have "va + of_nat ?n + of_nat (i - ?n) = va + of_nat i"
        using \<open>\<not> i < ?n\<close> by (simp add: of_nat_diff)
      then show ?thesis using 1(4) unfolding chunk_next [OF lt(1)] by (simp only:)
    qed
    from 1(1) [OF len refl w uva_pa0 [OF Some] refl 1(2) lt(2) this] obtain bs where
      "copyin pt (PGROUNDDOWN va + PGSIZE) (len - ?n) s = Inr (- 1, bs)" by blast
    with w uva_pa0 [OF Some] len show ?thesis by (subst copyin.simps) (simp add: Let_def)
  qed
qed

section \<open>\<open>copyout\<close>\<close>

lemma uva_cong: "agree (tpages m 2 pt) m m' \<Longrightarrow> uva m' pt va = uva m pt va"
  by (simp add: uva_def leaf_cong)

text \<open>Writes to data pages leave the table alone.\<close>

lemma wr_agree:
  assumes "\<And>p. p \<in> P \<Longrightarrow> page_aligned p" and "\<And>a. a \<in> set as \<Longrightarrow> PGROUNDDOWN a \<notin> P"
  shows "agree P m (wr m as bs)"
  unfolding agree_def
proof (intro ballI allI impI)
  fix p a assume p: "p \<in> P" and a: "in_page p a"
  then have "PGROUNDDOWN a \<in> P" using in_page_iff [OF assms(1) [OF p]] by simp
  then have "a \<notin> set as" using assms(2) by blast
  then show "wr m as bs a = m a" by (rule wr_other)
qed

lemma copyout_ok:
  "wf_tbl (pmem s) 2 pt \<Longrightarrow> (\<And>i. i < length src \<Longrightarrow> uva (pmem s) pt (va + of_nat i) = Some (f i)) \<Longrightarrow>
     (\<And>i. i < length src \<Longrightarrow> PGROUNDDOWN (f i) \<notin> tpages (pmem s) 2 pt) \<Longrightarrow>
     copyout pt va src s = Inr (0, set_mem (wr (pmem s) (map f [0..<length src]) src) s)"
proof (induction pt va src s arbitrary: f rule: copyout.induct)
  case (1 pt va src s)
  show ?case
  proof (cases "src = []")
    case False
    let ?len = "length src"
    let ?n = "chunk va ?len"
    have n: "0 < ?n" "?n \<le> ?len" using chunk_pos [of ?len va] chunk_le False by auto
    have u: "uva (pmem s) pt va = Some (f 0)" using 1(3) [of 0] False by simp
    let ?pa = "f 0 - (va - PGROUNDDOWN va)"
    have w: "walkaddr pt (PGROUNDDOWN va) s = Inr ?pa" using walkaddr_uva [OF 1(2), of va] u by simp
    have fi: "map (\<lambda>i. ?pa + (va - PGROUNDDOWN va) + of_nat i) [0..<?n] = map f [0..<?n]"
    proof (rule map_cong [OF refl])
      fix i assume "i \<in> set [0..<?n]"
      then have "i < ?n" by simp
      then show "?pa + (va - PGROUNDDOWN va) + of_nat i = f i"
        using chunk_uva [OF u] 1(3) [of i] n by simp
    qed
    define m1 where "m1 = wr (pmem s) (map f [0..<?n]) (take ?n src)"
    have st: "store_bytes (pmem s) (?pa + (va - PGROUNDDOWN va)) (take ?n src) = m1"
    proof -
      have l: "length (take ?n src) = ?n" using n by simp
      show ?thesis unfolding store_bytes_wr m1_def l fi by (rule refl)
    qed
    have ag: "agree (tpages (pmem s) 2 pt) (pmem s) m1"
      unfolding m1_def by (rule wr_agree) (use wf_pages [OF 1(2)] 1(4) n in auto)
    have ih: "copyout pt (PGROUNDDOWN va + PGSIZE) (drop ?n src) (set_mem m1 s) =
        Inr (0, set_mem (wr m1 (map (\<lambda>i. f (?n + i)) [0..<?len - ?n]) (drop ?n src)) (set_mem m1 s))"
    proof (cases "?n < ?len")
      case True
      have "copyout pt (PGROUNDDOWN va + PGSIZE) (drop ?n src) (set_mem m1 s) = Inr (0, set_mem
          (wr (pmem (set_mem m1 s)) (map (\<lambda>i. f (?n + i)) [0..<length (drop ?n src)]) (drop ?n src)) (set_mem m1 s))"
      proof (rule 1(1) [OF False refl w uva_pa0 [OF u] refl])
        show "set_mem m1 s = set_mem (store_bytes (pmem s) (?pa + (va - PGROUNDDOWN va)) (take ?n src)) s"
          by (simp only: st)
        show "wf_tbl (pmem (set_mem m1 s)) 2 pt" using 1(2) wf_tbl_cong [OF ag] by simp
        fix i assume i: "i < length (drop ?n src)"
        then show "uva (pmem (set_mem m1 s)) pt (PGROUNDDOWN va + PGSIZE + of_nat i) = Some (f (?n + i))"
          using 1(3) [of "?n + i"] uva_cong [OF ag] unfolding chunk_next [OF True] by (simp add: add.assoc)
        show "PGROUNDDOWN (f (?n + i)) \<notin> tpages (pmem (set_mem m1 s)) 2 pt"
          using 1(4) [of "?n + i"] i tpages_cong [OF ag] by simp
      qed
      then show ?thesis by simp
    next
      case False
      with n have "drop ?n src = []" by simp
      then show ?thesis by (simp add: copyout.simps)
    qed
    have "map f [0..<?len] = map f [0..<?n] @ map (\<lambda>i. f (?n + i)) [0..<?len - ?n]"
      using n by (intro nth_equalityI) (auto simp: nth_append)
    then have "wr (pmem s) (map f [0..<?len]) src = wr m1 (map (\<lambda>i. f (?n + i)) [0..<?len - ?n]) (drop ?n src)"
      using n wr_append [of "map f [0..<?n]" "take ?n src" "pmem s" _ "drop ?n src"] by (simp add: m1_def)
    then show ?thesis
      using False w uva_pa0 [OF u] ih st by (subst copyout.simps) (simp add: Let_def)
  qed (simp add: copyout.simps)
qed

text \<open>A destination with an unmapped byte is an error, and only data before it has been written.\<close>

lemma copyout_bad:
  "wf_tbl (pmem s) 2 pt \<Longrightarrow> i < length src \<Longrightarrow> uva (pmem s) pt (va + of_nat i) = None \<Longrightarrow>
     (\<And>j a. j < length src \<Longrightarrow> uva (pmem s) pt (va + of_nat j) = Some a \<Longrightarrow> PGROUNDDOWN a \<notin> tpages (pmem s) 2 pt) \<Longrightarrow>
     \<exists>m. copyout pt va src s = Inr (- 1, set_mem m s) \<and> agree (tpages (pmem s) 2 pt) (pmem s) m"
proof (induction pt va src s arbitrary: i rule: copyout.induct)
  case (1 pt va src s)
  let ?len = "length src"
  let ?n = "chunk va ?len"
  have src: "src \<noteq> []" using 1(3) by auto
  note W = walkaddr_uva [OF 1(2), of va]
  show ?case
  proof (cases "uva (pmem s) pt va")
    case None
    have "s = set_mem (pmem s) s" by simp
    moreover have "agree (tpages (pmem s) 2 pt) (pmem s) (pmem s)" by (simp add: agree_def)
    moreover have "copyout pt va src s = Inr (- 1, s)"
      using None W src by (subst copyout.simps) (simp add: Let_def)
    ultimately show ?thesis by metis
  next
    case (Some a)
    let ?pa = "a - (va - PGROUNDDOWN va)"
    let ?as = "map (\<lambda>i. a + of_nat i) [0..<?n]"
    have w: "walkaddr pt (PGROUNDDOWN va) s = Inr ?pa" using W Some by simp
    have i: "\<not> i < ?n" using chunk_uva [OF Some, of i ?len] 1(4) by auto
    then have lt: "?n < ?len" "i - ?n < length (drop ?n src)" using 1(3) by auto
    define m1 where "m1 = wr (pmem s) ?as (take ?n src)"
    have st: "store_bytes (pmem s) (?pa + (va - PGROUNDDOWN va)) (take ?n src) = m1"
      unfolding store_bytes_wr m1_def using lt by (simp add: min_absorb2)
    have ag: "agree (tpages (pmem s) 2 pt) (pmem s) m1"
      unfolding m1_def
    proof (rule wr_agree)
      fix b assume "b \<in> set ?as"
      then obtain j where j: "j < ?n" "b = a + of_nat j" by auto
      then show "PGROUNDDOWN b \<notin> tpages (pmem s) 2 pt"
        using chunk_uva [OF Some j(1)] 1(5) [of j b] lt by auto
    qed (use wf_pages [OF 1(2)] in blast)
    have nx: "uva (pmem (set_mem m1 s)) pt (PGROUNDDOWN va + PGSIZE + of_nat k) = uva (pmem s) pt (va + of_nat (?n + k))" for k
      unfolding chunk_next [OF lt(1)] using uva_cong [OF ag] by (simp add: add.assoc)
    have "\<exists>m. copyout pt (PGROUNDDOWN va + PGSIZE) (drop ?n src) (set_mem m1 s) = Inr (- 1, set_mem m (set_mem m1 s))
        \<and> agree (tpages (pmem (set_mem m1 s)) 2 pt) (pmem (set_mem m1 s)) m"
    proof (rule 1(1) [OF src refl w uva_pa0 [OF Some] refl _ _ lt(2)])
      show "set_mem m1 s = set_mem (store_bytes (pmem s) (?pa + (va - PGROUNDDOWN va)) (take ?n src)) s"
        by (simp only: st)
      show "wf_tbl (pmem (set_mem m1 s)) 2 pt" using 1(2) wf_tbl_cong [OF ag] by simp
      show "uva (pmem (set_mem m1 s)) pt (PGROUNDDOWN va + PGSIZE + of_nat (i - ?n)) = None"
        unfolding nx using i 1(4) by simp
      fix j b assume "j < length (drop ?n src)"
        "uva (pmem (set_mem m1 s)) pt (PGROUNDDOWN va + PGSIZE + of_nat j) = Some b"
      then show "PGROUNDDOWN b \<notin> tpages (pmem (set_mem m1 s)) 2 pt"
        unfolding nx using 1(5) [of "?n + j" b] tpages_cong [OF ag] by simp
    qed
    then obtain m where m: "copyout pt (PGROUNDDOWN va + PGSIZE) (drop ?n src) (set_mem m1 s) = Inr (- 1, set_mem m s)"
        "agree (tpages (pmem s) 2 pt) m1 m"
      using tpages_cong [OF ag] by auto
    have "agree (tpages (pmem s) 2 pt) (pmem s) m" using ag m(2) by (simp add: agree_def)
    moreover have "copyout pt va src s = Inr (- 1, set_mem m s)"
      using w uva_pa0 [OF Some] src m(1) st by (subst copyout.simps) (simp add: Let_def)
    ultimately show ?thesis by blast
  qed
qed

section \<open>Properties\<close>

text \<open>
  C8: what is copied out is read back. If every destination byte is a mapped user byte (each at
  its own physical address, none inside the page tables), \<open>copyout\<close> returns 0, changes no other
  byte, and any address space that maps the same physical bytes, the same one or another, then
  reads exactly the bytes written with \<open>copyin\<close>.
\<close>

theorem copyout_copyin_shared:
  assumes wf: "wf_tbl (pmem s) 2 pt" "wf_tbl (pmem s) 2 pt'"
    and at: "\<forall>i < length bs. uva (pmem s) pt (va + of_nat i) = Some (f i)"
      "\<forall>i < length bs. uva (pmem s) pt' (va' + of_nat i) = Some (f i)"
    and data: "\<forall>i < length bs. PGROUNDDOWN (f i) \<notin> tpages (pmem s) 2 pt \<union> tpages (pmem s) 2 pt'"
    and inj: "inj_on f {..<length bs}"
  shows "\<exists>s'. copyout pt va bs s = Inr (0, s') \<and> copyin pt' va' (length bs) s' = Inr (0, bs)
    \<and> (\<forall>a. a \<notin> f ` {..<length bs} \<longrightarrow> pmem s' a = pmem s a)"
proof -
  let ?n = "length bs"
  let ?m = "wr (pmem s) (map f [0..<?n]) bs"
  have out: "copyout pt va bs s = Inr (0, set_mem ?m s)"
    by (rule copyout_ok [OF wf(1)]) (use at(1) data in auto)
  have ag: "agree (tpages (pmem s) 2 pt') (pmem s) ?m"
    by (rule wr_agree) (use wf_pages [OF wf(2)] data in auto)
  have "copyin pt' va' ?n (set_mem ?m s) = Inr (0, map (\<lambda>i. pmem (set_mem ?m s) (f i)) [0..<?n])"
    by (rule copyin_ok) (use wf(2) wf_tbl_cong [OF ag] at(2) uva_cong [OF ag] in auto)
  moreover have "?m (f i) = bs ! i" if "i < ?n" for i
  proof -
    have "distinct (map f [0..<?n])" using inj by (simp add: distinct_map atLeast0LessThan)
    from wr_nth [OF this, of bs i "pmem s"] that show ?thesis by simp
  qed
  then have "map (\<lambda>i. pmem (set_mem ?m s) (f i)) [0..<?n] = bs" by (intro nth_equalityI) auto
  moreover have "\<forall>a. a \<notin> f ` {..<?n} \<longrightarrow> ?m a = pmem s a" using wr_other [of _ "map f [0..<?n]"] by (auto simp: atLeast0LessThan)
  ultimately show ?thesis using out by auto
qed

text \<open>A table with one user page, at 0x3000, on the frame 0x80042000.\<close>

lemma one_user_page_tbl:
  obtains s :: mstate where "wf_tbl (pmem s) 2 0x87FFC000"
    "\<And>i. i < 4096 \<Longrightarrow> uva (pmem s) 0x87FFC000 (0x3000 + of_nat i) = Some (0x80042000 + of_nat i)"
    "\<And>i. i < 4096 \<Longrightarrow> PGROUNDDOWN (0x80042000 + of_nat i) \<notin> tpages (pmem s) 2 0x87FFC000"
    "tpages (pmem s) 2 0x87FFC000 \<subseteq> {0x87FFC000, 0x87FFF000, 0x87FFE000, 0x87FFD000}"
proof -
  let ?pt = "0x87FFC000" and ?perm = "PTE_R OR PTE_W OR PTE_U"
  let ?e = "PA2PTE 0x80042000 OR ?perm OR PTE_V"
  have al: "page_aligned 0x3000" "page_aligned 0x80042000" by (simp_all add: page_aligned_unat)
  from mappages_loop_spec [OF vm_demo_inv(1) al(1), of 0 "0x3000" "0x80042000" ?perm]
  obtain r :: int and s where s: "tbl_step vm_demo ?pt s" "r = 0 \<or> r = -1"
      "r = 0 \<longrightarrow> (\<forall>va. unat va < 2 ^ 39 \<longrightarrow> leaf (pmem s) 2 ?pt va =
         (if in_pages 0x3000 (Suc 0) va then PA2PTE (0x80042000 + (PGROUNDDOWN va - 0x3000)) OR ?perm OR PTE_V
          else leaf (pmem vm_demo) 2 ?pt va))"
      "r = -1 \<longrightarrow> card (kmem_avail vm_demo) < 2"
    by (auto simp: vm_demo_inv(3))
  have r: "r = 0" using s(2,4) by (auto simp: vm_demo_inv)
  have pa: "PTE2PA ?e = 0x80042000"
    using PTE2PA_PA2PTE [OF al(2), of "?perm OR PTE_V"] by (simp add: pte_flag_values or.assoc)
  have lf: "leaf (pmem s) 2 ?pt 0x3000 = ?e"
    using s(3) r in_pages_1 [OF al(1), of "0x3000"] PGROUNDDOWN_aligned [OF al(1)] by simp
  have U: "?e AND PTE_U \<noteq> 0"
  proof -
    have "bit (?e AND PTE_U) 4" by (simp add: bit_and_iff bit_or_iff PTE_U_def bit_push_bit_iff)
    then show ?thesis by auto
  qed
  have u: "uva (pmem s) ?pt 0x3000 = Some 0x80042000"
    using lf U pa or_valid [of "PA2PTE 0x80042000 OR ?perm"] PGROUNDDOWN_aligned [OF al(1)]
    by (simp add: uva_def layout_values or.assoc)
  show thesis
  proof (rule that)
    show wf: "wf_tbl (pmem s) 2 ?pt" using s(1) by (simp add: tbl_step_def tbl_inv_def)
    show tp: "tpages (pmem s) 2 ?pt \<subseteq> {0x87FFC000, 0x87FFF000, 0x87FFE000, 0x87FFD000}"
      using s(1) by (auto simp: tbl_step_def vm_demo_inv)
    fix i :: nat assume i: "i < 4096"
    then have c: "i < chunk 0x3000 4096" by (simp add: chunk_eq)
    from chunk_uva [OF u c] show "uva (pmem s) ?pt (0x3000 + of_nat i) = Some (0x80042000 + of_nat i)" .
    have "i < chunk 0x80042000 4096" using i by (simp add: chunk_eq)
    then have p: "PGROUNDDOWN (0x80042000 + of_nat i) = 0x80042000"
      using chunk_page PGROUNDDOWN_aligned [OF al(2)] by metis
    show "PGROUNDDOWN (0x80042000 + of_nat i) \<notin> tpages (pmem s) 2 ?pt" using tp unfolding p by auto
  qed
qed

lemma one_user_page:
  obtains s :: mstate where "wf_tbl (pmem s) 2 0x87FFC000"
    "\<And>i. i < 4096 \<Longrightarrow> uva (pmem s) 0x87FFC000 (0x3000 + of_nat i) = Some (0x80042000 + of_nat i)"
    "\<And>i. i < 4096 \<Longrightarrow> PGROUNDDOWN (0x80042000 + of_nat i) \<notin> tpages (pmem s) 2 0x87FFC000"
  by (rule one_user_page_tbl) blast

lemma copyout_copyin_shared_witness:
  "\<exists>(s :: mstate) s'. copyout 0x87FFC000 0x3ffe [1, 2] s = Inr (0, s')
     \<and> copyin 0x87FFC000 0x3ffe 2 s' = Inr (0, [1, 2])"
proof -
  obtain s :: mstate where s: "wf_tbl (pmem s) 2 0x87FFC000"
      "\<And>i. i < 4096 \<Longrightarrow> uva (pmem s) 0x87FFC000 (0x3000 + of_nat i) = Some (0x80042000 + of_nat i)"
      "\<And>i. i < 4096 \<Longrightarrow> PGROUNDDOWN (0x80042000 + of_nat i) \<notin> tpages (pmem s) 2 0x87FFC000"
    by (rule one_user_page) blast
  let ?f = "\<lambda>i. 0x80042000 + of_nat (0xffe + i) :: u64"
  have "\<forall>i < length [1, 2 :: u8]. uva (pmem s) 0x87FFC000 (0x3ffe + of_nat i) = Some (?f i)"
  proof (intro allI impI)
    fix i assume "i < length [1, 2 :: u8]"
    then show "uva (pmem s) 0x87FFC000 (0x3ffe + of_nat i) = Some (?f i)" using s(2) [of "0xffe + i"] by simp
  qed
  moreover have "\<forall>i < length [1, 2 :: u8]. PGROUNDDOWN (?f i) \<notin> tpages (pmem s) 2 0x87FFC000 \<union> tpages (pmem s) 2 0x87FFC000"
  proof (intro allI impI)
    fix i assume "i < length [1, 2 :: u8]"
    then show "PGROUNDDOWN (?f i) \<notin> tpages (pmem s) 2 0x87FFC000 \<union> tpages (pmem s) 2 0x87FFC000"
      using s(3) [of "0xffe + i"] by simp
  qed
  moreover have "inj_on ?f {..<length [1, 2 :: u8]}"
    by (rule inj_onI) (auto simp: word_unat_eq_iff less_Suc_eq)
  ultimately obtain s' where "copyout 0x87FFC000 0x3ffe [1, 2] s = Inr (0, s')"
      "copyin 0x87FFC000 0x3ffe (length [1, 2 :: u8]) s' = Inr (0, [1, 2])"
    using copyout_copyin_shared [OF s(1) s(1), of "[1, 2]" "0x3ffe" ?f "0x3ffe"] by blast
  then show ?thesis by (intro exI [of _ s] exI [of _ s']) (simp add: numeral_2_eq_2)
qed

end
