(* ===== verification/Proc.thy ===== *)
theory Proc
  imports Freewalk Usermem
begin

text \<open>
  The process table: kernel/proc.h and the parts of kernel/proc.c that the other components
  build on (allocation and release of table entries, page tables of processes, scheduling,
  \<open>sleep\<close>/\<open>wakeup\<close>/\<open>kill\<close>). \<open>fork\<close>, \<open>exit\<close>, \<open>wait\<close> and \<open>userinit\<close> need the file layer and are in
  \<open>Proclife\<close>; the shared-memory functions are in \<open>Shmem\<close>.

  A \<open>struct proc *\<close> is the index of its entry (\<open>None\<close> is the null pointer; using it is a page
  fault in the kernel, the panic of \<open>kerneltrap\<close>). The trap frame is a page of physical memory,
  read and written with \<open>ld64\<close>/\<open>st64\<close> at the offsets of the struct. Open files and inodes are
  indices into their tables.

  A kernel thread gives up its hart in \<open>sched\<close>, by \<open>swtch\<close>. The code before and after \<open>swtch\<close> are
  two operations: \<open>sched_enter\<close> and \<open>sched_resume\<close>, \<open>sleep_enter\<close> and \<open>sleep_resume\<close>; in between
  the scheduler's side runs, \<open>sched_back\<close> and then \<open>scheduler_from\<close>.
\<close>

unbundle bit_operations_syntax

datatype procstate = UNUSED | USED | SLEEPING | RUNNABLE | RUNNING | ZOMBIE

record kcontext =
  cx_ra :: u64
  cx_sp :: u64
  cx_s :: "nat \<Rightarrow> u64"

record proc =
  p_state :: procstate
  p_chan :: "chan option"
  p_killed :: int
  p_xstate :: int
  p_pid :: int
  p_shmem_access_count :: int
  p_shmem_access :: "nat \<Rightarrow> bool"
  p_parent :: "nat option"
  p_top_pid :: int
  p_kstack :: u64
  p_sz :: u64
  p_pagetable :: u64
  p_trapframe :: u64
  p_context :: kcontext
  p_ofile :: "nat \<Rightarrow> nat option"
  p_cwd :: "nat option"
  p_name :: "u8 list"

record shmem =
  sh_PHADDR :: u64
  sh_numberofusers :: int
  sh_state :: int
  sh_using_top_pid :: int

record pstate = vstate +
  proc :: "nat \<Rightarrow> proc"
  shmem :: "nat \<Rightarrow> shmem"
  initproc :: "nat option"
  nextpid :: int
  forkret_pc :: u64
  initcode :: u64

text \<open>An entry of the table as the loader leaves it.\<close>

definition proc0 :: proc where
  "proc0 = \<lparr>p_state = UNUSED, p_chan = None, p_killed = 0, p_xstate = 0, p_pid = 0, p_shmem_access_count = 0,
     p_shmem_access = (\<lambda>_. False), p_parent = None, p_top_pid = 0, p_kstack = 0, p_sz = 0, p_pagetable = 0,
     p_trapframe = 0, p_context = \<lparr>cx_ra = 0, cx_sp = 0, cx_s = (\<lambda>_. 0)\<rparr>, p_ofile = (\<lambda>_. None), p_cwd = None, p_name = []\<rparr>"

definition upd_proc :: "nat \<Rightarrow> (proc \<Rightarrow> proc) \<Rightarrow> 'a pstate_scheme \<Rightarrow> 'a pstate_scheme" where
  "upd_proc p f s = s\<lparr>proc := (proc s)(p := f (proc s p))\<rparr>"

text \<open>The fields of \<open>struct trapframe\<close> that C code reads or writes.\<close>

definition TF_kernel_satp :: u64 where "TF_kernel_satp = 0"
definition TF_kernel_sp :: u64 where "TF_kernel_sp = 8"
definition TF_kernel_trap :: u64 where "TF_kernel_trap = 16"
definition TF_epc :: u64 where "TF_epc = 24"
definition TF_kernel_hartid :: u64 where "TF_kernel_hartid = 32"
definition TF_sp :: u64 where "TF_sp = 48"
definition TF_a :: "nat \<Rightarrow> u64" where "TF_a n = 112 + 8 * of_nat n"
definition sizeof_trapframe :: nat where "sizeof_trapframe = 288"

section \<open>The current process\<close>

definition procinit :: "'a pstate_scheme \<Rightarrow> 'a pstate_scheme" where
  "procinit s =
     (let s = initlock PidLock ''nextpid'' s; s = initlock WaitLock ''wait_lock'' s
      in fold (\<lambda>p s. let s = initlock (ProcLock p) ''proc'' s
                 in upd_proc p (\<lambda>q. q\<lparr>p_state := UNUSED, p_kstack := KSTACK p\<rparr>) s) [0..<NPROC] s)"

definition myproc :: "'a lstate_scheme \<Rightarrow> fault + nat option \<times> 'a lstate_scheme" where
  "myproc s =
     (let s = push_off s; p = cproc (mycpu s)
      in bnd (pop_off s) (\<lambda>s. Inr (p, s)))"

text \<open>\<open>struct proc *p = myproc()\<close> where \<open>p\<close> is used: a null pointer faults.\<close>

definition the_proc :: "'a lstate_scheme \<Rightarrow> fault + nat \<times> 'a lstate_scheme" where
  "the_proc s =
     bnd (myproc s) (\<lambda>(p, s). case p of None \<Rightarrow> Inl (Panic ''kerneltrap'') | Some p \<Rightarrow> Inr (p, s))"

section \<open>Table entries\<close>

definition allocpid :: "'a pstate_scheme \<Rightarrow> fault + int \<times> 'a pstate_scheme" where
  "allocpid s =
     bnd (acquire PidLock s) (\<lambda>s.
     let pid = nextpid s; s = s\<lparr>nextpid := s32 (nextpid s + 1)\<rparr>
     in bnd (release PidLock s) (\<lambda>s. Inr (pid, s)))"

definition proc_pagetable :: "nat \<Rightarrow> 'a pstate_scheme \<Rightarrow> fault + u64 \<times> 'a pstate_scheme" where
  "proc_pagetable p s =
     bnd (uvmcreate s) (\<lambda>(pagetable, s).
     if pagetable = 0 then Inr (0, s)
     else bnd (mappages pagetable TRAMPOLINE PGSIZE (trampoline s) (PTE_R OR PTE_X) s) (\<lambda>(r, s).
     if r < 0 then bnd (uvmfree pagetable 0 s) (\<lambda>s. Inr (0, s))
     else bnd (mappages pagetable TRAPFRAME PGSIZE (p_trapframe (proc s p)) (PTE_R OR PTE_W) s) (\<lambda>(r, s).
     if r < 0
     then bnd (uvmunmap pagetable TRAMPOLINE 1 False s) (\<lambda>s.
          bnd (uvmfree pagetable 0 s) (\<lambda>s. Inr (0, s)))
     else Inr (pagetable, s))))"

definition proc_freepagetable :: "u64 \<Rightarrow> u64 \<Rightarrow> 'a mstate_scheme \<Rightarrow> fault + 'a mstate_scheme" where
  "proc_freepagetable pagetable sz s =
     bnd (uvmunmap pagetable TRAMPOLINE 1 False s) (\<lambda>s.
     bnd (uvmunmap pagetable TRAPFRAME 1 False s) (\<lambda>s.
     uvmfree pagetable sz s))"

definition freeproc :: "nat \<Rightarrow> 'a pstate_scheme \<Rightarrow> fault + 'a pstate_scheme" where
  "freeproc p s =
     bnd (if p_trapframe (proc s p) \<noteq> 0 then kfree (p_trapframe (proc s p)) s else Inr s) (\<lambda>s.
     let s = upd_proc p (\<lambda>q. q\<lparr>p_trapframe := 0\<rparr>) s
     in bnd (if p_pagetable (proc s p) \<noteq> 0
             then proc_freepagetable (p_pagetable (proc s p)) (p_sz (proc s p)) s else Inr s) (\<lambda>s.
     Inr (upd_proc p (\<lambda>q. q\<lparr>p_pagetable := 0, p_sz := 0, p_pid := 0, p_parent := None,
       p_name := (p_name q)[0 := 0], p_chan := None, p_killed := 0, p_xstate := 0, p_state := UNUSED\<rparr>) s)))"

fun find_unused :: "nat list \<Rightarrow> 'a pstate_scheme \<Rightarrow> fault + nat option \<times> 'a pstate_scheme" where
  "find_unused [] s = Inr (None, s)"
| "find_unused (p # ps) s =
     bnd (acquire (ProcLock p) s) (\<lambda>s.
     if p_state (proc s p) = UNUSED then Inr (Some p, s)
     else bnd (release (ProcLock p) s) (\<lambda>s. find_unused ps s))"

definition allocproc :: "'a pstate_scheme \<Rightarrow> fault + nat option \<times> 'a pstate_scheme" where
  "allocproc s =
     bnd (find_unused [0..<NPROC] s) (\<lambda>(found, s). case found of None \<Rightarrow> Inr (None, s) | Some p \<Rightarrow>
     bnd (allocpid s) (\<lambda>(pid, s).
     let s = upd_proc p (\<lambda>q. q\<lparr>p_pid := pid, p_state := USED, p_shmem_access_count := 0\<rparr>) s;
         s = fold (\<lambda>i s. upd_proc p (\<lambda>q. q\<lparr>p_shmem_access := (p_shmem_access q)(i := False),
               p_shmem_access_count := s32 (p_shmem_access_count q - 1)\<rparr>) s) [0..<SHMEM] s
     in bnd (kalloc s) (\<lambda>(tf, s).
     let s = upd_proc p (\<lambda>q. q\<lparr>p_trapframe := tf\<rparr>) s
     in if tf = 0
        then bnd (freeproc p s) (\<lambda>s. bnd (release (ProcLock p) s) (\<lambda>s. Inr (None, s)))
        else bnd (proc_pagetable p s) (\<lambda>(pt, s).
        let s = upd_proc p (\<lambda>q. q\<lparr>p_pagetable := pt\<rparr>) s
        in if pt = 0
           then bnd (freeproc p s) (\<lambda>s. bnd (release (ProcLock p) s) (\<lambda>s. Inr (None, s)))
           else Inr (Some p, upd_proc p (\<lambda>q. q\<lparr>p_context :=
             \<lparr>cx_ra = forkret_pc s, cx_sp = p_kstack q + PGSIZE, cx_s = (\<lambda>_. 0)\<rparr>\<rparr>) s)))))"

definition growproc :: "int \<Rightarrow> 'a pstate_scheme \<Rightarrow> fault + int \<times> 'a pstate_scheme" where
  "growproc n s =
     bnd (the_proc s) (\<lambda>(p, s).
     let sz = p_sz (proc s p); pt = p_pagetable (proc s p)
     in if n > 0
        then bnd (uvmalloc pt sz (sz + u64_of_int n) PTE_W s) (\<lambda>(sz, s).
             if sz = 0 then Inr (- 1, s)
             else Inr (0, upd_proc p (\<lambda>q. q\<lparr>p_sz := sz\<rparr>) s))
        else if n < 0
        then bnd (uvmdealloc pt sz (sz + u64_of_int n) s) (\<lambda>(sz, s).
             Inr (0, upd_proc p (\<lambda>q. q\<lparr>p_sz := sz\<rparr>) s))
        else Inr (0, upd_proc p (\<lambda>q. q\<lparr>p_sz := sz\<rparr>) s))"

section \<open>Scheduling\<close>

definition sched_enter :: "'a pstate_scheme \<Rightarrow> fault + bool \<times> 'a pstate_scheme" where
  "sched_enter s =
     bnd (the_proc s) (\<lambda>(p, s).
     if \<not> holding (ProcLock p) s then Inl (Panic ''sched p->lock'')
     else if noff (mycpu s) \<noteq> 1 then Inl (Panic ''sched locks'')
     else if p_state (proc s p) = RUNNING then Inl (Panic ''sched running'')
     else if intr_get s then Inl (Panic ''sched interruptible'')
     else Inr (intena (mycpu s), s))"

definition sched_resume :: "bool \<Rightarrow> 'a lstate_scheme \<Rightarrow> 'a lstate_scheme" where
  "sched_resume ie s = set_mycpu ((mycpu s)\<lparr>intena := ie\<rparr>) s"

text \<open>
  The scheduler of a hart: it takes the first runnable entry of the rest of its pass, if any,
  marks it running and switches to it (\<open>Some (p, ps)\<close>, \<open>ps\<close> the entries it still has to visit in
  this pass); when the process has switched back, \<open>sched_back\<close> runs and the pass goes on.
\<close>

fun scheduler_from ::
  "nat list \<Rightarrow> 'a pstate_scheme \<Rightarrow> fault + (nat \<times> nat list) option \<times> 'a pstate_scheme" where
  "scheduler_from [] s = Inr (None, s)"
| "scheduler_from (p # ps) s =
     bnd (acquire (ProcLock p) s) (\<lambda>s.
     if p_state (proc s p) = RUNNABLE
     then let s = upd_proc p (\<lambda>q. q\<lparr>p_state := RUNNING\<rparr>) s
          in Inr (Some (p, ps), set_mycpu ((mycpu s)\<lparr>cproc := Some p\<rparr>) s)
     else bnd (release (ProcLock p) s) (\<lambda>s. scheduler_from ps s))"

definition scheduler :: "'a pstate_scheme \<Rightarrow> fault + (nat \<times> nat list) option \<times> 'a pstate_scheme" where
  "scheduler s = scheduler_from [0..<NPROC] (intr_on s)"

definition sched_back :: "nat \<Rightarrow> 'a pstate_scheme \<Rightarrow> fault + 'a pstate_scheme" where
  "sched_back p s = release (ProcLock p) (set_mycpu ((mycpu s)\<lparr>cproc := None\<rparr>) s)"

definition yield_enter :: "'a pstate_scheme \<Rightarrow> fault + bool \<times> 'a pstate_scheme" where
  "yield_enter s =
     bnd (the_proc s) (\<lambda>(p, s).
     bnd (acquire (ProcLock p) s) (\<lambda>s.
     sched_enter (upd_proc p (\<lambda>q. q\<lparr>p_state := RUNNABLE\<rparr>) s)))"

definition yield_resume :: "nat \<Rightarrow> bool \<Rightarrow> 'a pstate_scheme \<Rightarrow> fault + 'a pstate_scheme" where
  "yield_resume p ie s = release (ProcLock p) (sched_resume ie s)"

definition sleep_enter :: "chan \<Rightarrow> lockid \<Rightarrow> 'a pstate_scheme \<Rightarrow> fault + bool \<times> 'a pstate_scheme" where
  "sleep_enter ch lk s =
     bnd (the_proc s) (\<lambda>(p, s).
     bnd (acquire (ProcLock p) s) (\<lambda>s.
     bnd (release lk s) (\<lambda>s.
     sched_enter (upd_proc p (\<lambda>q. q\<lparr>p_chan := Some ch, p_state := SLEEPING\<rparr>) s))))"

definition sleep_resume :: "nat \<Rightarrow> lockid \<Rightarrow> bool \<Rightarrow> 'a pstate_scheme \<Rightarrow> fault + 'a pstate_scheme" where
  "sleep_resume p lk ie s =
     (let s = sched_resume ie s; s = upd_proc p (\<lambda>q. q\<lparr>p_chan := None\<rparr>) s
      in bnd (release (ProcLock p) s) (\<lambda>s. acquire lk s))"

definition wakeup :: "chan \<Rightarrow> 'a pstate_scheme \<Rightarrow> fault + 'a pstate_scheme" where
  "wakeup ch s =
     for_each [0..<NPROC] (\<lambda>p s.
       bnd (myproc s) (\<lambda>(me, s).
       if me = Some p then Inr s
       else bnd (acquire (ProcLock p) s) (\<lambda>s.
            let s = (if p_state (proc s p) = SLEEPING \<and> p_chan (proc s p) = Some ch
                     then upd_proc p (\<lambda>q. q\<lparr>p_state := RUNNABLE\<rparr>) s else s)
            in release (ProcLock p) s))) s"

fun kill_from :: "nat list \<Rightarrow> int \<Rightarrow> 'a pstate_scheme \<Rightarrow> fault + int \<times> 'a pstate_scheme" where
  "kill_from [] pid s = Inr (- 1, s)"
| "kill_from (p # ps) pid s =
     bnd (acquire (ProcLock p) s) (\<lambda>s.
     if p_pid (proc s p) = pid
     then let s = upd_proc p (\<lambda>q. q\<lparr>p_killed := 1\<rparr>) s;
              s = (if p_state (proc s p) = SLEEPING then upd_proc p (\<lambda>q. q\<lparr>p_state := RUNNABLE\<rparr>) s else s)
          in bnd (release (ProcLock p) s) (\<lambda>s. Inr (0, s))
     else bnd (release (ProcLock p) s) (\<lambda>s. kill_from ps pid s))"

definition kill :: "int \<Rightarrow> 'a pstate_scheme \<Rightarrow> fault + int \<times> 'a pstate_scheme" where
  "kill pid s = kill_from [0..<NPROC] pid s"

definition setkilled :: "nat \<Rightarrow> 'a pstate_scheme \<Rightarrow> fault + 'a pstate_scheme" where
  "setkilled p s =
     bnd (acquire (ProcLock p) s) (\<lambda>s.
     release (ProcLock p) (upd_proc p (\<lambda>q. q\<lparr>p_killed := 1\<rparr>) s))"

definition killed :: "nat \<Rightarrow> 'a pstate_scheme \<Rightarrow> fault + int \<times> 'a pstate_scheme" where
  "killed p s =
     bnd (acquire (ProcLock p) s) (\<lambda>s.
     let k = p_killed (proc s p)
     in bnd (release (ProcLock p) s) (\<lambda>s. Inr (k, s)))"

section \<open>Copying to and from a process\<close>

text \<open>
  The kernel side of a copy is a list of bytes: a kernel object outside physical memory. The
  user side (or, with \<open>user_dst = 0\<close>, a kernel address) is in memory.
\<close>

definition either_copyout :: "bool \<Rightarrow> u64 \<Rightarrow> u8 list \<Rightarrow> 'a pstate_scheme \<Rightarrow> fault + int \<times> 'a pstate_scheme" where
  "either_copyout user_dst dst src s =
     bnd (myproc s) (\<lambda>(p, s).
     if user_dst
     then (case p of None \<Rightarrow> Inl (Panic ''kerneltrap'')
           | Some p \<Rightarrow> copyout (p_pagetable (proc s p)) dst src s)
     else Inr (0, set_mem (store_bytes (pmem s) dst src) s))"

definition either_copyin ::
  "bool \<Rightarrow> u64 \<Rightarrow> nat \<Rightarrow> 'a pstate_scheme \<Rightarrow> fault + (int \<times> u8 list) \<times> 'a pstate_scheme" where
  "either_copyin user_src src len s =
     bnd (myproc s) (\<lambda>(p, s).
     if user_src
     then (case p of None \<Rightarrow> Inl (Panic ''kerneltrap'')
           | Some p \<Rightarrow> bnd (copyin (p_pagetable (proc s p)) src len s) (\<lambda>r. Inr (r, s)))
     else Inr ((0, bytes (pmem s) src len), s))"

section \<open>Lock calculus for the process fields\<close>

lemma pstate_comm [lk_comm]:
  "acquire l (s\<lparr>proc := x0\<rparr>) = bnd (acquire l s) (\<lambda>s. Inr (s\<lparr>proc := x0\<rparr>))"
  "release l (s\<lparr>proc := x0\<rparr>) = bnd (release l s) (\<lambda>s. Inr (s\<lparr>proc := x0\<rparr>))"
  "holding l (s\<lparr>proc := x0\<rparr>) = holding l s" "mycpu (s\<lparr>proc := x0\<rparr>) = mycpu s" "intr_get (s\<lparr>proc := x0\<rparr>) = intr_get s"
  "lk_free l (s\<lparr>proc := x0\<rparr>) = lk_free l s" "cpu_ok (s\<lparr>proc := x0\<rparr>) = cpu_ok s"
  "lk_on l (s\<lparr>proc := x0\<rparr>) = (lk_on l s)\<lparr>proc := x0\<rparr>"
  "lk_cycle (s\<lparr>proc := x0\<rparr>) = (lk_cycle s)\<lparr>proc := x0\<rparr>"
  "set_lname k nm (s\<lparr>proc := x0\<rparr>) = (set_lname k nm s)\<lparr>proc := x0\<rparr>"
  "proc (lk_on l s) = proc s" "proc (lk_cycle s) = proc s" "proc (set_lname k nm s) = proc s"
  "acquire l (s\<lparr>shmem := x1\<rparr>) = bnd (acquire l s) (\<lambda>s. Inr (s\<lparr>shmem := x1\<rparr>))"
  "release l (s\<lparr>shmem := x1\<rparr>) = bnd (release l s) (\<lambda>s. Inr (s\<lparr>shmem := x1\<rparr>))"
  "holding l (s\<lparr>shmem := x1\<rparr>) = holding l s" "mycpu (s\<lparr>shmem := x1\<rparr>) = mycpu s" "intr_get (s\<lparr>shmem := x1\<rparr>) = intr_get s"
  "lk_free l (s\<lparr>shmem := x1\<rparr>) = lk_free l s" "cpu_ok (s\<lparr>shmem := x1\<rparr>) = cpu_ok s"
  "lk_on l (s\<lparr>shmem := x1\<rparr>) = (lk_on l s)\<lparr>shmem := x1\<rparr>"
  "lk_cycle (s\<lparr>shmem := x1\<rparr>) = (lk_cycle s)\<lparr>shmem := x1\<rparr>"
  "set_lname k nm (s\<lparr>shmem := x1\<rparr>) = (set_lname k nm s)\<lparr>shmem := x1\<rparr>"
  "shmem (lk_on l s) = shmem s" "shmem (lk_cycle s) = shmem s" "shmem (set_lname k nm s) = shmem s"
  "acquire l (s\<lparr>initproc := x2\<rparr>) = bnd (acquire l s) (\<lambda>s. Inr (s\<lparr>initproc := x2\<rparr>))"
  "release l (s\<lparr>initproc := x2\<rparr>) = bnd (release l s) (\<lambda>s. Inr (s\<lparr>initproc := x2\<rparr>))"
  "holding l (s\<lparr>initproc := x2\<rparr>) = holding l s" "mycpu (s\<lparr>initproc := x2\<rparr>) = mycpu s" "intr_get (s\<lparr>initproc := x2\<rparr>) = intr_get s"
  "lk_free l (s\<lparr>initproc := x2\<rparr>) = lk_free l s" "cpu_ok (s\<lparr>initproc := x2\<rparr>) = cpu_ok s"
  "lk_on l (s\<lparr>initproc := x2\<rparr>) = (lk_on l s)\<lparr>initproc := x2\<rparr>"
  "lk_cycle (s\<lparr>initproc := x2\<rparr>) = (lk_cycle s)\<lparr>initproc := x2\<rparr>"
  "set_lname k nm (s\<lparr>initproc := x2\<rparr>) = (set_lname k nm s)\<lparr>initproc := x2\<rparr>"
  "initproc (lk_on l s) = initproc s" "initproc (lk_cycle s) = initproc s" "initproc (set_lname k nm s) = initproc s"
  "acquire l (s\<lparr>nextpid := x3\<rparr>) = bnd (acquire l s) (\<lambda>s. Inr (s\<lparr>nextpid := x3\<rparr>))"
  "release l (s\<lparr>nextpid := x3\<rparr>) = bnd (release l s) (\<lambda>s. Inr (s\<lparr>nextpid := x3\<rparr>))"
  "holding l (s\<lparr>nextpid := x3\<rparr>) = holding l s" "mycpu (s\<lparr>nextpid := x3\<rparr>) = mycpu s" "intr_get (s\<lparr>nextpid := x3\<rparr>) = intr_get s"
  "lk_free l (s\<lparr>nextpid := x3\<rparr>) = lk_free l s" "cpu_ok (s\<lparr>nextpid := x3\<rparr>) = cpu_ok s"
  "lk_on l (s\<lparr>nextpid := x3\<rparr>) = (lk_on l s)\<lparr>nextpid := x3\<rparr>"
  "lk_cycle (s\<lparr>nextpid := x3\<rparr>) = (lk_cycle s)\<lparr>nextpid := x3\<rparr>"
  "set_lname k nm (s\<lparr>nextpid := x3\<rparr>) = (set_lname k nm s)\<lparr>nextpid := x3\<rparr>"
  "nextpid (lk_on l s) = nextpid s" "nextpid (lk_cycle s) = nextpid s" "nextpid (set_lname k nm s) = nextpid s"
  "kernel_pagetable (lk_on l s) = kernel_pagetable s" "kernel_pagetable (lk_cycle s) = kernel_pagetable s" "kernel_pagetable (set_lname k nm s) = kernel_pagetable s"
  "trampoline (lk_on l s) = trampoline s" "trampoline (lk_cycle s) = trampoline s" "trampoline (set_lname k nm s) = trampoline s"
  "etext (lk_on l s) = etext s" "etext (lk_cycle s) = etext s" "etext (set_lname k nm s) = etext s"
  "forkret_pc (lk_on l s) = forkret_pc s" "forkret_pc (lk_cycle s) = forkret_pc s" "forkret_pc (set_lname k nm s) = forkret_pc s"
  "initcode (lk_on l s) = initcode s" "initcode (lk_cycle s) = initcode s" "initcode (set_lname k nm s) = initcode s"
  by (simp_all add: lk_free_def cpu_ok_def lk_cycle_def lk_on_def set_lname_def lock_defs Let_def)

lemma myproc_eq: "cpu_ok s \<Longrightarrow> myproc s = Inr (cproc (mycpu s), lk_cycle s)"
proof -
  have "cproc (mycpu (push_off s)) = cproc (mycpu s)"
    by (simp add: lock_defs Let_def)
  then show "cpu_ok s \<Longrightarrow> myproc s = Inr (cproc (mycpu s), lk_cycle s)"
    by (simp add: myproc_def push_pop)
qed

lemma the_proc_eq: "cpu_ok s \<Longrightarrow> cproc (mycpu s) = Some p \<Longrightarrow> the_proc s = Inr (p, lk_cycle s)"
  by (simp add: the_proc_def myproc_eq)

lemma cproc_lk [simp]: "cproc (mycpu (lk_on l s)) = cproc (mycpu s)" "cproc (mycpu (lk_cycle s)) = cproc (mycpu s)"
  by (simp_all add: mycpu_def cpuid_def)

text \<open>The rules that compute a call whose locks are free.\<close>

lemmas lk_calc = acquire_free release_lk_on lk_on_cycle lk_cycle_on release_outer cpu_ok_lk_on
  lk_comm the_proc_eq myproc_eq

end
