(* ===== verification/Shmem.thy ===== *)
theory Shmem
  imports Proc
begin

text \<open>
  The shared pages: the shared-memory functions of kernel/proc.c and the constants of
  kernel/shmem.h.

  There are \<open>SHMEM\<close> pages, each with a state (not set, read-only, writable), the number of
  processes with access, the \<open>top_pid\<close> of the family that uses it and two spinlocks. A page
  number is an index below \<open>SHMEM\<close> here: the system calls check it (see \<open>Sysproc\<close>). The
  \<open>index\<close> of an element is not checked anywhere, so it is an \<open>int\<close> and the address is the C one,
  \<open>PHADDR + 4 * index\<close>.
\<close>

unbundle bit_operations_syntax

definition NOT_SET :: int where "NOT_SET = - 1"
definition UNWRITABLE :: int where "UNWRITABLE = 0"
definition WRITABLE :: int where "WRITABLE = 1"

lemmas shmem_states = NOT_SET_def UNWRITABLE_def WRITABLE_def

definition upd_shmem :: "nat \<Rightarrow> (shmem \<Rightarrow> shmem) \<Rightarrow> 'a pstate_scheme \<Rightarrow> 'a pstate_scheme" where
  "upd_shmem i f s = s\<lparr>shmem := (shmem s)(i := f (shmem s i))\<rparr>"

text \<open>The address of element \<open>index\<close>, and the character \<open>page_number + '0'\<close>.\<close>

definition shmem_at :: "nat \<Rightarrow> int \<Rightarrow> 'a pstate_scheme \<Rightarrow> u64" where
  "shmem_at n index s = sh_PHADDR (shmem s n) + word_of_int (4 * index)"

definition digit :: "nat \<Rightarrow> char" where
  "digit n = char_of (n + 48)"

definition is_top_parent_process :: "'a pstate_scheme \<Rightarrow> fault + bool \<times> 'a pstate_scheme" where
  "is_top_parent_process s =
     bnd (myproc s) (\<lambda>(p, s). case p of
       None \<Rightarrow> Inl (Panic ''is_top_parent_process: myproc() returned NULL'')
     | Some p \<Rightarrow> Inr (p_top_pid (proc s p) = p_pid (proc s p), s))"

definition find_pid :: "int \<Rightarrow> nat \<Rightarrow> 'a pstate_scheme \<Rightarrow> nat" where
  "find_pid pid p s =
     (if pid \<noteq> 0
      then case List.find (\<lambda>j. pid = p_pid (proc s j)) [0..<NPROC] of None \<Rightarrow> p | Some j \<Rightarrow> j
      else p)"

definition get_shmem_access :: "nat \<Rightarrow> int \<Rightarrow> 'a pstate_scheme \<Rightarrow> fault + u64 \<times> 'a pstate_scheme" where
  "get_shmem_access n pid s =
     bnd (the_proc s) (\<lambda>(p, s).
     let p = find_pid pid p s
     in if \<not> p_shmem_access (proc s p) n
        then Inl (Panic ''The process don't have access to this shmem page'')
        else bnd (acquire (ProcLock p) s) (\<lambda>s.
        let VA = VASHMEM (p_shmem_access_count (proc s p))
        in bnd (mappages (p_pagetable (proc s p)) VA PGSIZE (sh_PHADDR (shmem s n))
                  (PTE_R OR PTE_W OR PTE_U) s) (\<lambda>(r, s).
           if r < 0 then bnd (release (ProcLock p) s) (\<lambda>s. Inr (0, s))
           else let s = upd_proc p (\<lambda>q. q\<lparr>p_shmem_access_count := s32 (p_shmem_access_count q + 1)\<rparr>) s
                in bnd (release (ProcLock p) s) (\<lambda>s. Inr (VA, s)))))"

definition count_shmem :: "nat \<Rightarrow> 'a pstate_scheme \<Rightarrow> int" where
  "count_shmem n s = sh_numberofusers (shmem s n)"

definition shmem_state :: "nat \<Rightarrow> 'a pstate_scheme \<Rightarrow> int" where
  "shmem_state n s = sh_state (shmem s n)"

text \<open>The claim of a page for the family of the caller, common to the three setters.\<close>

definition claim_page :: "nat \<Rightarrow> nat \<Rightarrow> 'a pstate_scheme \<Rightarrow> fault + 'a pstate_scheme" where
  "claim_page n p s =
     (if sh_using_top_pid (shmem s n) = - 1
      then Inr (upd_shmem n (\<lambda>h. h\<lparr>sh_using_top_pid := p_top_pid (proc s p)\<rparr>) s)
      else if sh_using_top_pid (shmem s n) \<noteq> p_top_pid (proc s p)
      then Inl (Panic ''shmem is already used by other process'')
      else Inr s)"

definition shmem_set_writable :: "nat \<Rightarrow> 'a pstate_scheme \<Rightarrow> fault + 'a pstate_scheme" where
  "shmem_set_writable n s =
     bnd (acquire (ShmemStateLock n) s) (\<lambda>s.
     if sh_state (shmem s n) \<noteq> NOT_SET then Inl (Panic ''shmem state is already set'')
     else bnd (the_proc s) (\<lambda>(p, s).
     bnd (acquire (ProcLock p) s) (\<lambda>s.
     bnd (claim_page n p s) (\<lambda>s.
     let s = upd_proc p (\<lambda>q. q\<lparr>p_shmem_access := (p_shmem_access q)(n := True),
               p_shmem_access_count := s32 (p_shmem_access_count q + 1)\<rparr>) s
     in bnd (release (ProcLock p) s) (\<lambda>s.
     let s = upd_shmem n (\<lambda>h. h\<lparr>sh_numberofusers := s32 (sh_numberofusers h + 1)\<rparr>) s;
         s = initlock (ShmemLock n) (''shmem_'' @ [digit n]) s;
         s = upd_shmem n (\<lambda>h. h\<lparr>sh_state := WRITABLE\<rparr>) s
     in release (ShmemStateLock n) s)))))"

definition shmem_set_unwritable :: "nat \<Rightarrow> 'a pstate_scheme \<Rightarrow> fault + 'a pstate_scheme" where
  "shmem_set_unwritable n s =
     bnd (acquire (ShmemStateLock n) s) (\<lambda>s.
     if sh_state (shmem s n) \<noteq> NOT_SET then Inl (Panic ''shmem state is already set'')
     else bnd (the_proc s) (\<lambda>(p, s).
     bnd (acquire (ProcLock p) s) (\<lambda>s.
     bnd (claim_page n p s) (\<lambda>s.
     let s = upd_proc p (\<lambda>q. q\<lparr>p_shmem_access := (p_shmem_access q)(n := True),
               p_shmem_access_count := s32 (p_shmem_access_count q + 1)\<rparr>) s
     in bnd (release (ProcLock p) s) (\<lambda>s.
     let s = upd_shmem n (\<lambda>h. h\<lparr>sh_numberofusers := s32 (sh_numberofusers h + 1)\<rparr>) s;
         s = upd_shmem n (\<lambda>h. h\<lparr>sh_state := UNWRITABLE\<rparr>) s
     in release (ShmemStateLock n) s)))))"

definition shmem_set_init_int :: "nat \<Rightarrow> int \<Rightarrow> int \<Rightarrow> 'a pstate_scheme \<Rightarrow> fault + 'a pstate_scheme" where
  "shmem_set_init_int n index val s =
     bnd (acquire (ShmemStateLock n) s) (\<lambda>s.
     if sh_state (shmem s n) \<noteq> NOT_SET then Inl (Panic ''shmem state is already set'')
     else bnd (the_proc s) (\<lambda>(p, s).
     bnd (acquire (ProcLock p) s) (\<lambda>s.
     bnd (claim_page n p s) (\<lambda>s.
     bnd (release (ProcLock p) s) (\<lambda>s.
     let s = set_mem (stint (pmem s) (shmem_at n index s) val) s
     in release (ShmemStateLock n) s)))))"

definition shmem_write_int :: "nat \<Rightarrow> int \<Rightarrow> int \<Rightarrow> 'a pstate_scheme \<Rightarrow> fault + 'a pstate_scheme" where
  "shmem_write_int n index val s =
     (if sh_state (shmem s n) \<noteq> WRITABLE then Inl (Panic (''shmem_'' @ [digit n] @ ''_lock''))
      else bnd (the_proc s) (\<lambda>(p, s).
      bnd (acquire (ProcLock p) s) (\<lambda>s.
      if \<not> p_shmem_access (proc s p) n
      then Inl (Panic ''The process don't have access to this shmem page'')
      else bnd (release (ProcLock p) s) (\<lambda>s.
      bnd (acquire (ShmemLock n) s) (\<lambda>s.
      let s = set_mem (stint (pmem s) (shmem_at n index s) val) s
      in release (ShmemLock n) s)))))"

definition shmem_read_int :: "nat \<Rightarrow> int \<Rightarrow> 'a pstate_scheme \<Rightarrow> fault + int \<times> 'a pstate_scheme" where
  "shmem_read_int n index s =
     (if sh_state (shmem s n) = NOT_SET then Inl (Panic (''shmem_'' @ [digit n] @ ''_lock''))
      else bnd (the_proc s) (\<lambda>(p, s).
      if \<not> p_shmem_access (proc s p) n
      then Inl (Panic ''The process don't have access to this shmem page'')
      else if sh_state (shmem s n) = UNWRITABLE then Inr (ldint (pmem s) (shmem_at n index s), s)
      else if sh_state (shmem s n) = WRITABLE
      then bnd (acquire (ShmemLock n) s) (\<lambda>s.
           let v = ldint (pmem s) (shmem_at n index s)
           in bnd (release (ShmemLock n) s) (\<lambda>s. Inr (v, s)))
      else Inl (Panic ''shmem state is invalid'')))"

definition shmem_acquire_access :: "nat \<Rightarrow> 'a pstate_scheme \<Rightarrow> fault + bool \<times> 'a pstate_scheme" where
  "shmem_acquire_access n s =
     bnd (acquire (ShmemStateLock n) s) (\<lambda>s.
     if sh_state (shmem s n) = NOT_SET
     then bnd (release (ShmemStateLock n) s) (\<lambda>s. Inr (False, s))
     else bnd (the_proc s) (\<lambda>(p, s).
     bnd (acquire (ProcLock p) s) (\<lambda>s.
     if \<not> p_shmem_access (proc s p) n
     then if p_top_pid (proc s p) \<noteq> sh_using_top_pid (shmem s n)
          then Inl (Panic ''This shmem page already have access to other process'')
          else let s = upd_proc p (\<lambda>q. q\<lparr>p_shmem_access := (p_shmem_access q)(n := True)\<rparr>) s;
                   s = upd_shmem n (\<lambda>h. h\<lparr>sh_numberofusers := s32 (sh_numberofusers h + 1)\<rparr>) s
               in bnd (release (ProcLock p) s) (\<lambda>s.
                  bnd (release (ShmemStateLock n) s) (\<lambda>s. Inr (True, s)))
     else Inl (Panic ''The process already have access to this shmem page''))))"

definition shmem_release_access :: "nat \<Rightarrow> 'a pstate_scheme \<Rightarrow> fault + 'a pstate_scheme" where
  "shmem_release_access n s =
     bnd (acquire (ShmemStateLock n) s) (\<lambda>s.
     if sh_state (shmem s n) = NOT_SET then Inl (Panic ''shmem state is not set'')
     else if sh_numberofusers (shmem s n) = 0 then Inl (Panic ''shmem state is invalid'')
     else if sh_numberofusers (shmem s n) < 0 then Inl (Panic ''shmem numberofusers is invalid'')
     else bnd (the_proc s) (\<lambda>(p, s).
     bnd (acquire (ProcLock p) s) (\<lambda>s.
     if p_shmem_access (proc s p) n
     then let s = upd_proc p (\<lambda>q. q\<lparr>p_shmem_access := (p_shmem_access q)(n := False)\<rparr>) s;
              s = upd_shmem n (\<lambda>h. h\<lparr>sh_numberofusers := s32 (sh_numberofusers h - 1)\<rparr>) s;
              s = (if sh_numberofusers (shmem s n) = 0
                   then let s = upd_shmem n (\<lambda>h. h\<lparr>sh_state := NOT_SET\<rparr>) s;
                            s = set_mem (memset (pmem s) (sh_PHADDR (shmem s n)) 0 4096) s;
                            s = set_lname (ShmemLock n) [] s
                        in upd_shmem n (\<lambda>h. h\<lparr>sh_using_top_pid := - 1\<rparr>) s
                   else s)
          in bnd (release (ProcLock p) s) (\<lambda>s. release (ShmemStateLock n) s)
     else Inl (Panic ''The process don't have access to this shmem page''))))"

definition reduce_counter_shmem_page :: "nat \<Rightarrow> 'a pstate_scheme \<Rightarrow> 'a pstate_scheme" where
  "reduce_counter_shmem_page n s = upd_shmem n (\<lambda>h. h\<lparr>sh_numberofusers := s32 (sh_numberofusers h - 1)\<rparr>) s"

definition safe_physical_address :: "u64 \<Rightarrow> nat \<Rightarrow> 'a pstate_scheme \<Rightarrow> 'a pstate_scheme" where
  "safe_physical_address phaddr i s =
     (let s = upd_shmem i (\<lambda>h. h\<lparr>sh_PHADDR := phaddr, sh_numberofusers := 0, sh_state := NOT_SET\<rparr>) s;
          s = initlock (ShmemStateLock i) (''shmem_state_'' @ [digit i]) s
      in upd_shmem i (\<lambda>h. h\<lparr>sh_using_top_pid := - 1\<rparr>) s)"

section \<open>Sharing over the life of a process\<close>

text \<open>
  What \<open>allocproc\<close>, \<open>fork\<close> and \<open>exit\<close> do to the shared pages: the part of \<open>fork\<close> after the child
  has been filled in (it inherits \<open>top_pid\<close> and every access of the parent), and the loop of \<open>exit\<close>,
  which runs with \<open>wait_lock\<close> and the lock of the process held.
\<close>

definition fork_share :: "nat \<Rightarrow> nat \<Rightarrow> nat \<Rightarrow> 'a pstate_scheme \<Rightarrow> 'a pstate_scheme" where
  "fork_share np p i s =
     (let s = upd_proc np (\<lambda>q. q\<lparr>p_shmem_access := (p_shmem_access q)(i := p_shmem_access (proc s p) i)\<rparr>) s
      in if p_shmem_access (proc s np) i
         then upd_shmem i (\<lambda>h. h\<lparr>sh_numberofusers := s32 (sh_numberofusers h + 1)\<rparr>) s else s)"

definition fork_tail :: "nat \<Rightarrow> nat \<Rightarrow> 'a pstate_scheme \<Rightarrow> fault + 'a pstate_scheme" where
  "fork_tail np p s =
     bnd (acquire WaitLock s) (\<lambda>s.
     let s = upd_proc np (\<lambda>q. q\<lparr>p_parent := Some p, p_top_pid := p_top_pid (proc s p)\<rparr>) s
     in bnd (release WaitLock s) (\<lambda>s.
     bnd (acquire (ProcLock np) s) (\<lambda>s.
     let s = upd_proc np (\<lambda>q. q\<lparr>p_state := RUNNABLE\<rparr>) s;
         s = fold (fork_share np p) [0..<SHMEM] s
     in release (ProcLock np) s)))"

definition exit_share :: "nat \<Rightarrow> nat \<Rightarrow> 'a pstate_scheme \<Rightarrow> fault + 'a pstate_scheme" where
  "exit_share p i s =
     bnd (acquire (ShmemStateLock i) s) (\<lambda>s.
     let s = (if p_shmem_access (proc s p) i
              then upd_shmem i (\<lambda>h. h\<lparr>sh_numberofusers := s32 (sh_numberofusers h - 1)\<rparr>) s else s);
         s = (if sh_numberofusers (shmem s i) = 0 \<and> sh_using_top_pid (shmem s i) = p_top_pid (proc s p)
              then let s = upd_shmem i (\<lambda>h. h\<lparr>sh_state := NOT_SET, sh_using_top_pid := - 1\<rparr>) s
                   in set_mem (memset (pmem s) (sh_PHADDR (shmem s i)) 0 4096) s
              else s)
     in release (ShmemStateLock i) s)"

section \<open>What a call does\<close>

text \<open>The caller \<open>p\<close> runs on this hart and nobody holds the locks of the page.\<close>

definition shm_ready :: "nat \<Rightarrow> nat \<Rightarrow> 'a pstate_scheme \<Rightarrow> bool" where
  "shm_ready p n s \<longleftrightarrow> cpu_ok s \<and> cproc (mycpu s) = Some p \<and> lk_free (ProcLock p) s
     \<and> lk_free (ShmemStateLock n) s \<and> lk_free (ShmemLock n) s"

lemmas shmem_upd = upd_proc_def upd_shmem_def

lemma shmem_write_int_eq:
  assumes "shm_ready p n s"
  shows "shmem_write_int n i v s =
    (if sh_state (shmem s n) \<noteq> WRITABLE then Inl (Panic (''shmem_'' @ [digit n] @ ''_lock''))
     else if \<not> p_shmem_access (proc s p) n
     then Inl (Panic ''The process don't have access to this shmem page'')
     else Inr ((lk_cycle s)\<lparr>pmem := stint (pmem s) (shmem_at n i s) v\<rparr>))"
  using assms
  by (simp add: shm_ready_def shmem_write_int_def lk_calc Let_def shmem_at_def)

lemma shmem_read_int_eq:
  assumes "shm_ready p n s"
  shows "shmem_read_int n i s =
    (if sh_state (shmem s n) = NOT_SET then Inl (Panic (''shmem_'' @ [digit n] @ ''_lock''))
     else if \<not> p_shmem_access (proc s p) n
     then Inl (Panic ''The process don't have access to this shmem page'')
     else if sh_state (shmem s n) = UNWRITABLE \<or> sh_state (shmem s n) = WRITABLE
     then Inr (ldint (pmem s) (shmem_at n i s), lk_cycle s)
     else Inl (Panic ''shmem state is invalid''))"
  using assms
  by (simp add: shm_ready_def shmem_read_int_def lk_calc Let_def shmem_at_def)

abbreviation may_claim :: "nat \<Rightarrow> nat \<Rightarrow> 'a pstate_scheme \<Rightarrow> bool" where
  "may_claim n p s \<equiv> sh_using_top_pid (shmem s n) = - 1 \<or> sh_using_top_pid (shmem s n) = p_top_pid (proc s p)"

lemma claim_page_eq:
  "claim_page n p s = (if may_claim n p s
     then Inr (upd_shmem n (\<lambda>h. h\<lparr>sh_using_top_pid := p_top_pid (proc s p)\<rparr>) s)
     else Inl (Panic ''shmem is already used by other process''))"
proof (cases "sh_using_top_pid (shmem s n) = p_top_pid (proc s p)")
  case True
  have "upd_shmem n (\<lambda>h. h\<lparr>sh_using_top_pid := p_top_pid (proc s p)\<rparr>) s = s"
    by (simp add: upd_shmem_def True [symmetric])
  with True show ?thesis by (cases "p_top_pid (proc s p) = - 1") (simp_all add: claim_page_def)
qed (simp add: claim_page_def)

lemma shmem_set_init_int_eq:
  assumes "shm_ready p n s"
  shows "shmem_set_init_int n i v s =
    (if sh_state (shmem s n) \<noteq> NOT_SET then Inl (Panic ''shmem state is already set'')
     else if \<not> may_claim n p s
     then Inl (Panic ''shmem is already used by other process'')
     else Inr (upd_shmem n (\<lambda>h. h\<lparr>sh_using_top_pid := p_top_pid (proc s p)\<rparr>)
       ((lk_cycle s)\<lparr>pmem := stint (pmem s) (shmem_at n i s) v\<rparr>)))"
  using assms
  by (simp add: shm_ready_def shmem_set_init_int_def lk_calc Let_def shmem_at_def claim_page_eq upd_shmem_def)

text \<open>The state after a page has been set: claimed, one user, access for the caller.\<close>

definition page_set :: "nat \<Rightarrow> nat \<Rightarrow> int \<Rightarrow> 'a pstate_scheme \<Rightarrow> 'a pstate_scheme" where
  "page_set n p st s = upd_shmem n (\<lambda>h. h\<lparr>sh_using_top_pid := p_top_pid (proc s p),
       sh_numberofusers := s32 (sh_numberofusers h + 1), sh_state := st\<rparr>)
     (upd_proc p (\<lambda>q. q\<lparr>p_shmem_access := (p_shmem_access q)(n := True),
       p_shmem_access_count := s32 (p_shmem_access_count q + 1)\<rparr>) s)"

lemma shmem_set_unwritable_eq:
  assumes "shm_ready p n s"
  shows "shmem_set_unwritable n s =
    (if sh_state (shmem s n) \<noteq> NOT_SET then Inl (Panic ''shmem state is already set'')
     else if \<not> may_claim n p s then Inl (Panic ''shmem is already used by other process'')
     else Inr (page_set n p UNWRITABLE (lk_cycle s)))"
  using assms
  by (simp add: shm_ready_def shmem_set_unwritable_def lk_calc Let_def claim_page_eq shmem_upd page_set_def)

lemma shmem_set_writable_eq:
  assumes "shm_ready p n s"
  shows "shmem_set_writable n s =
    (if sh_state (shmem s n) \<noteq> NOT_SET then Inl (Panic ''shmem state is already set'')
     else if \<not> may_claim n p s then Inl (Panic ''shmem is already used by other process'')
     else Inr (set_lname (ShmemLock n) (''shmem_'' @ [digit n]) (page_set n p WRITABLE (lk_cycle s))))"
  using assms
  by (simp add: shm_ready_def shmem_set_writable_def lk_calc Let_def claim_page_eq shmem_upd page_set_def
      initlock_free)

lemma shmem_acquire_access_eq:
  assumes "shm_ready p n s"
  shows "shmem_acquire_access n s =
    (if sh_state (shmem s n) = NOT_SET then Inr (False, lk_cycle s)
     else if p_shmem_access (proc s p) n
     then Inl (Panic ''The process already have access to this shmem page'')
     else if p_top_pid (proc s p) \<noteq> sh_using_top_pid (shmem s n)
     then Inl (Panic ''This shmem page already have access to other process'')
     else Inr (True, upd_shmem n (\<lambda>h. h\<lparr>sh_numberofusers := s32 (sh_numberofusers h + 1)\<rparr>)
       (upd_proc p (\<lambda>q. q\<lparr>p_shmem_access := (p_shmem_access q)(n := True)\<rparr>) (lk_cycle s))))"
  using assms
  by (simp add: shm_ready_def shmem_acquire_access_def lk_calc Let_def shmem_upd)

text \<open>The reset of a page without users.\<close>

definition page_reset :: "nat \<Rightarrow> 'a pstate_scheme \<Rightarrow> 'a pstate_scheme" where
  "page_reset n s = upd_shmem n (\<lambda>h. h\<lparr>sh_state := NOT_SET, sh_using_top_pid := - 1\<rparr>)
     (set_mem (memset (pmem s) (sh_PHADDR (shmem s n)) 0 4096) s)"

definition drop_access :: "nat \<Rightarrow> nat \<Rightarrow> 'a pstate_scheme \<Rightarrow> 'a pstate_scheme" where
  "drop_access n p s = upd_shmem n (\<lambda>h. h\<lparr>sh_numberofusers := s32 (sh_numberofusers h - 1)\<rparr>)
     (upd_proc p (\<lambda>q. q\<lparr>p_shmem_access := (p_shmem_access q)(n := False)\<rparr>) s)"

lemma shmem_release_access_eq:
  assumes "shm_ready p n s"
  shows "shmem_release_access n s =
    (if sh_state (shmem s n) = NOT_SET then Inl (Panic ''shmem state is not set'')
     else if sh_numberofusers (shmem s n) = 0 then Inl (Panic ''shmem state is invalid'')
     else if sh_numberofusers (shmem s n) < 0 then Inl (Panic ''shmem numberofusers is invalid'')
     else if \<not> p_shmem_access (proc s p) n
     then Inl (Panic ''The process don't have access to this shmem page'')
     else let s = drop_access n p (lk_cycle s)
       in Inr (if sh_numberofusers (shmem s n) = 0 then set_lname (ShmemLock n) [] (page_reset n s) else s))"
  using assms
  by (simp add: shm_ready_def shmem_release_access_def lk_calc Let_def shmem_upd drop_access_def page_reset_def)

end
