(* ===== verification/Sharing.thy ===== *)
theory Sharing
  imports Shmem
begin

text \<open>
  Sharing over the life of the processes (kernel/proc.c): the steps of the system that touch the
  shared pages, as a relation on kernel states, and what holds in every state they reach.

  A step is a whole operation of the current process on a hart: one of the calls of \<open>Shmem\<close>, the end
  of \<open>fork\<close>, the loop of \<open>exit\<close>, or an allocation, release, state change or \<open>exec\<close> of a process, with
  just their effect on the fields that matter here. Between steps no spinlock is held. \<open>shm_step ex\<close>
  has \<open>exec\<close> steps only if \<open>ex\<close> holds.
\<close>

section \<open>The steps that touch the shared pages\<close>

definition live :: "procstate \<Rightarrow> bool" where
  "live st \<longleftrightarrow> st \<noteq> UNUSED \<and> st \<noteq> ZOMBIE"

text \<open>No lock is held: the harts are between system calls.\<close>

definition quiet :: "pstate \<Rightarrow> bool" where
  "quiet s \<longleftrightarrow> cpu_ok s \<and> (\<forall>l. lk_free l s)"

definition running :: "nat \<Rightarrow> pstate \<Rightarrow> bool" where
  "running p s \<longleftrightarrow> quiet s \<and> p < NPROC \<and> cproc (mycpu s) = Some p \<and> p_state (proc s p) = RUNNING"

inductive shm_step :: "bool \<Rightarrow> pstate \<Rightarrow> pstate \<Rightarrow> bool" for ex where
  set_writable: "running p s \<Longrightarrow> n < SHMEM \<Longrightarrow> shmem_set_writable n s = Inr s' \<Longrightarrow> shm_step ex s s'"
| set_unwritable: "running p s \<Longrightarrow> n < SHMEM \<Longrightarrow> shmem_set_unwritable n s = Inr s' \<Longrightarrow> shm_step ex s s'"
| set_init: "running p s \<Longrightarrow> n < SHMEM \<Longrightarrow> shmem_set_init_int n i v s = Inr s' \<Longrightarrow> shm_step ex s s'"
| write_int: "running p s \<Longrightarrow> n < SHMEM \<Longrightarrow> shmem_write_int n i v s = Inr s' \<Longrightarrow> shm_step ex s s'"
| read_int: "running p s \<Longrightarrow> n < SHMEM \<Longrightarrow> shmem_read_int n i s = Inr (v, s') \<Longrightarrow> shm_step ex s s'"
| acquire_access: "running p s \<Longrightarrow> n < SHMEM \<Longrightarrow> shmem_acquire_access n s = Inr (b, s') \<Longrightarrow> shm_step ex s s'"
| release_access: "running p s \<Longrightarrow> n < SHMEM \<Longrightarrow> shmem_release_access n s = Inr s' \<Longrightarrow> shm_step ex s s'"
| fork_child: "running p s \<Longrightarrow> np < NPROC \<Longrightarrow> p_state (proc s np) = USED \<Longrightarrow> fork_tail np p s = Inr s' \<Longrightarrow>
     shm_step ex s s'"
| exit_proc: "running p s \<Longrightarrow> initproc s \<noteq> Some p \<Longrightarrow> for_each [0..<SHMEM] (exit_share p) s = Inr s' \<Longrightarrow>
     shm_step ex s (upd_proc p (\<lambda>q. q\<lparr>p_state := ZOMBIE\<rparr>) s')"
| alloc_proc: "quiet s \<Longrightarrow> p < NPROC \<Longrightarrow> p_state (proc s p) = UNUSED \<Longrightarrow>
     shm_step ex s (upd_proc p (\<lambda>q. q\<lparr>p_state := USED, p_pid := pid, p_shmem_access_count := - 4,
       p_shmem_access := (\<lambda>i. if i < SHMEM then False else p_shmem_access q i)\<rparr>) s)"
| user_init: "quiet s \<Longrightarrow> p < NPROC \<Longrightarrow> p_state (proc s p) = USED \<Longrightarrow>
     shm_step ex s ((upd_proc p (\<lambda>q. q\<lparr>p_state := RUNNABLE\<rparr>) s)\<lparr>initproc := Some p\<rparr>)"
| free_proc: "quiet s \<Longrightarrow> p < NPROC \<Longrightarrow> p_state (proc s p) \<in> {ZOMBIE, USED} \<Longrightarrow>
     shm_step ex s (upd_proc p (\<lambda>q. q\<lparr>p_state := UNUSED, p_pid := 0\<rparr>) s)"
| exec_top: "ex \<Longrightarrow> running p s \<Longrightarrow> shm_step ex s (upd_proc p (\<lambda>q. q\<lparr>p_top_pid := p_pid q\<rparr>) s)"
| schedule: "quiet s \<Longrightarrow> p < NPROC \<Longrightarrow> p_state (proc s p) \<in> {SLEEPING, RUNNABLE, RUNNING} \<Longrightarrow>
     st \<in> {SLEEPING, RUNNABLE, RUNNING} \<Longrightarrow> shm_step ex s (upd_proc p (\<lambda>q. q\<lparr>p_state := st\<rparr>) s)"
| switch: "quiet s \<Longrightarrow> cpu_ok (s\<lparr>hart := h, cpus := c\<rparr>) \<Longrightarrow> shm_step ex s (s\<lparr>hart := h, cpus := c\<rparr>)"

definition shm_start :: "pstate \<Rightarrow> bool" where
  "shm_start s \<longleftrightarrow> quiet s \<and> (\<forall>p < NPROC. p_state (proc s p) = UNUSED)
     \<and> (\<forall>n < SHMEM. sh_numberofusers (shmem s n) = 0 \<and> sh_state (shmem s n) = NOT_SET)"

inductive shm_reach :: "bool \<Rightarrow> pstate \<Rightarrow> bool" for ex where
  start: "shm_start s \<Longrightarrow> shm_reach ex s"
| step: "shm_reach ex s \<Longrightarrow> shm_step ex s s' \<Longrightarrow> shm_reach ex s'"

section \<open>The steps as updates\<close>

lemma running_ready: "running p s \<Longrightarrow> shm_ready p n s"
  by (simp add: running_def quiet_def shm_ready_def)

lemma quiet_cycle [simp]: "quiet (lk_cycle s) = quiet s"
  by (simp add: quiet_def)

lemma quiet_comm [simp]:
  "quiet (s\<lparr>proc := x\<rparr>) = quiet s" "quiet (s\<lparr>shmem := y\<rparr>) = quiet s" "quiet (s\<lparr>pmem := z\<rparr>) = quiet s"
  "quiet (s\<lparr>initproc := ip\<rparr>) = quiet s"
  "quiet (set_lname k nm s) = quiet s" "quiet (upd_proc p f s) = quiet s" "quiet (upd_shmem n g s) = quiet s"
  by (simp_all add: quiet_def lk_comm shmem_upd)

lemma quiet_page [simp]:
  "quiet (page_set n p st s) = quiet s" "quiet (page_reset n s) = quiet s" "quiet (drop_access n p s) = quiet s"
  by (simp_all add: page_set_def page_reset_def drop_access_def)

text \<open>The effect of \<open>exit\<close> on one page, and of \<open>fork\<close> on all.\<close>

definition exit_page :: "nat \<Rightarrow> nat \<Rightarrow> 'a pstate_scheme \<Rightarrow> 'a pstate_scheme" where
  "exit_page p i s =
     (let s = (if p_shmem_access (proc s p) i
               then upd_shmem i (\<lambda>h. h\<lparr>sh_numberofusers := s32 (sh_numberofusers h - 1)\<rparr>) s else s)
      in if sh_numberofusers (shmem s i) = 0 \<and> sh_using_top_pid (shmem s i) = p_top_pid (proc s p)
         then page_reset i s else s)"

lemma exit_share_eq:
  "cpu_ok s \<Longrightarrow> lk_free (ShmemStateLock i) s \<Longrightarrow> exit_share p i s = Inr (exit_page p i (lk_cycle s))"
  by (simp add: exit_share_def exit_page_def page_reset_def lk_calc Let_def shmem_upd)

lemma exit_page_keeps [simp]:
  "cpu_ok (exit_page p i s) = cpu_ok s" "lk_free l (exit_page p i s) = lk_free l s"
  "lk_cycle (exit_page p i s) = exit_page p i (lk_cycle s)" "proc (exit_page p i s) = proc s"
  "n \<noteq> i \<Longrightarrow> shmem (exit_page p i s) n = shmem s n"
  by (simp_all add: exit_page_def page_reset_def lk_comm Let_def shmem_upd)

lemma upt4: "[0..<SHMEM] = [0, 1, 2, 3]"
  by (simp add: upt_conv_Cons)

lemma exit_loop_eq:
  "quiet s \<Longrightarrow> for_each [0..<SHMEM] (exit_share p) s =
     Inr (exit_page p 3 (exit_page p 2 (exit_page p 1 (exit_page p 0 (lk_cycle s)))))"
  unfolding upt4 quiet_def by (simp add: exit_share_eq)

definition forked :: "nat \<Rightarrow> nat \<Rightarrow> 'a pstate_scheme \<Rightarrow> 'a pstate_scheme" where
  "forked np p s = fold (fork_share np p) [0..<SHMEM] (upd_proc np (\<lambda>q. q\<lparr>p_state := RUNNABLE\<rparr>)
     (upd_proc np (\<lambda>q. q\<lparr>p_parent := Some p, p_top_pid := p_top_pid (proc s p)\<rparr>) s))"

lemma fork_share_eq:
  "np \<noteq> p \<Longrightarrow> fork_share np p i s =
     s\<lparr>proc := (proc s)(np := (proc s np)\<lparr>p_shmem_access := (p_shmem_access (proc s np))(i := p_shmem_access (proc s p) i)\<rparr>),
       shmem := (shmem s)(i := (shmem s i)\<lparr>sh_numberofusers := (if p_shmem_access (proc s p) i
          then s32 (sh_numberofusers (shmem s i) + 1) else sh_numberofusers (shmem s i))\<rparr>)\<rparr>"
  by (simp add: fork_share_def Let_def shmem_upd)

lemma fork_tail_eq: "quiet s \<Longrightarrow> np \<noteq> p \<Longrightarrow> fork_tail np p s = Inr (forked np p (lk_cycle s))"
  unfolding quiet_def
  by (simp add: fork_tail_def forked_def upt4 fork_share_eq lk_calc Let_def upd_proc_def del: SHMEM_def)

lemma fork_fold:
  assumes "np \<noteq> p"
  shows "distinct is \<Longrightarrow> proc (fold (fork_share np p) is s) = (proc s)(np := (proc s np)\<lparr>p_shmem_access :=
      (\<lambda>i. if i \<in> set is then p_shmem_access (proc s p) i else p_shmem_access (proc s np) i)\<rparr>)
    \<and> shmem (fold (fork_share np p) is s) = (\<lambda>n. if n \<in> set is
      then (shmem s n)\<lparr>sh_numberofusers := (if p_shmem_access (proc s p) n
        then s32 (sh_numberofusers (shmem s n) + 1) else sh_numberofusers (shmem s n))\<rparr> else shmem s n)"
proof (induction "is" arbitrary: s)
  case (Cons i "is")
  let ?s = "fork_share np p i s" and ?a = "p_shmem_access (proc s p)" and ?b = "p_shmem_access (proc s np)"
  have P: "proc ?s = (proc s)(np := (proc s np)\<lparr>p_shmem_access := ?b(i := ?a i)\<rparr>)"
    and S: "shmem ?s = (shmem s)(i := (shmem s i)\<lparr>sh_numberofusers := (if ?a i
          then s32 (sh_numberofusers (shmem s i) + 1) else sh_numberofusers (shmem s i))\<rparr>)"
    using assms(1) by (simp_all add: fork_share_eq)
  have ap: "p_shmem_access (proc ?s p) = ?a" using assms(1) P by simp
  have np: "proc ?s np = (proc s np)\<lparr>p_shmem_access := ?b(i := ?a i)\<rparr>" by (simp add: P)
  have f: "(\<lambda>j. if j \<in> set is then ?a j else (?b(i := ?a i)) j) = (\<lambda>j. if j \<in> set (i # is) then ?a j else ?b j)"
    by auto
  have d: "distinct is" and fs: "fold (fork_share np p) (i # is) s = fold (fork_share np p) is ?s"
    using Cons.prems by simp_all
  note ih = Cons.IH [OF d, of ?s, folded fs, unfolded ap np]
  have "proc (fold (fork_share np p) (i # is) s) = (proc s)(np := (proc s np)\<lparr>p_shmem_access :=
      (\<lambda>j. if j \<in> set (i # is) then ?a j else ?b j)\<rparr>)"
    unfolding conjunct1 [OF ih] P fun_upd_upd f [symmetric] by (simp del: fun_upd_apply)
  moreover have "shmem (fold (fork_share np p) (i # is) s) = (\<lambda>n. if n \<in> set (i # is)
      then (shmem s n)\<lparr>sh_numberofusers := (if ?a n
        then s32 (sh_numberofusers (shmem s n) + 1) else sh_numberofusers (shmem s n))\<rparr> else shmem s n)"
    unfolding conjunct2 [OF ih] S using Cons.prems by (auto simp: fun_eq_iff)
  ultimately show ?case by blast
qed auto

lemma forked_fields:
  fixes s :: "'a pstate_scheme"
  assumes "np \<noteq> p"
  shows "proc (forked np p s) q = (if q = np then (proc s np)\<lparr>p_parent := Some p, p_top_pid := p_top_pid (proc s p),
      p_state := RUNNABLE, p_shmem_access := (\<lambda>i. if i < SHMEM then p_shmem_access (proc s p) i
        else p_shmem_access (proc s np) i)\<rparr> else proc s q)"
    and "n < SHMEM \<Longrightarrow> shmem (forked np p s) n = (shmem s n)\<lparr>sh_numberofusers := (if p_shmem_access (proc s p) n
      then s32 (sh_numberofusers (shmem s n) + 1) else sh_numberofusers (shmem s n))\<rparr>"
    and "quiet (forked np p t) = quiet t"
proof -
  have ff: "proc (fold (fork_share np p) [0..<SHMEM] s) = (proc s)(np := (proc s np)\<lparr>p_shmem_access :=
      (\<lambda>i. if i < SHMEM then p_shmem_access (proc s p) i else p_shmem_access (proc s np) i)\<rparr>)"
    "shmem (fold (fork_share np p) [0..<SHMEM] s) = (\<lambda>n. if n < SHMEM
      then (shmem s n)\<lparr>sh_numberofusers := (if p_shmem_access (proc s p) n
        then s32 (sh_numberofusers (shmem s n) + 1) else sh_numberofusers (shmem s n))\<rparr> else shmem s n)" for s :: "'a pstate_scheme"
    using fork_fold [OF assms distinct_upt, of 0 SHMEM s] by (simp_all del: SHMEM_def)
  show "proc (forked np p s) q = (if q = np then (proc s np)\<lparr>p_parent := Some p, p_top_pid := p_top_pid (proc s p),
      p_state := RUNNABLE, p_shmem_access := (\<lambda>i. if i < SHMEM then p_shmem_access (proc s p) i
        else p_shmem_access (proc s np) i)\<rparr> else proc s q)"
    unfolding forked_def ff(1) using assms by (auto simp: upd_proc_def intro!: proc.equality)
  show "n < SHMEM \<Longrightarrow> shmem (forked np p s) n = (shmem s n)\<lparr>sh_numberofusers := (if p_shmem_access (proc s p) n
      then s32 (sh_numberofusers (shmem s n) + 1) else sh_numberofusers (shmem s n))\<rparr>"
    unfolding forked_def ff(2) using assms by (auto simp: upd_proc_def)
  show "quiet (forked np p t) = quiet t"
    using assms by (simp add: forked_def upt4 fork_share_eq del: SHMEM_def)
qed

text \<open>The record of one page after the loop of \<open>exit\<close>.\<close>

definition exit_sh :: "bool \<Rightarrow> int \<Rightarrow> shmem \<Rightarrow> shmem" where
  "exit_sh a tp h =
     (let h = (if a then h\<lparr>sh_numberofusers := s32 (sh_numberofusers h - 1)\<rparr> else h)
      in if sh_numberofusers h = 0 \<and> sh_using_top_pid h = tp
         then h\<lparr>sh_state := NOT_SET, sh_using_top_pid := - 1\<rparr> else h)"

lemma exit_page_sh: "shmem (exit_page p i s) i = exit_sh (p_shmem_access (proc s p) i) (p_top_pid (proc s p)) (shmem s i)"
  by (simp add: exit_page_def exit_sh_def Let_def page_reset_def shmem_upd)

lemma exit_loop_fields:
  assumes "for_each [0..<SHMEM] (exit_share p) s = Inr s'" and "quiet s"
  shows "proc s' = proc s" and "quiet s'"
    and "n < SHMEM \<Longrightarrow> shmem s' n = exit_sh (p_shmem_access (proc s p) n) (p_top_pid (proc s p)) (shmem s n)"
proof -
  have s': "s' = exit_page p 3 (exit_page p 2 (exit_page p 1 (exit_page p 0 (lk_cycle s))))"
    using assms exit_loop_eq by force
  show "proc s' = proc s" "quiet s'" using assms(2) by (simp_all add: s' quiet_def lk_comm)
  assume "n < SHMEM"
  then consider "n = 0" | "n = 1" | "n = 2" | "n = 3" by fastforce
  then show "shmem s' n = exit_sh (p_shmem_access (proc s p) n) (p_top_pid (proc s p)) (shmem s n)"
    by cases (simp_all add: s' exit_page_sh lk_comm)
qed

section \<open>The invariants\<close>

definition acc :: "(nat \<Rightarrow> proc) \<Rightarrow> nat \<Rightarrow> nat set" where
  "acc P n = {p. p < NPROC \<and> live (p_state (P p)) \<and> p_shmem_access (P p) n}"

lemma acc_upd [simp]:
  "acc (P(p := q)) n =
     (if p < NPROC \<and> live (p_state q) \<and> p_shmem_access q n then insert p (acc P n) else acc P n - {p})"
  by (auto simp: acc_def)

lemma acc_finite [simp]: "finite (acc P n)"
  by (simp add: acc_def)

lemma acc_card: "int (card (acc P n)) \<le> 64"
proof -
  have "card (acc P n) \<le> card {..<NPROC}" by (rule card_mono) (auto simp: acc_def)
  then show ?thesis by simp
qed

definition page_inv :: "(nat \<Rightarrow> proc) \<Rightarrow> nat \<Rightarrow> shmem \<Rightarrow> bool" where
  "page_inv P n h \<longleftrightarrow> sh_numberofusers h = int (card (acc P n)) \<and> (sh_state h = NOT_SET \<longrightarrow> acc P n = {})"

definition share_inv :: "pstate \<Rightarrow> bool" where
  "share_inv s \<longleftrightarrow> quiet s
     \<and> (\<forall>p < NPROC. p_state (proc s p) = USED \<longrightarrow> (\<forall>n < SHMEM. \<not> p_shmem_access (proc s p) n))
     \<and> (\<forall>n < SHMEM. page_inv (proc s) n (shmem s n))"

definition fam_inv :: "(nat \<Rightarrow> proc) \<Rightarrow> nat \<Rightarrow> shmem \<Rightarrow> bool" where
  "fam_inv P n h \<longleftrightarrow> (\<forall>p \<in> acc P n. p_top_pid (P p) = sh_using_top_pid h) \<and> (acc P n = {} \<longrightarrow> sh_state h = NOT_SET)"

definition family_inv :: "pstate \<Rightarrow> bool" where
  "family_inv s \<longleftrightarrow> (\<forall>n < SHMEM. fam_inv (proc s) n (shmem s n))"

lemma users_card:
  assumes "page_inv P n h"
  shows "s32 (sh_numberofusers h + 1) = int (card (acc P n)) + 1"
    and "s32 (sh_numberofusers h - 1) = int (card (acc P n)) - 1"
  using assms acc_card [of P n] by (simp_all add: page_inv_def s32_small)

lemma page_join:
  assumes "page_inv P n h" "p \<notin> acc P n" "p < NPROC" "live (p_state q)" "p_shmem_access q n"
    and "sh_numberofusers h' = s32 (sh_numberofusers h + 1)" "sh_state h' \<noteq> NOT_SET"
  shows "page_inv (P(p := q)) n h'"
  unfolding page_inv_def using assms users_card [OF assms(1)] by simp

lemma page_leave:
  assumes "page_inv P n h" "p \<in> acc P n" "\<not> (live (p_state q) \<and> p_shmem_access q n)"
    and "sh_numberofusers h' = s32 (sh_numberofusers h - 1)" "sh_state h' = NOT_SET \<longrightarrow> sh_numberofusers h' = 0 \<or> sh_state h = NOT_SET"
  shows "page_inv (P(p := q)) n h'"
proof -
  have "card (acc P n) > 0" using assms(2) by (metis acc_finite card_gt_0_iff empty_iff)
  then have c: "int (card (acc P n - {p})) = int (card (acc P n)) - 1" using assms(2) by simp
  have "sh_numberofusers h' = int (card (acc P n - {p}))" using assms(4) users_card(2) [OF assms(1)] c by simp
  moreover have "sh_numberofusers h' = 0 \<longrightarrow> acc P n - {p} = {}" using calculation by simp
  moreover have "sh_state h = NOT_SET \<longrightarrow> acc P n = {}" using assms(1) by (simp add: page_inv_def)
  ultimately show ?thesis unfolding page_inv_def acc_upd using assms(2,3,5) by auto
qed

lemma page_same:
  assumes "page_inv P n h" "p < NPROC \<and> live (p_state q) \<and> p_shmem_access q n \<longleftrightarrow> p \<in> acc P n"
    and "sh_numberofusers h' = sh_numberofusers h" "sh_state h' = NOT_SET \<longrightarrow> sh_state h = NOT_SET \<or> acc P n = {}"
  shows "page_inv (P(p := q)) n h'"
proof -
  have "acc (P(p := q)) n = acc P n" using assms(2) by auto
  then show ?thesis using assms unfolding page_inv_def by auto
qed

lemma running_acc: "running p s \<Longrightarrow> p \<in> acc (proc s) n \<longleftrightarrow> p_shmem_access (proc s p) n"
  by (auto simp: running_def acc_def live_def)

lemma share_inv_upd:
  assumes "share_inv s" "quiet s'" "proc s' = (proc s)(p := q)"
    and "p_state q = USED \<longrightarrow> (\<forall>n < SHMEM. \<not> p_shmem_access q n)"
    and "\<And>m. m < SHMEM \<Longrightarrow> page_inv ((proc s)(p := q)) m (shmem s' m)"
  shows "share_inv s'"
  unfolding share_inv_def using assms by (auto simp: share_inv_def)

lemma share_inv_page: "share_inv s \<Longrightarrow> n < SHMEM \<Longrightarrow> page_inv (proc s) n (shmem s n)"
  by (simp add: share_inv_def)

lemma share_inv_mem:
  assumes "share_inv s" "quiet s'" "proc s' = proc s"
    and "\<And>m. m < SHMEM \<Longrightarrow> sh_numberofusers (shmem s' m) = sh_numberofusers (shmem s m) \<and> sh_state (shmem s' m) = sh_state (shmem s m)"
  shows "share_inv s'"
  using assms by (auto simp: share_inv_def page_inv_def)

lemma share_inv_set:
  assumes "share_inv s" "running p s" "n < SHMEM" "sh_state (shmem s n) = NOT_SET" "st \<noteq> NOT_SET"
  shows "share_inv (page_set n p st (lk_cycle s))"
proof -
  have e: "acc (proc s) n = {}" using assms(1,3,4) by (auto simp: share_inv_def page_inv_def)
  have r: "p < NPROC" "p_state (proc s p) = RUNNING" using assms(2) by (simp_all add: running_def)
  have "page_inv (proc (page_set n p st (lk_cycle s))) m (shmem (page_set n p st (lk_cycle s)) m)" if "m < SHMEM" for m
  proof (cases "m = n")
    case True
    then show ?thesis using share_inv_page [OF assms(1,3)] assms(5) e r
      by (auto simp: page_set_def shmem_upd lk_comm live_def intro!: page_join)
  next
    case False
    then show ?thesis using share_inv_page [OF assms(1) that] running_acc [OF assms(2), of m] r
      by (auto simp: page_set_def shmem_upd lk_comm live_def intro!: page_same)
  qed
  then show ?thesis using assms(1) r by (auto simp: share_inv_def page_set_def shmem_upd lk_comm)
qed

lemma share_inv_acquire:
  assumes "share_inv s" "running p s" "n < SHMEM" "sh_state (shmem s n) \<noteq> NOT_SET" "\<not> p_shmem_access (proc s p) n"
  shows "share_inv (upd_shmem n (\<lambda>h. h\<lparr>sh_numberofusers := s32 (sh_numberofusers h + 1)\<rparr>)
       (upd_proc p (\<lambda>q. q\<lparr>p_shmem_access := (p_shmem_access q)(n := True)\<rparr>) (lk_cycle s)))" (is "share_inv ?t")
proof (rule share_inv_upd [OF assms(1)])
  let ?q = "(proc s p)\<lparr>p_shmem_access := (p_shmem_access (proc s p))(n := True)\<rparr>"
  have r: "p < NPROC" "p_state (proc s p) = RUNNING" using assms(2) by (simp_all add: running_def)
  show "quiet ?t" using assms(1) by (simp add: share_inv_def)
  show "proc ?t = (proc s)(p := ?q)" by (simp add: shmem_upd lk_comm)
  show "p_state ?q = USED \<longrightarrow> (\<forall>n < SHMEM. \<not> p_shmem_access ?q n)" using r by simp
  show "page_inv ((proc s)(p := ?q)) m (shmem ?t m)" if "m < SHMEM" for m
  proof (cases "m = n")
    case True
    then show ?thesis using share_inv_page [OF assms(1) that] running_acc [OF assms(2), of m] r assms(4,5)
      by (auto simp: shmem_upd lk_comm live_def intro!: page_join)
  next
    case False
    then show ?thesis using share_inv_page [OF assms(1) that] running_acc [OF assms(2), of m] r assms(4,5)
      by (auto simp: shmem_upd lk_comm live_def intro!: page_same)
  qed
qed

lemma share_inv_release:
  assumes "share_inv s" "running p s" "n < SHMEM" "p_shmem_access (proc s p) n"
  shows "share_inv (let s = drop_access n p (lk_cycle s)
       in if sh_numberofusers (shmem s n) = 0 then set_lname (ShmemLock n) [] (page_reset n s) else s)" (is "share_inv ?t")
proof (rule share_inv_upd [OF assms(1)])
  let ?q = "(proc s p)\<lparr>p_shmem_access := (p_shmem_access (proc s p))(n := False)\<rparr>"
  have r: "p < NPROC" "p_state (proc s p) = RUNNING" using assms(2) by (simp_all add: running_def)
  show "quiet ?t" using assms(1) by (simp add: share_inv_def Let_def drop_access_def page_reset_def)
  show "proc ?t = (proc s)(p := ?q)" by (simp add: shmem_upd lk_comm Let_def drop_access_def page_reset_def)
  show "p_state ?q = USED \<longrightarrow> (\<forall>n < SHMEM. \<not> p_shmem_access ?q n)" using r by simp
  show "page_inv ((proc s)(p := ?q)) m (shmem ?t m)" if "m < SHMEM" for m
  proof (cases "m = n")
    case True
    then show ?thesis using share_inv_page [OF assms(1) that] running_acc [OF assms(2), of m] r assms(4)
      by (auto simp: shmem_upd lk_comm live_def Let_def drop_access_def page_reset_def intro!: page_leave)
  next
    case False
    then show ?thesis using share_inv_page [OF assms(1) that] running_acc [OF assms(2), of m] r assms(4)
      by (auto simp: shmem_upd lk_comm live_def Let_def drop_access_def page_reset_def intro!: page_same)
  qed
qed

lemma exit_sh_inv:
  assumes "page_inv P n h" "p < NPROC" "live (p_state (P p))"
  shows "page_inv (P(p := (P p)\<lparr>p_state := ZOMBIE\<rparr>)) n (exit_sh (p_shmem_access (P p) n) tp h)"
proof (cases "p_shmem_access (P p) n")
  case True
  then have "p \<in> acc P n" using assms by (simp add: acc_def)
  then show ?thesis using assms(1) True
    by (intro page_leave [where h = h]) (simp_all add: exit_sh_def Let_def live_def)
next
  case False
  then have n: "p \<notin> acc P n" by (simp add: acc_def)
  have "sh_numberofusers h = 0 \<longrightarrow> acc P n = {}" using assms(1) by (simp add: page_inv_def)
  then show ?thesis using assms(1) False n
    by (intro page_same [where h = h]) (auto simp: exit_sh_def Let_def live_def)
qed

lemma share_inv_fork:
  assumes "share_inv s" "running p s" "np < NPROC" "p_state (proc s np) = USED"
  shows "share_inv (forked np p (lk_cycle s))" (is "share_inv ?t")
proof (rule share_inv_upd [OF assms(1)])
  have r: "p < NPROC" "p_state (proc s p) = RUNNING" and pn: "np \<noteq> p"
    using assms(2,4) by (auto simp: running_def)
  let ?q = "(proc s np)\<lparr>p_parent := Some p, p_top_pid := p_top_pid (proc s p),
      p_state := RUNNABLE, p_shmem_access := (\<lambda>i. if i < SHMEM then p_shmem_access (proc s p) i
        else p_shmem_access (proc s np) i)\<rparr>"
  note ff = forked_fields [OF pn]
  show "quiet ?t" using assms(1) ff(3) by (simp add: share_inv_def)
  show "proc ?t = (proc s)(np := ?q)" by (auto simp: ff(1) lk_comm fun_eq_iff)
  show "p_state ?q = USED \<longrightarrow> (\<forall>n < SHMEM. \<not> p_shmem_access ?q n)" by simp
  show "page_inv ((proc s)(np := ?q)) m (shmem ?t m)" if m: "m < SHMEM" for m
  proof -
    have np: "np \<notin> acc (proc s) m" using assms(1,3,4) m by (auto simp: share_inv_def acc_def)
    note pi = share_inv_page [OF assms(1) m] and ra = running_acc [OF assms(2), of m]
    show ?thesis
    proof (cases "p_shmem_access (proc s p) m")
      case True
      then have "sh_state (shmem s m) \<noteq> NOT_SET" using pi ra by (auto simp: page_inv_def)
      with True show ?thesis unfolding ff(2) [OF m] using pi np assms(3) m
        by (intro page_join [where h = "shmem s m"]) (simp_all add: live_def lk_comm)
    next
      case False
      then show ?thesis unfolding ff(2) [OF m] using pi np m
        by (intro page_same [where h = "shmem s m"]) (simp_all add: live_def lk_comm)
    qed
  qed
qed

lemma share_inv_proc:
  assumes "share_inv s" "p < NPROC"
    and "\<And>n. n < SHMEM \<Longrightarrow> live (p_state q) \<and> p_shmem_access q n \<longleftrightarrow> live (p_state (proc s p)) \<and> p_shmem_access (proc s p) n"
    and "p_state q = USED \<longrightarrow> (\<forall>n < SHMEM. \<not> p_shmem_access q n)"
  shows "share_inv (s\<lparr>proc := (proc s)(p := q)\<rparr>)"
proof (rule share_inv_upd [OF assms(1), where p = p and q = q])
  show "page_inv ((proc s)(p := q)) m (shmem (s\<lparr>proc := (proc s)(p := q)\<rparr>) m)" if "m < SHMEM" for m
    using share_inv_page [OF assms(1) that] assms(2,3) that
    by (intro page_same [where h = "shmem s m"]) (auto simp: acc_def)
qed (use assms in \<open>simp_all add: share_inv_def\<close>)

lemma share_inv_exit:
  assumes "share_inv s" "running p s" "for_each [0..<SHMEM] (exit_share p) s = Inr s'"
  shows "share_inv (upd_proc p (\<lambda>q. q\<lparr>p_state := ZOMBIE\<rparr>) s')"
proof (rule share_inv_upd [OF assms(1), where p = p and q = "(proc s p)\<lparr>p_state := ZOMBIE\<rparr>"])
  have q: "quiet s" and r: "p < NPROC" "live (p_state (proc s p))" using assms(2) by (simp_all add: running_def live_def)
  note ff = exit_loop_fields [OF assms(3) q]
  show "quiet (upd_proc p (\<lambda>q. q\<lparr>p_state := ZOMBIE\<rparr>) s')" by (simp add: ff)
  show "proc (upd_proc p (\<lambda>q. q\<lparr>p_state := ZOMBIE\<rparr>) s') = (proc s)(p := (proc s p)\<lparr>p_state := ZOMBIE\<rparr>)"
    by (simp add: upd_proc_def ff)
  show "page_inv ((proc s)(p := (proc s p)\<lparr>p_state := ZOMBIE\<rparr>)) m (shmem (upd_proc p (\<lambda>q. q\<lparr>p_state := ZOMBIE\<rparr>) s') m)"
    if "m < SHMEM" for m
    using exit_sh_inv [OF share_inv_page [OF assms(1) that] r] ff(3) [OF that] by (simp add: upd_proc_def)
qed simp

lemma share_inv_step: "shm_step ex s s' \<Longrightarrow> share_inv s \<Longrightarrow> share_inv s'"
proof (induction rule: shm_step.induct)
  case (set_writable p s n s')
  then show ?case
    using share_inv_mem [OF share_inv_set [of s p n WRITABLE], of s'] running_ready [of p s n]
    by (auto simp: shmem_set_writable_eq shmem_states lk_comm running_def split: if_splits)
next
  case (set_unwritable p s n s')
  then show ?case using share_inv_set [of s p n UNWRITABLE] running_ready [of p s n]
    by (auto simp: shmem_set_unwritable_eq shmem_states split: if_splits)
next
  case (set_init p s n i v s')
  then show ?case using running_ready [of p s n]
    by (auto simp: shmem_set_init_int_eq share_inv_def upd_shmem_def lk_comm page_inv_def split: if_splits)
next
  case (write_int p s n i v s')
  then show ?case using running_ready [of p s n]
    by (auto simp: shmem_write_int_eq share_inv_def lk_comm split: if_splits)
next
  case (read_int p s n i v s')
  then show ?case using running_ready [of p s n]
    by (auto simp: shmem_read_int_eq share_inv_def lk_comm split: if_splits)
next
  case (acquire_access p s n b s')
  then show ?case using running_ready [of p s n] share_inv_acquire [of s p n]
    by (auto simp: shmem_acquire_access_eq share_inv_def lk_comm split: if_splits)
next
  case (release_access p s n s')
  then show ?case using running_ready [of p s n] share_inv_release [of s p n]
    by (auto simp: shmem_release_access_eq Let_def split: if_splits)
next
  case (fork_child p s np s')
  then have "quiet s" "np \<noteq> p" by (auto simp: running_def)
  with fork_child show ?case using share_inv_fork [of s p np] by (simp add: fork_tail_eq)
next
  case (exit_proc p s s')
  then show ?case by (intro share_inv_exit)
next
  case (alloc_proc s p pid)
  then show ?case unfolding upd_proc_def by (intro share_inv_proc) (simp_all add: live_def)
next
  case (user_init s p)
  then have "share_inv (upd_proc p (\<lambda>q. q\<lparr>p_state := RUNNABLE\<rparr>) s)" unfolding upd_proc_def
    by (intro share_inv_proc) (auto simp: live_def share_inv_def)
  then show ?case by (auto simp: share_inv_def)
next
  case (free_proc s p)
  then show ?case unfolding upd_proc_def
    by (intro share_inv_proc) (auto simp: live_def share_inv_def)
next
  case (exec_top p s)
  then show ?case unfolding upd_proc_def by (intro share_inv_proc) (auto simp: running_def)
next
  case (schedule s p st)
  then show ?case unfolding upd_proc_def by (intro share_inv_proc) (auto simp: live_def)
next
  case (switch s h c)
  then show ?case by (auto simp: share_inv_def quiet_def lk_free_def)
qed

lemma share_inv_reach: "shm_reach ex s \<Longrightarrow> share_inv s"
proof (induction rule: shm_reach.induct)
  case (start s)
  then have "acc (proc s) n = {}" for n by (auto simp: shm_start_def acc_def live_def)
  then show ?case using start by (simp add: shm_start_def share_inv_def page_inv_def)
qed (rule share_inv_step)

lemma fam_upd:
  assumes "fam_inv P n h"
    and "p < NPROC \<and> live (p_state q) \<and> p_shmem_access q n \<Longrightarrow> p_top_pid q = sh_using_top_pid h'"
    and "acc P n - {p} = {} \<or> sh_using_top_pid h' = sh_using_top_pid h"
    and "acc (P(p := q)) n = {} \<Longrightarrow> sh_state h' = NOT_SET"
  shows "fam_inv (P(p := q)) n h'"
  using assms unfolding fam_inv_def by (auto split: if_splits)

lemma fam_proc:
  assumes "family_inv s"
    and "\<And>n. n < SHMEM \<Longrightarrow> p < NPROC \<and> live (p_state q) \<and> p_shmem_access q n \<longleftrightarrow> p \<in> acc (proc s) n"
    and "\<And>n. n < SHMEM \<Longrightarrow> p \<in> acc (proc s) n \<longrightarrow> p_top_pid q = p_top_pid (proc s p)"
  shows "family_inv (s\<lparr>proc := (proc s)(p := q)\<rparr>)"
proof -
  have "fam_inv ((proc s)(p := q)) n (shmem s n)" if "n < SHMEM" for n
  proof -
    have f: "fam_inv (proc s) n (shmem s n)" using assms(1) that by (simp add: family_inv_def)
    have "acc ((proc s)(p := q)) n = acc (proc s) n" unfolding acc_upd assms(2) [OF that] by auto
    then show ?thesis using f assms(2,3) [OF that] by (intro fam_upd [OF f]) (simp_all add: fam_inv_def)
  qed
  then show ?thesis by (simp add: family_inv_def)
qed

lemma family_inv_page: "family_inv s \<Longrightarrow> n < SHMEM \<Longrightarrow> fam_inv (proc s) n (shmem s n)"
  by (simp add: family_inv_def)

lemma family_set:
  assumes "share_inv s" "family_inv s" "running p s" "n < SHMEM" "sh_state (shmem s n) = NOT_SET"
  shows "family_inv (page_set n p st (lk_cycle s))"
proof -
  have e: "acc (proc s) n = {}" using assms(1,4,5) by (auto simp: share_inv_def page_inv_def)
  have r: "p < NPROC" "p_state (proc s p) = RUNNING" using assms(3) by (simp_all add: running_def)
  have "fam_inv (proc (page_set n p st (lk_cycle s))) m (shmem (page_set n p st (lk_cycle s)) m)" if "m < SHMEM" for m
    using family_inv_page [OF assms(2) that] e r running_acc [OF assms(3), of m]
    by (cases "m = n") (auto simp: page_set_def shmem_upd lk_comm live_def fam_inv_def)
  then show ?thesis by (simp add: family_inv_def)
qed

lemma family_acquire:
  assumes "family_inv s" "running p s" "n < SHMEM" "p_top_pid (proc s p) = sh_using_top_pid (shmem s n)"
  shows "family_inv (upd_shmem n (\<lambda>h. h\<lparr>sh_numberofusers := s32 (sh_numberofusers h + 1)\<rparr>)
       (upd_proc p (\<lambda>q. q\<lparr>p_shmem_access := (p_shmem_access q)(n := True)\<rparr>) (lk_cycle s)))"
proof -
  have r: "p < NPROC" "p_state (proc s p) = RUNNING" using assms(2) by (simp_all add: running_def)
  show ?thesis unfolding family_inv_def
    using family_inv_page [OF assms(1)] r running_acc [OF assms(2)] assms(4)
    by (auto simp: shmem_upd lk_comm live_def fam_inv_def)
qed

lemma family_release:
  assumes "share_inv s" "family_inv s" "running p s" "n < SHMEM" "p_shmem_access (proc s p) n"
  shows "family_inv (let s = drop_access n p (lk_cycle s)
       in if sh_numberofusers (shmem s n) = 0 then set_lname (ShmemLock n) [] (page_reset n s) else s)" (is "family_inv ?t")
proof -
  have r: "p < NPROC" "p_state (proc s p) = RUNNING" using assms(3) by (simp_all add: running_def)
  have "fam_inv (proc ?t) m (shmem ?t m)" if "m < SHMEM" for m
  proof (cases "m = n")
    case True
    have a: "p \<in> acc (proc s) n" using running_acc [OF assms(3)] assms(5) by simp
    then have c: "s32 (sh_numberofusers (shmem s n) - 1) = 0 \<longleftrightarrow> acc (proc s) n = {p}"
      using users_card(2) [OF share_inv_page [OF assms(1,4)]]
      by (simp) (metis One_nat_def acc_finite card_1_singletonE card.empty card.insert finite.emptyI insert_absorb singletonD empty_iff of_nat_1 of_nat_eq_iff)
    show ?thesis using family_inv_page [OF assms(2) that] r c a True
      by (auto simp: shmem_upd lk_comm live_def fam_inv_def Let_def drop_access_def page_reset_def)
  next
    case False
    then show ?thesis using family_inv_page [OF assms(2) that] r running_acc [OF assms(3), of m]
      by (auto simp: shmem_upd lk_comm live_def fam_inv_def Let_def drop_access_def page_reset_def)
  qed
  then show ?thesis by (simp add: family_inv_def)
qed

lemma family_fork:
  assumes "share_inv s" "family_inv s" "running p s" "np < NPROC" "p_state (proc s np) = USED"
  shows "family_inv (forked np p (lk_cycle s))"
proof -
  have r: "p < NPROC" "p_state (proc s p) = RUNNING" and pn: "np \<noteq> p"
    using assms(3,5) by (auto simp: running_def)
  note ff = forked_fields [OF pn]
  have "fam_inv (proc (forked np p (lk_cycle s))) m (shmem (forked np p (lk_cycle s)) m)" if m: "m < SHMEM" for m
  proof -
    have P: "proc (forked np p (lk_cycle s)) = (proc s)(np := (proc s np)\<lparr>p_parent := Some p, p_top_pid := p_top_pid (proc s p),
      p_state := RUNNABLE, p_shmem_access := (\<lambda>i. if i < SHMEM then p_shmem_access (proc s p) i
        else p_shmem_access (proc s np) i)\<rparr>)" by (auto simp: ff(1) lk_comm fun_eq_iff)
    have np: "np \<notin> acc (proc s) m" using assms(1,4,5) m by (auto simp: share_inv_def acc_def)
    show ?thesis unfolding P ff(2) [OF m] using family_inv_page [OF assms(2) m] np m running_acc [OF assms(3), of m]
      by (intro fam_upd [where h = "shmem s m"]) (auto simp: lk_comm fam_inv_def split: if_splits)
  qed
  then show ?thesis by (simp add: family_inv_def)
qed

lemma family_exit:
  assumes "page_inv P n h" "fam_inv P n h" "p < NPROC" "live (p_state (P p))"
  shows "fam_inv (P(p := (P p)\<lparr>p_state := ZOMBIE\<rparr>)) n (exit_sh (p_shmem_access (P p) n) (p_top_pid (P p)) h)"
proof (cases "p_shmem_access (P p) n")
  case True
  then have a: "p \<in> acc P n" using assms by (simp add: acc_def)
  then have u: "sh_using_top_pid h = p_top_pid (P p)" using assms(2) by (simp add: fam_inv_def)
  have "s32 (sh_numberofusers h - 1) = 0 \<longleftrightarrow> acc P n - {p} = {}"
    using users_card(2) [OF assms(1)] a card_Diff_singleton [OF a] card_gt_0_iff [of "acc P n"]
      card_0_eq [of "acc P n - {p}"] by auto
  then show ?thesis using assms(2) True u
    by (intro fam_upd [OF assms(2)]) (auto simp: exit_sh_def Let_def live_def)
next
  case False
  then have n: "p \<notin> acc P n" by (simp add: acc_def)
  have z: "sh_numberofusers h = 0 \<longleftrightarrow> acc P n = {}" using assms(1) by (simp add: page_inv_def)
  then show ?thesis using assms(2) False n
    by (intro fam_upd [OF assms(2)]) (auto simp: exit_sh_def Let_def live_def fam_inv_def)
qed

lemma family_eq:
  "family_inv s \<Longrightarrow> proc s' = proc s \<Longrightarrow> shmem s' = shmem s \<Longrightarrow> family_inv s'"
  by (simp add: family_inv_def)

lemma family_step: "shm_step ex s s' \<Longrightarrow> \<not> ex \<Longrightarrow> share_inv s \<Longrightarrow> family_inv s \<Longrightarrow> family_inv s'"
proof (induction rule: shm_step.induct)
  case (set_writable p s n s')
  then show ?case
    using family_eq [OF family_set [of s p n WRITABLE], of s'] running_ready [of p s n]
    by (auto simp: shmem_set_writable_eq shmem_states lk_comm split: if_splits)
next
  case (set_unwritable p s n s')
  then show ?case using family_set [of s p n UNWRITABLE] running_ready [of p s n]
    by (auto simp: shmem_set_unwritable_eq shmem_states split: if_splits)
next
  case (set_init p s n i v s')
  then have "acc (proc s) n = {}" "shm_ready p n s"
    using running_ready [of p s n] share_inv_page [of s n]
    by (auto simp: shmem_set_init_int_eq page_inv_def split: if_splits)
  with set_init show ?case
    by (auto simp: shmem_set_init_int_eq family_inv_def fam_inv_def upd_shmem_def lk_comm split: if_splits)
next
  case (write_int p s n i v s')
  then show ?case using running_ready [of p s n] family_eq [of s s']
    by (auto simp: shmem_write_int_eq lk_comm split: if_splits)
next
  case (read_int p s n i v s')
  then show ?case using running_ready [of p s n] family_eq [of s s']
    by (auto simp: shmem_read_int_eq lk_comm split: if_splits)
next
  case (acquire_access p s n b s')
  then show ?case using running_ready [of p s n] family_acquire [of s p n] family_eq [of s s']
    by (auto simp: shmem_acquire_access_eq lk_comm split: if_splits)
next
  case (release_access p s n s')
  then show ?case using running_ready [of p s n] family_release [of s p n]
    by (auto simp: shmem_release_access_eq Let_def split: if_splits)
next
  case (fork_child p s np s')
  then have "quiet s" "np \<noteq> p" by (auto simp: running_def)
  with fork_child show ?case using family_fork [of s p np] by (simp add: fork_tail_eq)
next
  case (exit_proc p s s')
  then have r: "p < NPROC" "live (p_state (proc s p))" and q: "quiet s" by (simp_all add: running_def live_def)
  note ff = exit_loop_fields [OF exit_proc(3) q]
  show ?case unfolding family_inv_def
    using family_exit [OF share_inv_page family_inv_page r] exit_proc(5,6) ff(1,3) by (simp add: upd_proc_def)
next
  case (alloc_proc s p pid)
  then show ?case unfolding upd_proc_def by (intro fam_proc) (auto simp: live_def acc_def)
next
  case (user_init s p)
  then have "family_inv (upd_proc p (\<lambda>q. q\<lparr>p_state := RUNNABLE\<rparr>) s)" unfolding upd_proc_def
    by (intro fam_proc) (auto simp: live_def share_inv_def acc_def)
  then show ?case by (simp add: family_inv_def)
next
  case (free_proc s p)
  then show ?case unfolding upd_proc_def
    by (intro fam_proc) (auto simp: live_def share_inv_def acc_def)
next
  case (schedule s p st)
  then show ?case unfolding upd_proc_def by (intro fam_proc) (auto simp: live_def acc_def)
next
  case (switch s h c)
  then show ?case by (auto intro: family_eq)
qed simp

lemma family_reach: "shm_reach False s \<Longrightarrow> family_inv s"
proof (induction rule: shm_reach.induct)
  case (start s)
  then have "acc (proc s) n = {}" for n by (auto simp: shm_start_def acc_def live_def)
  then show ?case using start by (simp add: shm_start_def family_inv_def fam_inv_def)
next
  case (step s s')
  then show ?case using family_step [OF step(2)] share_inv_reach [OF step(1)] by simp
qed

section \<open>A concrete start, and runs from it\<close>

definition shm_boot :: pstate where
  "shm_boot = \<lparr>hart = 0, sie = (\<lambda>_. True),
     cpus = (\<lambda>_. \<lparr>cproc = None, noff = 0, intena = False\<rparr>),
     locks = (\<lambda>_. \<lparr>locked = False, lname = [], lcpu = None\<rparr>),
     pmem = (\<lambda>_. 0), freelist = 0, kend = 0x80040000, kernel_pagetable = 0, trampoline = 0, etext = 0,
     proc = (\<lambda>_. proc0),
     shmem = (\<lambda>n. \<lparr>sh_PHADDR = 0x80050000 + 4096 * of_nat n, sh_numberofusers = 0, sh_state = NOT_SET, sh_using_top_pid = - 1\<rparr>),
     initproc = None, nextpid = 1, forkret_pc = 0, initcode = 0\<rparr>"

lemma shm_boot_start: "shm_start shm_boot"
  by (simp add: shm_start_def shm_boot_def proc0_def quiet_def cpu_ok_def lk_free_def lock_defs)

lemma run_switch:
  assumes "shm_reach ex s" "p < NPROC" "p_state (proc s p) \<in> {SLEEPING, RUNNABLE, RUNNING}"
  shows "\<exists>s'. shm_reach ex s' \<and> running p s' \<and> proc s' = (proc s)(p := (proc s p)\<lparr>p_state := RUNNING\<rparr>)
    \<and> shmem s' = shmem s \<and> initproc s' = initproc s \<and> pmem s' = pmem s"
proof -
  have q: "quiet s" using share_inv_reach [OF assms(1)] by (simp add: share_inv_def)
  let ?s = "upd_proc p (\<lambda>q. q\<lparr>p_state := RUNNING\<rparr>) s"
  let ?c = "(cpus s)(hart s := (cpus s (hart s))\<lparr>cproc := Some p\<rparr>)"
  have "shm_step ex s ?s" using q assms(2,3) by (intro schedule) auto
  then have r: "shm_reach ex ?s" by (rule shm_reach.step [OF assms(1)])
  have ok: "cpu_ok (?s\<lparr>hart := hart s, cpus := ?c\<rparr>)" using q
    by (simp add: quiet_def cpu_ok_def lock_defs upd_proc_def)
  have "shm_step ex ?s (?s\<lparr>hart := hart s, cpus := ?c\<rparr>)" using q ok by (intro switch) simp_all
  then have "shm_reach ex (?s\<lparr>hart := hart s, cpus := ?c\<rparr>)" by (rule shm_reach.step [OF r])
  moreover have "running p (?s\<lparr>hart := hart s, cpus := ?c\<rparr>)" using ok q assms(2)
    by (simp add: running_def quiet_def upd_proc_def lk_free_def lock_defs)
  ultimately show ?thesis by (intro exI [of _ "?s\<lparr>hart := hart s, cpus := ?c\<rparr>"]) (simp add: upd_proc_def)
qed

lemma run_init:
  assumes "shm_reach ex s" "p < NPROC" "p_state (proc s p) = UNUSED"
  shows "\<exists>s'. shm_reach ex s' \<and> initproc s' = Some p \<and> shmem s' = shmem s \<and> pmem s' = pmem s
    \<and> proc s' = (proc s)(p := (proc s p)\<lparr>p_pid := pid, p_shmem_access_count := - 4,
       p_shmem_access := (\<lambda>i. if i < SHMEM then False else p_shmem_access (proc s p) i), p_state := RUNNABLE\<rparr>)"
proof -
  have q: "quiet s" using share_inv_reach [OF assms(1)] by (simp add: share_inv_def)
  let ?s = "upd_proc p (\<lambda>q. q\<lparr>p_state := USED, p_pid := pid, p_shmem_access_count := - 4,
       p_shmem_access := (\<lambda>i. if i < SHMEM then False else p_shmem_access q i)\<rparr>) s"
  let ?t = "(upd_proc p (\<lambda>q. q\<lparr>p_state := RUNNABLE\<rparr>) ?s)\<lparr>initproc := Some p\<rparr>"
  have "shm_reach ex ?s" using alloc_proc [OF q assms(2,3)] by (rule shm_reach.step [OF assms(1)])
  moreover have "shm_step ex ?s ?t" using q assms(2) by (intro user_init) (simp_all add: upd_proc_def)
  ultimately have "shm_reach ex ?t" by (rule shm_reach.step)
  then show ?thesis by (intro exI [of _ ?t]) (simp add: upd_proc_def)
qed

lemma run_fork:
  assumes "shm_reach ex s" "running p s" "np < NPROC" "p_state (proc s np) = UNUSED"
  shows "\<exists>s'. shm_reach ex s' \<and> initproc s' = initproc s \<and> pmem s' = pmem s
    \<and> proc s' = (proc s)(np := (proc s np)\<lparr>p_state := RUNNABLE, p_pid := pid, p_shmem_access_count := - 4,
       p_parent := Some p, p_top_pid := p_top_pid (proc s p),
       p_shmem_access := (\<lambda>i. if i < SHMEM then p_shmem_access (proc s p) i else p_shmem_access (proc s np) i)\<rparr>)
    \<and> (\<forall>n < SHMEM. shmem s' n = (shmem s n)\<lparr>sh_numberofusers := (if p_shmem_access (proc s p) n
      then s32 (sh_numberofusers (shmem s n) + 1) else sh_numberofusers (shmem s n))\<rparr>)"
proof -
  have q: "quiet s" and pn: "np \<noteq> p" using assms(2,4) by (auto simp: running_def)
  let ?s = "upd_proc np (\<lambda>q. q\<lparr>p_state := USED, p_pid := pid, p_shmem_access_count := - 4,
       p_shmem_access := (\<lambda>i. if i < SHMEM then False else p_shmem_access q i)\<rparr>) s"
  let ?t = "forked np p (lk_cycle ?s)"
  have r: "shm_reach ex ?s" using alloc_proc [OF q assms(3,4)] by (rule shm_reach.step [OF assms(1)])
  have run: "running p ?s" using assms(2) pn by (simp add: running_def upd_proc_def lk_comm)
  have "shm_step ex ?s ?t" using run assms(3) pn q
    by (intro fork_child [of p _ np]) (simp_all add: fork_tail_eq upd_proc_def)
  then have t: "shm_reach ex ?t" by (rule shm_reach.step [OF r])
  have i: "initproc ?t = initproc s \<and> pmem ?t = pmem s" using pn
    by (simp add: forked_def upt4 fork_share_eq upd_proc_def lk_comm del: SHMEM_def)
  have p: "proc ?t = (proc s)(np := (proc s np)\<lparr>p_state := RUNNABLE, p_pid := pid, p_shmem_access_count := - 4,
       p_parent := Some p, p_top_pid := p_top_pid (proc s p),
       p_shmem_access := (\<lambda>i. if i < SHMEM then p_shmem_access (proc s p) i else p_shmem_access (proc s np) i)\<rparr>)"
    using pn by (auto simp: forked_fields(1) [OF pn] upd_proc_def lk_comm fun_eq_iff intro!: proc.equality)
  have h: "\<forall>n < SHMEM. shmem ?t n = (shmem s n)\<lparr>sh_numberofusers := (if p_shmem_access (proc s p) n
      then s32 (sh_numberofusers (shmem s n) + 1) else sh_numberofusers (shmem s n))\<rparr>"
    using pn by (simp add: forked_fields(2) [OF pn] upd_proc_def lk_comm del: SHMEM_def)
  show ?thesis using t i p h by blast
qed

lemma run_exit:
  assumes "shm_reach ex s" "running p s" "initproc s \<noteq> Some p"
  shows "\<exists>s'. shm_reach ex s' \<and> proc s' = (proc s)(p := (proc s p)\<lparr>p_state := ZOMBIE\<rparr>)
    \<and> initproc s' = initproc s
    \<and> (\<forall>n < SHMEM. shmem s' n = exit_sh (p_shmem_access (proc s p) n) (p_top_pid (proc s p)) (shmem s n))"
proof -
  have q: "quiet s" using assms(2) by (simp add: running_def)
  let ?s = "exit_page p 3 (exit_page p 2 (exit_page p 1 (exit_page p 0 (lk_cycle s))))"
  have e: "for_each [0..<SHMEM] (exit_share p) s = Inr ?s" by (rule exit_loop_eq [OF q])
  let ?t = "upd_proc p (\<lambda>q. q\<lparr>p_state := ZOMBIE\<rparr>) ?s"
  have t: "shm_reach ex ?t" using exit_proc [OF assms(2,3) e] by (rule shm_reach.step [OF assms(1)])
  have i: "initproc ?t = initproc s" by (simp add: exit_page_def page_reset_def Let_def shmem_upd lk_comm)
  show ?thesis using t i exit_loop_fields [OF e q] by (intro exI [of _ ?t]) (simp add: upd_proc_def)
qed

lemma run_set:
  assumes "shm_reach ex s" "running p s" "n < SHMEM" "sh_state (shmem s n) = NOT_SET" "sh_using_top_pid (shmem s n) = - 1"
  shows "\<exists>s'. shm_reach ex s' \<and> running p s' \<and> initproc s' = initproc s \<and> pmem s' = pmem s
    \<and> proc s' = proc (page_set n p WRITABLE s) \<and> shmem s' = shmem (page_set n p WRITABLE s)"
proof -
  let ?t = "set_lname (ShmemLock n) (''shmem_'' @ [digit n]) (page_set n p WRITABLE (lk_cycle s))"
  have "shmem_set_writable n s = Inr ?t"
    using assms(4,5) by (simp add: shmem_set_writable_eq [OF running_ready [OF assms(2)]])
  then have r: "shm_reach ex ?t" using set_writable [OF assms(2,3)] shm_reach.step [OF assms(1)] by blast
  then have q: "quiet ?t" using share_inv_reach share_inv_def by blast
  have c: "mycpu ?t = mycpu (lk_cycle s)" by (simp add: page_set_def shmem_upd lk_comm)
  have "running p ?t" using assms(2) q c by (simp add: running_def page_set_def shmem_upd lk_comm)
  then show ?thesis using r by (intro exI [of _ ?t]) (simp add: page_set_def shmem_upd lk_comm)
qed

lemma run_exec:
  assumes "shm_reach True s" "running p s"
  shows "\<exists>s'. shm_reach True s' \<and> running p s' \<and> initproc s' = initproc s \<and> shmem s' = shmem s
    \<and> proc s' = (proc s)(p := (proc s p)\<lparr>p_top_pid := p_pid (proc s p)\<rparr>)"
proof -
  have "shm_reach True (upd_proc p (\<lambda>q. q\<lparr>p_top_pid := p_pid q\<rparr>) s)"
    using exec_top [OF TrueI assms(2)] by (rule shm_reach.step [OF assms(1)])
  moreover have "running p (upd_proc p (\<lambda>q. q\<lparr>p_top_pid := p_pid q\<rparr>) s)"
    using assms(2) by (simp add: running_def upd_proc_def lk_comm)
  ultimately show ?thesis by (intro exI [of _ "upd_proc p (\<lambda>q. q\<lparr>p_top_pid := p_pid q\<rparr>) s"]) (simp add: upd_proc_def)
qed

text \<open>Process 1 sets a page, forks process 2, which calls \<open>exec\<close>; then both exit.\<close>

lemma run_leak:
  "\<exists>s. shm_reach True s \<and> running 0 s \<and> p_state (proc s 0) = RUNNING \<and> p_top_pid (proc s 0) = 0
    \<and> p_state (proc s 1) = ZOMBIE \<and> p_state (proc s 2) = ZOMBIE \<and> (\<forall>p. 2 < p \<longrightarrow> p_state (proc s p) = UNUSED)
    \<and> sh_state (shmem s 0) = WRITABLE \<and> sh_using_top_pid (shmem s 0) = 2 \<and> sh_numberofusers (shmem s 0) = 0"
proof -
  have "shm_reach True shm_boot" using shm_boot_start by (rule shm_reach.start)
  from run_init [OF this, of 0 1] obtain a where a: "shm_reach True a" "initproc a = Some 0" "shmem a = shmem shm_boot"
    "proc a = (\<lambda>_. proc0)(0 := proc0\<lparr>p_pid := 1, p_shmem_access_count := - 4, p_state := RUNNABLE\<rparr>)"
    by (auto simp: shm_boot_def proc0_def)
  from run_switch [OF a(1), of 0] obtain b where b: "shm_reach True b" "running 0 b" "initproc b = Some 0" "shmem b = shmem a"
    "proc b = (proc a)(0 := (proc a 0)\<lparr>p_state := RUNNING\<rparr>)" using a(2,4) by auto
  from run_fork [OF b(1,2), of 1 2] obtain c where c: "shm_reach True c" "initproc c = Some 0"
    "p_state (proc c 0) = RUNNING" "p_top_pid (proc c 0) = 0" "p_state (proc c 1) = RUNNABLE"  "p_pid (proc c 1) = 2"
     "\<not> p_shmem_access (proc c 1) 0" "\<forall>p. 1 < p \<longrightarrow> proc c p = proc0" "shmem c 0 = shmem shm_boot 0"
    using a b by (auto simp: proc0_def)
  from run_switch [OF c(1), of 1] obtain d where d: "shm_reach True d" "running 1 d" "initproc d = Some 0" "shmem d = shmem c"
    "proc d = (proc c)(1 := (proc c 1)\<lparr>p_state := RUNNING\<rparr>)" using c(2,5) by auto
  from run_exec [OF d(1,2)] obtain e where e: "shm_reach True e" "running 1 e" "initproc e = Some 0" "shmem e = shmem d"
    "proc e = (proc d)(1 := (proc d 1)\<lparr>p_top_pid := p_pid (proc d 1)\<rparr>)" using d by auto
  from run_set [OF e(1,2), of 0] obtain f where f: "shm_reach True f" "running 1 f" "initproc f = Some 0"
    "proc f = proc (page_set 0 1 WRITABLE e)" "shmem f = shmem (page_set 0 1 WRITABLE e)"
    using a c d e by (auto simp: shm_boot_def)
  from run_fork [OF f(1,2), of 2 3] obtain g where g: "shm_reach True g" "initproc g = Some 0"
    "proc g 0 = proc f 0" "proc g 1 = proc f 1" "p_state (proc g 2) = RUNNABLE"  "p_pid (proc g 2) = 3"
     "p_shmem_access (proc g 2) 0" "\<forall>p. 2 < p \<longrightarrow> proc g p = proc0" "sh_state (shmem g 0) = WRITABLE"
     "sh_numberofusers (shmem g 0) = 2" "sh_using_top_pid (shmem g 0) = 2"
    using c d e f a by (auto simp: proc0_def page_set_def shmem_upd shm_boot_def s32_small)
  have g1: "p_state (proc g 1) = RUNNING" "p_top_pid (proc g 1) = 2" "p_shmem_access (proc g 1) 0"
      "p_state (proc g 0) = RUNNING" "p_top_pid (proc g 0) = 0"
    using c d e f g by (auto simp: page_set_def shmem_upd)
  from run_switch [OF g(1), of 2] obtain h where h: "shm_reach True h" "running 2 h" "initproc h = Some 0" "shmem h = shmem g"
    "proc h = (proc g)(2 := (proc g 2)\<lparr>p_state := RUNNING\<rparr>)" using g(2,5) by auto
  from run_exec [OF h(1,2)] obtain i where i: "shm_reach True i" "running 2 i" "initproc i = Some 0" "shmem i = shmem h"
    "proc i = (proc h)(2 := (proc h 2)\<lparr>p_top_pid := p_pid (proc h 2)\<rparr>)" using h by auto
  from run_switch [OF i(1), of 1] obtain j where j: "shm_reach True j" "running 1 j" "initproc j = Some 0" "shmem j = shmem i"
    "proc j = (proc i)(1 := (proc i 1)\<lparr>p_state := RUNNING\<rparr>)" using g1 h i by auto
  from run_exit [OF j(1,2)] obtain k where k: "shm_reach True k" "initproc k = Some 0"
    "proc k = (proc j)(1 := (proc j 1)\<lparr>p_state := ZOMBIE\<rparr>)" "sh_state (shmem k 0) = WRITABLE"
    "sh_numberofusers (shmem k 0) = 1" "sh_using_top_pid (shmem k 0) = 2"
    using g g1 h i j by (auto simp: exit_sh_def Let_def s32_small)
  from run_switch [OF k(1), of 2] obtain l where l: "shm_reach True l" "running 2 l" "initproc l = Some 0" "shmem l = shmem k"
    "proc l = (proc k)(2 := (proc k 2)\<lparr>p_state := RUNNING\<rparr>)" using k h i j by auto
  from run_exit [OF l(1,2)] obtain m where m: "shm_reach True m" "initproc m = Some 0"
    "proc m = (proc l)(2 := (proc l 2)\<lparr>p_state := ZOMBIE\<rparr>)" "sh_state (shmem m 0) = WRITABLE"
    "sh_numberofusers (shmem m 0) = 0" "sh_using_top_pid (shmem m 0) = 2"
    using g g1 h i j k l by (auto simp: exit_sh_def Let_def s32_small)
  from run_switch [OF m(1), of 0] obtain n where n: "shm_reach True n" "running 0 n" "shmem n = shmem m"
    "proc n = (proc m)(0 := (proc m 0)\<lparr>p_state := RUNNING\<rparr>)" using m g1 h i j k l by auto
  show ?thesis using m g g1 h i j k l n by (intro exI [of _ n]) (simp add: proc0_def)
qed

lemma run_first:
  "\<exists>s. shm_reach False s \<and> running 0 s \<and> p_shmem_access (proc s 0) 0 \<and> p_shmem_access_count (proc s 0) = - 3
    \<and> sh_state (shmem s 0) = WRITABLE \<and> sh_PHADDR (shmem s 0) = 0x80050000 \<and> shmem s 1 = shmem shm_boot 1 \<and> pmem s = (\<lambda>_. 0)"
proof -
  have "shm_reach False shm_boot" using shm_boot_start by (rule shm_reach.start)
  from run_init [OF this, of 0 1] obtain a where a: "shm_reach False a" "initproc a = Some 0" "shmem a = shmem shm_boot"
    "p_state (proc a 0) = RUNNABLE" "p_shmem_access_count (proc a 0) = - 4" "pmem a = (\<lambda>_. 0)" by (auto simp: shm_boot_def proc0_def)
  from run_switch [OF a(1), of 0] obtain b where b: "shm_reach False b" "running 0 b" "shmem b = shmem a"
    "p_shmem_access_count (proc b 0) = - 4" "pmem b = (\<lambda>_. 0)" using a(4-6) by auto
  from run_set [OF b(1,2), of 0] show ?thesis using a(3) b(3-5) by (auto simp: shm_boot_def page_set_def shmem_upd s32_small)
qed

section \<open>Properties\<close>






lemma elem_in_rng:
  fixes a :: u64
  assumes "0 \<le> i" "i < 1024"
  shows "in_rng (a + word_of_int (4 * i)) 4 x \<longleftrightarrow> (\<exists>k. 4 * i \<le> k \<and> k < 4 * i + 4 \<and> x = a + word_of_int k)"
proof
  assume "in_rng (a + word_of_int (4 * i)) 4 x"
  then obtain m :: nat where "m < 4" "x = a + word_of_int (4 * i) + of_nat m" using in_rng_iff [of 4] by auto
  then show "\<exists>k. 4 * i \<le> k \<and> k < 4 * i + 4 \<and> x = a + word_of_int k"
    by (intro exI [of _ "4 * i + int m"]) simp
next
  assume "\<exists>k. 4 * i \<le> k \<and> k < 4 * i + 4 \<and> x = a + word_of_int k"
  then obtain k where k: "4 * i \<le> k" "k < 4 * i + 4" "x = a + word_of_int k" by blast
  have "x = a + word_of_int (4 * i) + of_nat (nat (k - 4 * i))" using k by simp
  then show "in_rng (a + word_of_int (4 * i)) 4 x" using k in_rng_iff [of 4] by (auto intro!: exI [of _ "nat (k - 4 * i)"])
qed

lemma small_word_inj:
  assumes "0 \<le> k" "k < 4096" "0 \<le> l" "l < 4096" "a + word_of_int k = (a + word_of_int l :: u64)"
  shows "k = l"
proof -
  have "uint (word_of_int k :: u64) = uint (word_of_int l :: u64)" using assms(5) by simp
  then show ?thesis using assms(1-4) by (simp add: take_bit_int_eq_self uint_word_of_int_eq)
qed

lemma elem_disj:
  assumes "0 \<le> i" "i < 1024" "0 \<le> j" "j < 1024" "i \<noteq> j"
  shows "disj_rng (a + word_of_int (4 * i) :: u64) 4 (a + word_of_int (4 * j)) 4"
  unfolding disj_rng_def elem_in_rng [OF assms(1,2)] elem_in_rng [OF assms(3,4)]
proof (intro allI notI, elim conjE exE)
  fix x k l assume h: "4 * i \<le> k" "k < 4 * i + 4" "x = a + word_of_int k"
    "4 * j \<le> l" "l < 4 * j + 4" "x = a + word_of_int l"
  have "k = l" using h assms by (intro small_word_inj [of _ _ a]) auto
  then show False using h assms(5) by presburger
qed

lemma elem_in_page:
  assumes "0 \<le> i" "i < 1024" "in_rng (a + word_of_int (4 * i) :: u64) 4 x"
  shows "in_rng a 4096 x"
proof -
  obtain k where k: "4 * i \<le> k" "k < 4 * i + 4" "x = a + word_of_int k" using assms elem_in_rng by blast
  then have "uint (x - a) = k" using assms(1,2) by (simp add: take_bit_int_eq_self uint_word_of_int_eq)
  then have "unat (x - a) = nat k" unfolding unat_eq_nat_uint by simp
  then show ?thesis using k assms(1,2) by (simp add: in_rng_def)
qed

text \<open>
  C9: what one process writes to a writable page, another one reads. After \<open>shmem_write_int\<close> by
  \<open>p\<close>, and a switch to \<open>q\<close> (another current process, maybe on another hart) that has access,
  \<open>shmem_read_int\<close> returns the value at the index written and the old value at every other index.
\<close>

theorem shmem_write_then_read:
  assumes "running p s" and "n < SHMEM" and "shmem_write_int n i v s = Inr s'" and "in32 v"
    and "running q (s'\<lparr>hart := h, cpus := c\<rparr>)" and "p_shmem_access (proc s q) n"
    and "0 \<le> i" "i < 1024" "0 \<le> j" "j < 1024"
  shows "\<exists>t. shmem_read_int n j (s'\<lparr>hart := h, cpus := c\<rparr>) =
    Inr (if j = i then v else ldint (pmem s) (shmem_at n j s), t)"
proof -
  have w: "sh_state (shmem s n) = WRITABLE" "s' = (lk_cycle s)\<lparr>pmem := stint (pmem s) (shmem_at n i s) v\<rparr>"
    using assms(3) by (auto simp: shmem_write_int_eq [OF running_ready [OF assms(1)]] split: if_splits)
  have r: "shm_ready q n (s'\<lparr>hart := h, cpus := c\<rparr>)" by (rule running_ready [OF assms(5)])
  have "j \<noteq> i \<Longrightarrow> ldint (stint (pmem s) (shmem_at n i s) v) (shmem_at n j s) = ldint (pmem s) (shmem_at n j s)"
    unfolding shmem_at_def using assms(7-10) by (intro ldint_stint_other elem_disj) auto
  then show ?thesis unfolding shmem_read_int_eq [OF r] using w assms(4,6)
    by (simp add: shmem_states lk_comm shmem_at_def ldint_stint_same)
qed

lemma shmem_write_then_read_witness:
  "\<exists>(s :: pstate) s' t. shmem_write_int 0 5 (- 7) s = Inr s' \<and> shmem_read_int 0 5 s' = Inr (- 7, t)"
proof -
  obtain s where s: "running 0 s" "p_shmem_access (proc s 0) 0" "sh_state (shmem s 0) = WRITABLE"
    using run_first by blast
  let ?t = "(lk_cycle s)\<lparr>pmem := stint (pmem s) (shmem_at 0 5 s) (- 7)\<rparr>"
  have w: "shmem_write_int 0 5 (- 7) s = Inr ?t"
    using s(2,3) by (simp add: shmem_write_int_eq [OF running_ready [OF s(1)]])
  have e: "?t\<lparr>hart := hart ?t, cpus := cpus ?t\<rparr> = ?t" by simp
  have "running 0 ?t" using s(1) by (simp add: running_def quiet_def lk_comm)
  then have r: "running 0 (?t\<lparr>hart := hart ?t, cpus := cpus ?t\<rparr>)" unfolding e .
  have "\<exists>u. shmem_read_int 0 5 (?t\<lparr>hart := hart ?t, cpus := cpus ?t\<rparr>) = Inr (- 7, u)"
    using shmem_write_then_read [OF s(1) _ w _ r s(2), of 5] by (simp add: in32_def)
  then show ?thesis unfolding e using w by blast
qed




text \<open>
  C14: \<open>allocproc\<close> starts \<open>shmem_access_count\<close> at -4 (see \<open>Proc\<close>), and the counter selects the virtual
  address. A process that just set its first page has the value -3, one that inherited its access -4:
  with both, \<open>get_shmem_access\<close> asks for an address that is not below \<open>MAXVA\<close>, and the kernel panics.
\<close>

theorem get_shmem_access_panics:
  assumes "running p s" and "p_shmem_access (proc s p) n" and "p_shmem_access_count (proc s p) \<in> {- 4, - 3}"
  shows "get_shmem_access n 0 s = Inl (Panic ''walk'')"
proof -
  have "mappages pt (VASHMEM c) PGSIZE pa perm t = Inl (Panic ''walk'')" if "c \<in> {- 4, - 3}" for pt c pa perm and t :: pstate
    using that by (intro mappages_walk_panics) (auto simp: VASHMEM_def layout_values PGROUNDDOWN_def)
  then show ?thesis using running_ready [OF assms(1), of n] assms(2,3)
    by (simp add: get_shmem_access_def find_pid_def shm_ready_def lk_calc Let_def)
qed

lemma get_shmem_access_panics_witness:
  "\<exists>(s :: pstate). shm_reach False s \<and> get_shmem_access 0 0 s = Inl (Panic ''walk'')"
proof -
  obtain s where "shm_reach False s" "running 0 s" "p_shmem_access (proc s 0) 0" "p_shmem_access_count (proc s 0) = - 3"
    using run_first by blast
  then show ?thesis using get_shmem_access_panics [of 0 s 0] by auto
qed

end
