(* ===== verification/Bytes.thy ===== *)
theory Bytes
  imports Cmem
begin

text \<open>
  Kernel objects that are byte arrays (disk blocks, strings, structures copied to and from user
  space) as lists of bytes: little-endian fields, reading and writing a field at an offset, and
  the comparison and copy routines of kernel/string.c on such arrays.
\<close>

section \<open>Little-endian numbers\<close>

lemma unat_bound: "unat (w :: 'a::len word) < 2 ^ LENGTH('a)"
  by (rule unsigned_less)

fun le_nat :: "u8 list \<Rightarrow> nat" where
  "le_nat [] = 0"
| "le_nat (b # bs) = unat b + 256 * le_nat bs"

fun le_bytes :: "nat \<Rightarrow> nat \<Rightarrow> u8 list" where
  "le_bytes 0 x = []"
| "le_bytes (Suc n) x = of_nat x # le_bytes n (x div 256)"

lemma length_le_bytes [simp]: "length (le_bytes n x) = n"
  by (induction n arbitrary: x) simp_all

lemma le_nat_le_bytes: "le_nat (le_bytes n x) = x mod 256 ^ n"
proof (induction n arbitrary: x)
  case (Suc n)
  have "unat (of_nat x :: u8) = x mod 256" by (simp add: unat_of_nat)
  then show ?case by (simp add: Suc mod_mult2_eq add.commute)
qed simp

lemma le_nat_less: "le_nat bs < 256 ^ length bs"
proof (induction bs)
  case (Cons b bs)
  have "unat b < 256" using unat_bound [of b] by simp
  then show ?case using Cons by simp
qed simp

lemma le_bytes_le_nat: "le_bytes (length bs) (le_nat bs) = bs"
proof (induction bs)
  case (Cons b bs)
  have "unat b < 256" using unat_bound [of b] by simp
  then have "(unat b + 256 * le_nat bs) div 256 = le_nat bs" by simp
  moreover have "(of_nat (unat b + 256 * le_nat bs) :: u8) = b"
  proof -
    have "(256 :: u8) * x = 0" for x by transfer (simp add: take_bit_eq_mod)
    then show ?thesis by simp
  qed
  ultimately show ?case using Cons by simp
qed simp

definition u16_of_bytes :: "u8 list \<Rightarrow> u16" where "u16_of_bytes bs = of_nat (le_nat bs)"
definition u32_of_bytes :: "u8 list \<Rightarrow> u32" where "u32_of_bytes bs = of_nat (le_nat bs)"
definition u64_of_bytes :: "u8 list \<Rightarrow> u64" where "u64_of_bytes bs = of_nat (le_nat bs)"

definition u16_bytes :: "u16 \<Rightarrow> u8 list" where "u16_bytes w = le_bytes 2 (unat w)"
definition u32_bytes :: "u32 \<Rightarrow> u8 list" where "u32_bytes w = le_bytes 4 (unat w)"
definition u64_bytes :: "u64 \<Rightarrow> u8 list" where "u64_bytes w = le_bytes 8 (unat w)"

lemma length_word_bytes [simp]: "length (u16_bytes w) = 2" "length (u32_bytes v) = 4" "length (u64_bytes u) = 8"
  by (simp_all add: u16_bytes_def u32_bytes_def u64_bytes_def)

lemma word_bytes_inverse [simp]:
  "u16_of_bytes (u16_bytes w) = w" "u32_of_bytes (u32_bytes v) = v" "u64_of_bytes (u64_bytes u) = u"
  using unat_bound [of w] unat_bound [of v] unat_bound [of u]
  by (simp_all add: u16_of_bytes_def u32_of_bytes_def u64_of_bytes_def u16_bytes_def u32_bytes_def
      u64_bytes_def le_nat_le_bytes)

section \<open>Fields of an array\<close>

definition splice :: "u8 list \<Rightarrow> nat \<Rightarrow> u8 list \<Rightarrow> u8 list" where
  "splice bs off ys = take off bs @ ys @ drop (off + length ys) bs"

definition slice :: "u8 list \<Rightarrow> nat \<Rightarrow> nat \<Rightarrow> u8 list" where
  "slice bs off n = take n (drop off bs)"

lemma length_splice [simp]: "off + length ys \<le> length bs \<Longrightarrow> length (splice bs off ys) = length bs"
  by (simp add: splice_def)

lemma length_slice [simp]: "off + n \<le> length bs \<Longrightarrow> length (slice bs off n) = n"
  by (simp add: slice_def)

lemma nth_splice:
  "off + length ys \<le> length bs \<Longrightarrow> i < length bs \<Longrightarrow>
     splice bs off ys ! i = (if off \<le> i \<and> i < off + length ys then ys ! (i - off) else bs ! i)"
  by (auto simp: splice_def nth_append min_def)

lemma nth_slice: "off + n \<le> length bs \<Longrightarrow> i < n \<Longrightarrow> slice bs off n ! i = bs ! (off + i)"
  by (simp add: slice_def)

lemma slice_splice_same: "off + length ys \<le> length bs \<Longrightarrow> slice (splice bs off ys) off (length ys) = ys"
  by (rule nth_equalityI) (auto simp: nth_slice nth_splice)

lemma slice_splice_other:
  assumes "off + length ys \<le> length bs" "o' + n \<le> length bs" "o' + n \<le> off \<or> off + length ys \<le> o'"
  shows "slice (splice bs off ys) o' n = slice bs o' n"
  using assms by (intro nth_equalityI) (auto simp: nth_slice nth_splice)

lemma splice_slice_same: "off + n \<le> length bs \<Longrightarrow> splice bs off (slice bs off n) = bs"
  by (rule nth_equalityI) (auto simp: nth_slice nth_splice)

definition rd16 :: "u8 list \<Rightarrow> nat \<Rightarrow> u16" where "rd16 bs off = u16_of_bytes (slice bs off 2)"
definition rd32 :: "u8 list \<Rightarrow> nat \<Rightarrow> u32" where "rd32 bs off = u32_of_bytes (slice bs off 4)"
definition wr16 :: "u8 list \<Rightarrow> nat \<Rightarrow> u16 \<Rightarrow> u8 list" where "wr16 bs off w = splice bs off (u16_bytes w)"
definition wr32 :: "u8 list \<Rightarrow> nat \<Rightarrow> u32 \<Rightarrow> u8 list" where "wr32 bs off w = splice bs off (u32_bytes w)"

lemma length_wr [simp]:
  "off + 2 \<le> length bs \<Longrightarrow> length (wr16 bs off w) = length bs"
  "off + 4 \<le> length bs \<Longrightarrow> length (wr32 bs off v) = length bs"
  by (simp_all add: wr16_def wr32_def)

lemma rd_wr_same [simp]:
  "off + 2 \<le> length bs \<Longrightarrow> rd16 (wr16 bs off w) off = w"
  "off + 4 \<le> length bs \<Longrightarrow> rd32 (wr32 bs off v) off = v"
  using slice_splice_same [of off "u16_bytes w" bs] slice_splice_same [of off "u32_bytes v" bs]
  by (simp_all add: rd16_def rd32_def wr16_def wr32_def)

lemma rd_wr_other:
  "off + 4 \<le> length bs \<Longrightarrow> o' + 4 \<le> length bs \<Longrightarrow> o' + 4 \<le> off \<or> off + 4 \<le> o' \<Longrightarrow>
     rd32 (wr32 bs off v) o' = rd32 bs o'"
  "off + 2 \<le> length bs \<Longrightarrow> o' + 2 \<le> length bs \<Longrightarrow> o' + 2 \<le> off \<or> off + 2 \<le> o' \<Longrightarrow>
     rd16 (wr16 bs off w) o' = rd16 bs o'"
  "off + 2 \<le> length bs \<Longrightarrow> o' + 4 \<le> length bs \<Longrightarrow> o' + 4 \<le> off \<or> off + 2 \<le> o' \<Longrightarrow>
     rd32 (wr16 bs off w) o' = rd32 bs o'"
  "off + 4 \<le> length bs \<Longrightarrow> o' + 2 \<le> length bs \<Longrightarrow> o' + 2 \<le> off \<or> off + 4 \<le> o' \<Longrightarrow>
     rd16 (wr32 bs off v) o' = rd16 bs o'"
  by (simp_all add: rd16_def rd32_def wr16_def wr32_def slice_splice_other)

section \<open>Strings in arrays\<close>

text \<open>
  A C string held in an array: the bytes before the first NUL. \<open>strncmp\<close> and \<open>strncpy\<close> on arrays
  that hold at least \<open>n\<close> bytes or a NUL.
\<close>

definition cstring :: "u8 list \<Rightarrow> u8 list" where
  "cstring bs = takeWhile (\<lambda>c. c \<noteq> 0) bs"

fun strncmp_list :: "u8 list \<Rightarrow> u8 list \<Rightarrow> nat \<Rightarrow> int" where
  "strncmp_list (p # ps) (q # qs) (Suc n) =
     (if p \<noteq> 0 \<and> p = q then strncmp_list ps qs n else uint p - uint q)"
| "strncmp_list _ _ _ = 0"

definition strncpy_list :: "u8 list \<Rightarrow> nat \<Rightarrow> u8 list" where
  "strncpy_list t n = take n (cstring t @ replicate n 0)"

lemma length_strncpy_list [simp]: "length (strncpy_list t n) = n"
  by (simp add: strncpy_list_def)

lemma cstring_append_0: "cstring (cstring t @ 0 # u) = cstring t"
  unfolding cstring_def by (induction t) auto

lemma cstring_no_nul: "0 \<notin> set (cstring t)"
  unfolding cstring_def by (auto dest: set_takeWhileD)

end
