(* ===== verification/Syscall.thy ===== *)
theory Syscall
  imports Shmem Bytes
begin

text \<open>
  System call arguments (kernel/syscall.c) and the system calls on processes, time and shared pages
  (kernel/sysproc.c) that do not need the file system.

  The arguments are in the trapframe page of the current process. \<open>fetchaddr\<close> and \<open>fetchstr\<close> return
  \<open>None\<close> where the C functions return -1, and the value read otherwise. A system call returns the
  value that \<open>syscall()\<close> stores in \<open>a0\<close>; the \<open>void\<close> ones return only the state.
\<close>

unbundle bit_operations_syntax

record kstate = pstate +
  ticks :: u32

section \<open>Arguments\<close>

definition fetchaddr :: "u64 \<Rightarrow> 'a pstate_scheme \<Rightarrow> fault + u64 option \<times> 'a pstate_scheme" where
  "fetchaddr addr s =
     bnd (the_proc s) (\<lambda>(p, s).
     if addr \<ge> p_sz (proc s p) \<or> addr + 8 > p_sz (proc s p) then Inr (None, s)
     else bnd (copyin (p_pagetable (proc s p)) addr 8 s) (\<lambda>(r, bs).
          if r \<noteq> 0 then Inr (None, s) else Inr (Some (u64_of_bytes bs), s)))"

definition fetchstr :: "u64 \<Rightarrow> nat \<Rightarrow> 'a pstate_scheme \<Rightarrow> fault + u8 list option \<times> 'a pstate_scheme" where
  "fetchstr addr mx s =
     bnd (the_proc s) (\<lambda>(p, s).
     bnd (copyinstr (p_pagetable (proc s p)) addr mx s) (\<lambda>(r, bs).
     if r < 0 then Inr (None, s) else Inr (Some (takeWhile (\<lambda>c. c \<noteq> 0) bs), s)))"

definition argraw :: "int \<Rightarrow> 'a pstate_scheme \<Rightarrow> fault + u64 \<times> 'a pstate_scheme" where
  "argraw n s =
     bnd (the_proc s) (\<lambda>(p, s).
     if 0 \<le> n \<and> n \<le> 5 then Inr (ld64 (pmem s) (p_trapframe (proc s p) + TF_a (nat n)), s)
     else Inl (Panic ''argraw''))"

definition argint :: "int \<Rightarrow> 'a pstate_scheme \<Rightarrow> fault + int \<times> 'a pstate_scheme" where
  "argint n s = bnd (argraw n s) (\<lambda>(r, s). Inr (int_of_u64 r, s))"

definition argaddr :: "int \<Rightarrow> 'a pstate_scheme \<Rightarrow> fault + u64 \<times> 'a pstate_scheme" where
  "argaddr n s = argraw n s"

definition argstr :: "int \<Rightarrow> nat \<Rightarrow> 'a pstate_scheme \<Rightarrow> fault + u8 list option \<times> 'a pstate_scheme" where
  "argstr n mx s = bnd (argaddr n s) (\<lambda>(addr, s). fetchstr addr mx s)"

section \<open>Processes and time\<close>

text \<open>
  A call that may sleep is written as the steps between two sleeps: a step ends with \<open>Done\<close>, or with
  \<open>Blocks ch lk\<close> where the C code calls \<open>sleep(ch, lk)\<close>; after the wake-up the next step runs.
\<close>

datatype 'r run = Done 'r | Blocks chan lockid

definition sys_getpid :: "'a pstate_scheme \<Rightarrow> fault + u64 \<times> 'a pstate_scheme" where
  "sys_getpid s = bnd (the_proc s) (\<lambda>(p, s). Inr (u64_of_int (p_pid (proc s p)), s))"

definition sys_sbrk :: "'a pstate_scheme \<Rightarrow> fault + u64 \<times> 'a pstate_scheme" where
  "sys_sbrk s =
     bnd (argint 0 s) (\<lambda>(n, s).
     bnd (the_proc s) (\<lambda>(p, s).
     let addr = int_of_u64 (p_sz (proc s p))
     in bnd (growproc n s) (\<lambda>(r, s).
        if r < 0 then Inr (- 1, s) else Inr (u64_of_int addr, s))))"

text \<open>\<open>ticks - ticks0 < n\<close> compares unsigned values: \<open>n\<close> is converted.\<close>

definition sleep_check :: "u32 \<Rightarrow> int \<Rightarrow> 'a kstate_scheme \<Rightarrow> fault + u64 run \<times> 'a kstate_scheme" where
  "sleep_check ticks0 n s =
     (if ticks s - ticks0 < word_of_int n
      then bnd (the_proc s) (\<lambda>(p, s).
           if p_killed (proc s p) \<noteq> 0 then bnd (release TicksLock s) (\<lambda>s. Inr (Done (- 1), s))
           else Inr (Blocks ChTicks TicksLock, s))
      else bnd (release TicksLock s) (\<lambda>s. Inr (Done 0, s)))"

definition sys_sleep :: "'a kstate_scheme \<Rightarrow> fault + (u32 \<times> int \<times> u64 run) \<times> 'a kstate_scheme" where
  "sys_sleep s =
     bnd (argint 0 s) (\<lambda>(n, s).
     bnd (acquire TicksLock s) (\<lambda>s.
     let ticks0 = ticks s
     in bnd (sleep_check ticks0 n s) (\<lambda>(r, s). Inr ((ticks0, n, r), s))))"

definition sys_kill :: "'a pstate_scheme \<Rightarrow> fault + u64 \<times> 'a pstate_scheme" where
  "sys_kill s = bnd (argint 0 s) (\<lambda>(pid, s). bnd (kill pid s) (\<lambda>(r, s). Inr (u64_of_int r, s)))"

definition sys_uptime :: "'a kstate_scheme \<Rightarrow> fault + u64 \<times> 'a kstate_scheme" where
  "sys_uptime s =
     bnd (acquire TicksLock s) (\<lambda>s.
     let xticks = ticks s
     in bnd (release TicksLock s) (\<lambda>s. Inr (ucast xticks, s)))"

section \<open>Shared pages\<close>

text \<open>The check of the page number, the same in every call.\<close>

definition page_ok :: "int \<Rightarrow> bool" where
  "page_ok page_number \<longleftrightarrow> \<not> (page_number < 0 \<or> page_number > int SHMEM - 1)"

definition sys_is_top_parent_process :: "'a pstate_scheme \<Rightarrow> fault + u64 \<times> 'a pstate_scheme" where
  "sys_is_top_parent_process s = bnd (is_top_parent_process s) (\<lambda>(b, s). Inr (of_bool b, s))"

definition sys_shmem_access :: "'a pstate_scheme \<Rightarrow> fault + u64 \<times> 'a pstate_scheme" where
  "sys_shmem_access s =
     bnd (argint 0 s) (\<lambda>(page_number, s).
     if \<not> page_ok page_number then Inr (0, s)
     else get_shmem_access (nat page_number) 0 s)"

definition sys_shmem_count :: "'a pstate_scheme \<Rightarrow> fault + u64 \<times> 'a pstate_scheme" where
  "sys_shmem_count s =
     bnd (argint 0 s) (\<lambda>(page_number, s).
     if \<not> page_ok page_number then Inr (- 1, s)
     else Inr (u64_of_int (count_shmem (nat page_number) s), s))"

definition sys_shmem_state :: "'a pstate_scheme \<Rightarrow> fault + u64 \<times> 'a pstate_scheme" where
  "sys_shmem_state s =
     bnd (argint 0 s) (\<lambda>(page_number, s).
     if \<not> page_ok page_number then Inr (- 1, s)
     else Inr (u64_of_int (shmem_state (nat page_number) s), s))"

definition sys_shmem_set_writable :: "'a pstate_scheme \<Rightarrow> fault + 'a pstate_scheme" where
  "sys_shmem_set_writable s =
     bnd (argint 0 s) (\<lambda>(page_number, s).
     if \<not> page_ok page_number then Inr s else shmem_set_writable (nat page_number) s)"

definition sys_shmem_set_unwritable :: "'a pstate_scheme \<Rightarrow> fault + 'a pstate_scheme" where
  "sys_shmem_set_unwritable s =
     bnd (argint 0 s) (\<lambda>(page_number, s).
     if \<not> page_ok page_number then Inr s else shmem_set_unwritable (nat page_number) s)"

definition sys_shmem_set_init_int :: "'a pstate_scheme \<Rightarrow> fault + 'a pstate_scheme" where
  "sys_shmem_set_init_int s =
     bnd (argint 0 s) (\<lambda>(page_number, s).
     bnd (argint 1 s) (\<lambda>(index, s).
     bnd (argint 2 s) (\<lambda>(val, s).
     if \<not> page_ok page_number then Inr s else shmem_set_init_int (nat page_number) index val s)))"

definition sys_shmem_write_int :: "'a pstate_scheme \<Rightarrow> fault + 'a pstate_scheme" where
  "sys_shmem_write_int s =
     bnd (argint 0 s) (\<lambda>(page_number, s).
     bnd (argint 1 s) (\<lambda>(index, s).
     bnd (argint 2 s) (\<lambda>(val, s).
     if \<not> page_ok page_number then Inr s else shmem_write_int (nat page_number) index val s)))"

definition sys_shmem_read_int :: "'a pstate_scheme \<Rightarrow> fault + u64 \<times> 'a pstate_scheme" where
  "sys_shmem_read_int s =
     bnd (argint 0 s) (\<lambda>(page_number, s).
     bnd (argint 1 s) (\<lambda>(index, s).
     if \<not> page_ok page_number then Inr (- 1, s)
     else bnd (shmem_read_int (nat page_number) index s) (\<lambda>(v, s). Inr (u64_of_int v, s))))"

definition sys_shmem_acquire_access :: "'a pstate_scheme \<Rightarrow> fault + u64 \<times> 'a pstate_scheme" where
  "sys_shmem_acquire_access s =
     bnd (argint 0 s) (\<lambda>(page_number, s).
     if \<not> page_ok page_number then Inr (0, s)
     else bnd (shmem_acquire_access (nat page_number) s) (\<lambda>(b, s). Inr (of_bool b, s)))"

definition sys_shmem_release_access :: "'a pstate_scheme \<Rightarrow> fault + 'a pstate_scheme" where
  "sys_shmem_release_access s =
     bnd (argint 0 s) (\<lambda>(page_number, s).
     if \<not> page_ok page_number then Inr s else shmem_release_access (nat page_number) s)"

end
