(* ===== verification/Sleeplock.thy ===== *)
theory Sleeplock
  imports Syscall
begin

text \<open>
  Sleep locks (kernel/sleeplock.c) and the wake-up of sleeping processes.

  A sleep lock is named by the buffer or inode that holds it; the map \<open>sleeplocks\<close> has their contents,
  and \<open>SleepLk l\<close> is the spinlock that protects the lock \<open>l\<close>. \<open>acquiresleep\<close> is written as the steps
  between two sleeps; a caller that does not model the wait uses the whole call, which ends in
  \<open>Asleep\<close> when the lock is taken.
\<close>

record sleeplock =
  sl_locked :: bool
  sl_name :: string
  sl_pid :: int

record slstate = kstate +
  sleeplocks :: "slid \<Rightarrow> sleeplock"

definition upd_sl :: "slid \<Rightarrow> (sleeplock \<Rightarrow> sleeplock) \<Rightarrow> 'a slstate_scheme \<Rightarrow> 'a slstate_scheme" where
  "upd_sl l f s = s\<lparr>sleeplocks := (sleeplocks s)(l := f (sleeplocks s l))\<rparr>"

definition initsleeplock :: "slid \<Rightarrow> string \<Rightarrow> 'a slstate_scheme \<Rightarrow> 'a slstate_scheme" where
  "initsleeplock l name s =
     (let s = initlock (SleepLk l) ''sleep lock'' s
      in upd_sl l (\<lambda>k. k\<lparr>sl_name := name, sl_locked := False, sl_pid := 0\<rparr>) s)"

definition acquiresleep_check :: "slid \<Rightarrow> 'a slstate_scheme \<Rightarrow> fault + unit run \<times> 'a slstate_scheme" where
  "acquiresleep_check l s =
     (if sl_locked (sleeplocks s l) then Inr (Blocks (ChSleep l) (SleepLk l), s)
      else let s = upd_sl l (\<lambda>k. k\<lparr>sl_locked := True\<rparr>) s
           in bnd (the_proc s) (\<lambda>(p, s).
              let s = upd_sl l (\<lambda>k. k\<lparr>sl_pid := p_pid (proc s p)\<rparr>) s
              in bnd (release (SleepLk l) s) (\<lambda>s. Inr (Done (), s))))"

definition acquiresleep :: "slid \<Rightarrow> 'a slstate_scheme \<Rightarrow> fault + 'a slstate_scheme" where
  "acquiresleep l s =
     bnd (acquire (SleepLk l) s) (\<lambda>s.
     bnd (acquiresleep_check l s) (\<lambda>(r, s).
       case r of Done _ \<Rightarrow> Inr s | Blocks ch lk \<Rightarrow> Inl (Asleep ch)))"

definition releasesleep :: "slid \<Rightarrow> 'a slstate_scheme \<Rightarrow> fault + 'a slstate_scheme" where
  "releasesleep l s =
     bnd (acquire (SleepLk l) s) (\<lambda>s.
     let s = upd_sl l (\<lambda>k. k\<lparr>sl_locked := False, sl_pid := 0\<rparr>) s
     in bnd (wakeup (ChSleep l) s) (\<lambda>s. release (SleepLk l) s))"

definition holdingsleep :: "slid \<Rightarrow> 'a slstate_scheme \<Rightarrow> fault + bool \<times> 'a slstate_scheme" where
  "holdingsleep l s =
     bnd (acquire (SleepLk l) s) (\<lambda>s.
     bnd (if sl_locked (sleeplocks s l)
          then bnd (the_proc s) (\<lambda>(p, s). Inr (sl_pid (sleeplocks s l) = p_pid (proc s p), s))
          else Inr (False, s)) (\<lambda>(r, s).
     bnd (release (SleepLk l) s) (\<lambda>s. Inr (r, s))))"

section \<open>What a call does\<close>

lemma slstate_comm [lk_comm]:
  "acquire l (s\<lparr>sleeplocks := x0\<rparr>) = bnd (acquire l s) (\<lambda>s. Inr (s\<lparr>sleeplocks := x0\<rparr>))"
  "release l (s\<lparr>sleeplocks := x0\<rparr>) = bnd (release l s) (\<lambda>s. Inr (s\<lparr>sleeplocks := x0\<rparr>))"
  "holding l (s\<lparr>sleeplocks := x0\<rparr>) = holding l s" "mycpu (s\<lparr>sleeplocks := x0\<rparr>) = mycpu s" "intr_get (s\<lparr>sleeplocks := x0\<rparr>) = intr_get s"
  "lk_free l (s\<lparr>sleeplocks := x0\<rparr>) = lk_free l s" "cpu_ok (s\<lparr>sleeplocks := x0\<rparr>) = cpu_ok s"
  "lk_on l (s\<lparr>sleeplocks := x0\<rparr>) = (lk_on l s)\<lparr>sleeplocks := x0\<rparr>"
  "lk_cycle (s\<lparr>sleeplocks := x0\<rparr>) = (lk_cycle s)\<lparr>sleeplocks := x0\<rparr>"
  "set_lname k nm (s\<lparr>sleeplocks := x0\<rparr>) = (set_lname k nm s)\<lparr>sleeplocks := x0\<rparr>"
  "sleeplocks (lk_on l s) = sleeplocks s" "sleeplocks (lk_cycle s) = sleeplocks s" "sleeplocks (set_lname k nm s) = sleeplocks s"
  "acquire l (s\<lparr>ticks := x1\<rparr>) = bnd (acquire l s) (\<lambda>s. Inr (s\<lparr>ticks := x1\<rparr>))"
  "release l (s\<lparr>ticks := x1\<rparr>) = bnd (release l s) (\<lambda>s. Inr (s\<lparr>ticks := x1\<rparr>))"
  "holding l (s\<lparr>ticks := x1\<rparr>) = holding l s" "mycpu (s\<lparr>ticks := x1\<rparr>) = mycpu s" "intr_get (s\<lparr>ticks := x1\<rparr>) = intr_get s"
  "lk_free l (s\<lparr>ticks := x1\<rparr>) = lk_free l s" "cpu_ok (s\<lparr>ticks := x1\<rparr>) = cpu_ok s"
  "lk_on l (s\<lparr>ticks := x1\<rparr>) = (lk_on l s)\<lparr>ticks := x1\<rparr>"
  "lk_cycle (s\<lparr>ticks := x1\<rparr>) = (lk_cycle s)\<lparr>ticks := x1\<rparr>"
  "set_lname k nm (s\<lparr>ticks := x1\<rparr>) = (set_lname k nm s)\<lparr>ticks := x1\<rparr>"
  "ticks (lk_on l s) = ticks s" "ticks (lk_cycle s) = ticks s" "ticks (set_lname k nm s) = ticks s"
  by (simp_all add: lk_free_def cpu_ok_def lk_cycle_def lk_on_def set_lname_def lock_defs Let_def)

text \<open>The process table after \<open>wakeup(ch)\<close> by the process \<open>me\<close>.\<close>

definition wake :: "chan \<Rightarrow> nat option \<Rightarrow> (nat \<Rightarrow> proc) \<Rightarrow> nat \<Rightarrow> proc" where
  "wake ch me P p =
     (if p < NPROC \<and> me \<noteq> Some p \<and> p_state (P p) = SLEEPING \<and> p_chan (P p) = Some ch
      then (P p)\<lparr>p_state := RUNNABLE\<rparr> else P p)"

lemma wake_keeps [simp]:
  "p_pid (wake ch me P p) = p_pid (P p)" "p_chan (wake ch me P p) = p_chan (P p)"
  "p_pagetable (wake ch me P p) = p_pagetable (P p)" "p_sz (wake ch me P p) = p_sz (P p)"
  "p_trapframe (wake ch me P p) = p_trapframe (P p)" "p_ofile (wake ch me P p) = p_ofile (P p)"
  "p_cwd (wake ch me P p) = p_cwd (P p)" "p_killed (wake ch me P p) = p_killed (P p)"
  "p_shmem_access (wake ch me P p) = p_shmem_access (P p)" "p_top_pid (wake ch me P p) = p_top_pid (P p)"
  "p_parent (wake ch me P p) = p_parent (P p)" "p_name (wake ch me P p) = p_name (P p)"
  "wake ch (Some q) P q = P q"
  by (simp_all add: wake_def)

definition procs_free :: "'a pstate_scheme \<Rightarrow> bool" where
  "procs_free s \<longleftrightarrow> (\<forall>p < NPROC. lk_free (ProcLock p) s)"

lemma wakeup_eq:
  assumes "cpu_ok s" "procs_free s"
  shows "wakeup ch s = Inr ((lk_cycle s)\<lparr>proc := wake ch (cproc (mycpu s)) (proc s)\<rparr>)"
proof -
  let ?me = "cproc (mycpu s)"
  let ?w = "\<lambda>k. (\<lambda>p. if p < k then wake ch ?me (proc s) p else proc s p)"
  let ?f = "\<lambda>p s. bnd (myproc s) (\<lambda>(me, s).
       if me = Some p then Inr s
       else bnd (acquire (ProcLock p) s) (\<lambda>s.
            let s = (if p_state (proc s p) = SLEEPING \<and> p_chan (proc s p) = Some ch
                     then upd_proc p (\<lambda>q. q\<lparr>p_state := RUNNABLE\<rparr>) s else s)
            in release (ProcLock p) s))"
  have st: "?f p ((lk_cycle s)\<lparr>proc := ?w p\<rparr>) = Inr ((lk_cycle s)\<lparr>proc := ?w (Suc p)\<rparr>)" if p: "p < NPROC" for p
  proof -
    have fr: "lk_free (ProcLock p) s" using assms(2) p by (simp add: procs_free_def)
    have wp: "?w (Suc p) = (?w p)(p := wake ch ?me (proc s) p)" by (auto simp: fun_eq_iff less_Suc_eq)
    have id: "(?w p)(p := proc s p) = ?w p" by auto
    show ?thesis unfolding wp using assms(1) p fr
      by (auto simp: lk_calc Let_def upd_proc_def wake_def [of _ _ _ p] id)
  qed
  have "k \<le> NPROC \<Longrightarrow> for_each [0..<k] ?f ((lk_cycle s)\<lparr>proc := proc s\<rparr>) = Inr ((lk_cycle s)\<lparr>proc := ?w k\<rparr>)" for k
    by (induction k) (simp_all add: for_each_append st del: bnd_def)
  note this [of NPROC]
  moreover have "?w NPROC = wake ch ?me (proc s)" by (auto simp: fun_eq_iff wake_def)
  moreover have "for_each [0..<NPROC] ?f s = for_each [0..<NPROC] ?f ((lk_cycle s)\<lparr>proc := proc s\<rparr>)"
  proof -
    have pc: "proc (lk_cycle s) = proc s" by (simp add: lk_comm)
    have "(lk_cycle s)\<lparr>proc := proc (lk_cycle s)\<rparr> = lk_cycle s" by simp
    then have e: "(lk_cycle s)\<lparr>proc := proc s\<rparr> = lk_cycle s" by (simp only: pc)
    have "?f 0 s = ?f 0 ((lk_cycle s)\<lparr>proc := proc s\<rparr>)" unfolding e using assms(1) by (simp add: myproc_eq)
    moreover have "[0..<NPROC] = 0 # [1..<NPROC]" by (simp add: upt_conv_Cons)
    ultimately show ?thesis by simp
  qed
  ultimately show ?thesis unfolding wakeup_def by simp
qed

text \<open>The calls by the current process \<open>p\<close> while no spinlock is held.\<close>

definition calm :: "nat \<Rightarrow> 'a pstate_scheme \<Rightarrow> bool" where
  "calm p s \<longleftrightarrow> cpu_ok s \<and> (\<forall>l. lk_free l s) \<and> cproc (mycpu s) = Some p"

lemma calm_simps [simp]:
  "calm p (lk_cycle s) = calm p s" "calm p (s\<lparr>proc := P\<rparr>) = calm p s" 
  by (simp_all add: calm_def lk_comm)

lemma calm_sl [simp]: "calm p (s\<lparr>sleeplocks := x\<rparr>) = calm p s"
  by (simp add: calm_def lk_comm)

lemma calmD: "calm p s \<Longrightarrow> cpu_ok s" "calm p s \<Longrightarrow> lk_free l s" "calm p s \<Longrightarrow> cproc (mycpu s) = Some p"
    "calm p s \<Longrightarrow> procs_free s"
  by (simp_all add: calm_def procs_free_def)

lemma acquiresleep_eq:
  assumes "calm p s"
  shows "acquiresleep l s = (if sl_locked (sleeplocks s l) then Inl (Asleep (ChSleep l))
    else Inr (upd_sl l (\<lambda>k. k\<lparr>sl_locked := True, sl_pid := p_pid (proc s p)\<rparr>) (lk_cycle s)))"
  using calmD [OF assms]
  by (simp add: acquiresleep_def acquiresleep_check_def lk_calc lk_comm Let_def upd_sl_def)

lemma releasesleep_eq:
  assumes "calm p s"
  shows "releasesleep l s = Inr ((upd_sl l (\<lambda>k. k\<lparr>sl_locked := False, sl_pid := 0\<rparr>) (lk_cycle s))
    \<lparr>proc := wake (ChSleep l) (Some p) (proc s)\<rparr>)"
proof -
  have "procs_free (lk_on (SleepLk l) s)" using assms by (simp add: procs_free_def calm_def)
  then have "procs_free ((lk_on (SleepLk l) s)\<lparr>sleeplocks := x\<rparr>)" for x by (simp add: procs_free_def lk_comm)
  then show ?thesis using calmD [OF assms]
    by (simp add: releasesleep_def lk_calc lk_comm Let_def upd_sl_def wakeup_eq)
qed

lemma holdingsleep_eq:
  assumes "calm p s"
  shows "holdingsleep l s = Inr (sl_locked (sleeplocks s l) \<and> sl_pid (sleeplocks s l) = p_pid (proc s p), lk_cycle s)"
  using calmD [OF assms]
  by (simp add: holdingsleep_def lk_calc lk_comm Let_def)

section \<open>Wakeups inside a critical section\<close>

lemma wake_idem [simp]: "wake ch me (wake ch me P) = wake ch me P"
  by (auto simp: wake_def fun_eq_iff)

text \<open>A section in which a process may be woken: the hart holds a lock, and nobody those of the processes.\<close>

definition section_ok :: "'a pstate_scheme \<Rightarrow> bool" where
  "section_ok s \<longleftrightarrow> cpu_ok s \<and> procs_free s \<and> 0 < noff (mycpu s)"

lemma section_wakeup: "section_ok s \<Longrightarrow> wakeup ch s = Inr (s\<lparr>proc := wake ch (cproc (mycpu s)) (proc s)\<rparr>)"
  by (simp add: section_ok_def wakeup_eq lk_cycle_nested)

lemma section_proc [simp]: "section_ok (s\<lparr>proc := P\<rparr>) = section_ok s"
  by (simp add: section_ok_def procs_free_def lk_comm)

lemma calm_section: "calm p s \<Longrightarrow> (\<And>q. l \<noteq> ProcLock q) \<Longrightarrow> section_ok (lk_on l s)"
  by (auto simp: section_ok_def calm_def procs_free_def cpu_ok_lk_on noff_lk_on)

end
