(* ===== verification/Bio.thy ===== *)
theory Bio
  imports Sleeplock
begin

text \<open>
  The buffer cache (kernel/bio.c, kernel/buf.h).

  The buffers are the entries 0 to \<open>NBUF - 1\<close> of the map \<open>bufs\<close>; the list head is the entry \<open>NBUF\<close>, of
  which only the links are used. The two scans of \<open>bget\<close> follow the links, with fuel for one turn
  around the list. The disk is a map from block numbers to blocks: a transfer by the driver
  (\<open>virtio_disk_rw\<close>, kernel/virtio_disk.c) reads or writes the block of the buffer; \<open>dwrites\<close> is the
  history of the writes, newest last, which the crash theorems cut at any point.
\<close>

definition NBUF :: nat where [simp]: "NBUF = 30"
definition BSIZE :: nat where [simp]: "BSIZE = 1024"

type_synonym block = "u8 list"

record buf =
  b_valid :: bool
  b_disk :: bool
  b_dev :: u32
  b_blockno :: u32
  b_refcnt :: u32
  b_prev :: nat
  b_next :: nat
  b_data :: block

record bstate = slstate +
  bufs :: "nat \<Rightarrow> buf"
  disk :: "u32 \<Rightarrow> block"
  dwrites :: "(u32 \<times> block) list"

definition upd_buf :: "nat \<Rightarrow> (buf \<Rightarrow> buf) \<Rightarrow> 'a bstate_scheme \<Rightarrow> 'a bstate_scheme" where
  "upd_buf b f s = s\<lparr>bufs := (bufs s)(b := f (bufs s b))\<rparr>"

section \<open>Operations\<close>

definition bhead :: nat where "bhead = NBUF"

definition binit_buf :: "nat \<Rightarrow> 'a bstate_scheme \<Rightarrow> 'a bstate_scheme" where
  "binit_buf b s =
     (let s = upd_buf b (\<lambda>x. x\<lparr>b_next := b_next (bufs s bhead)\<rparr>) s;
          s = upd_buf b (\<lambda>x. x\<lparr>b_prev := bhead\<rparr>) s;
          s = initsleeplock (BufSl b) ''buffer'' s;
          s = upd_buf (b_next (bufs s bhead)) (\<lambda>x. x\<lparr>b_prev := b\<rparr>) s
      in upd_buf bhead (\<lambda>x. x\<lparr>b_next := b\<rparr>) s)"

definition binit :: "'a bstate_scheme \<Rightarrow> 'a bstate_scheme" where
  "binit s =
     (let s = initlock BcacheLock ''bcache'' s;
          s = upd_buf bhead (\<lambda>x. x\<lparr>b_prev := bhead, b_next := bhead\<rparr>) s
      in fold binit_buf [0..<NBUF] s)"

fun bscan_cached :: "nat \<Rightarrow> u32 \<Rightarrow> u32 \<Rightarrow> nat \<Rightarrow> (nat \<Rightarrow> buf) \<Rightarrow> fault + nat option" where
  "bscan_cached 0 dev blockno b B = Inl Diverges"
| "bscan_cached (Suc k) dev blockno b B =
     (if b = bhead then Inr None
      else if b_dev (B b) = dev \<and> b_blockno (B b) = blockno then Inr (Some b)
      else bscan_cached k dev blockno (b_next (B b)) B)"

fun bscan_unused :: "nat \<Rightarrow> nat \<Rightarrow> (nat \<Rightarrow> buf) \<Rightarrow> fault + nat option" where
  "bscan_unused 0 b B = Inl Diverges"
| "bscan_unused (Suc k) b B =
     (if b = bhead then Inr None
      else if b_refcnt (B b) = 0 then Inr (Some b)
      else bscan_unused k (b_prev (B b)) B)"

definition bget :: "u32 \<Rightarrow> u32 \<Rightarrow> 'a bstate_scheme \<Rightarrow> fault + nat \<times> 'a bstate_scheme" where
  "bget dev blockno s =
     bnd (acquire BcacheLock s) (\<lambda>s.
     bnd (bscan_cached (NBUF + 1) dev blockno (b_next (bufs s bhead)) (bufs s)) (\<lambda>found. case found of
       Some b \<Rightarrow>
         let s = upd_buf b (\<lambda>x. x\<lparr>b_refcnt := b_refcnt x + 1\<rparr>) s
         in bnd (release BcacheLock s) (\<lambda>s.
            bnd (acquiresleep (BufSl b) s) (\<lambda>s. Inr (b, s)))
     | None \<Rightarrow>
         bnd (bscan_unused (NBUF + 1) (b_prev (bufs s bhead)) (bufs s)) (\<lambda>found. case found of
           Some b \<Rightarrow>
             let s = upd_buf b (\<lambda>x. x\<lparr>b_dev := dev, b_blockno := blockno, b_valid := False, b_refcnt := 1\<rparr>) s
             in bnd (release BcacheLock s) (\<lambda>s.
                bnd (acquiresleep (BufSl b) s) (\<lambda>s. Inr (b, s)))
         | None \<Rightarrow> Inl (Panic ''bget: no buffers''))))"

text \<open>The transfer that \<open>virtio_disk_rw(b, write)\<close> performs.\<close>

definition disk_rw :: "nat \<Rightarrow> bool \<Rightarrow> 'a bstate_scheme \<Rightarrow> 'a bstate_scheme" where
  "disk_rw b write s =
     (if write
      then s\<lparr>disk := (disk s)(b_blockno (bufs s b) := b_data (bufs s b)),
             dwrites := dwrites s @ [(b_blockno (bufs s b), b_data (bufs s b))]\<rparr>
      else upd_buf b (\<lambda>x. x\<lparr>b_data := disk s (b_blockno x)\<rparr>) s)"

definition bread :: "u32 \<Rightarrow> u32 \<Rightarrow> 'a bstate_scheme \<Rightarrow> fault + nat \<times> 'a bstate_scheme" where
  "bread dev blockno s =
     bnd (bget dev blockno s) (\<lambda>(b, s).
     if \<not> b_valid (bufs s b)
     then let s = disk_rw b False s in Inr (b, upd_buf b (\<lambda>x. x\<lparr>b_valid := True\<rparr>) s)
     else Inr (b, s))"

definition bwrite :: "nat \<Rightarrow> 'a bstate_scheme \<Rightarrow> fault + 'a bstate_scheme" where
  "bwrite b s =
     bnd (holdingsleep (BufSl b) s) (\<lambda>(h, s).
     if \<not> h then Inl (Panic ''bwrite'') else Inr (disk_rw b True s))"

text \<open>The list operations of \<open>brelse\<close>: unlink the buffer and put it behind the head.\<close>

definition set_prev :: "nat \<Rightarrow> nat \<Rightarrow> (nat \<Rightarrow> buf) \<Rightarrow> nat \<Rightarrow> buf" where
  "set_prev x y B = B(x := (B x)\<lparr>b_prev := y\<rparr>)"

definition set_next :: "nat \<Rightarrow> nat \<Rightarrow> (nat \<Rightarrow> buf) \<Rightarrow> nat \<Rightarrow> buf" where
  "set_next x y B = B(x := (B x)\<lparr>b_next := y\<rparr>)"

definition to_front :: "nat \<Rightarrow> (nat \<Rightarrow> buf) \<Rightarrow> nat \<Rightarrow> buf" where
  "to_front b B =
     (let B = set_prev (b_next (B b)) (b_prev (B b)) B;
          B = set_next (b_prev (B b)) (b_next (B b)) B;
          B = set_next b (b_next (B bhead)) B;
          B = set_prev b bhead B;
          B = set_prev (b_next (B bhead)) b B
      in set_next bhead b B)"

definition brelse :: "nat \<Rightarrow> 'a bstate_scheme \<Rightarrow> fault + 'a bstate_scheme" where
  "brelse b s =
     bnd (holdingsleep (BufSl b) s) (\<lambda>(h, s).
     if \<not> h then Inl (Panic ''brelse'')
     else bnd (releasesleep (BufSl b) s) (\<lambda>s.
     bnd (acquire BcacheLock s) (\<lambda>s.
     let s = upd_buf b (\<lambda>x. x\<lparr>b_refcnt := b_refcnt x - 1\<rparr>) s;
         s = (if b_refcnt (bufs s b) = 0
              then s\<lparr>bufs := to_front b (bufs s)\<rparr> else s)
     in release BcacheLock s)))"

definition bpin :: "nat \<Rightarrow> 'a bstate_scheme \<Rightarrow> fault + 'a bstate_scheme" where
  "bpin b s =
     bnd (acquire BcacheLock s) (\<lambda>s.
     release BcacheLock (upd_buf b (\<lambda>x. x\<lparr>b_refcnt := b_refcnt x + 1\<rparr>) s))"

definition bunpin :: "nat \<Rightarrow> 'a bstate_scheme \<Rightarrow> fault + 'a bstate_scheme" where
  "bunpin b s =
     bnd (acquire BcacheLock s) (\<lambda>s.
     release BcacheLock (upd_buf b (\<lambda>x. x\<lparr>b_refcnt := b_refcnt x - 1\<rparr>) s))"

section \<open>The list\<close>

lemma bstate_comm [lk_comm]:
  "acquire l (s\<lparr>bufs := x0\<rparr>) = bnd (acquire l s) (\<lambda>s. Inr (s\<lparr>bufs := x0\<rparr>))"
  "release l (s\<lparr>bufs := x0\<rparr>) = bnd (release l s) (\<lambda>s. Inr (s\<lparr>bufs := x0\<rparr>))"
  "holding l (s\<lparr>bufs := x0\<rparr>) = holding l s" "mycpu (s\<lparr>bufs := x0\<rparr>) = mycpu s" "intr_get (s\<lparr>bufs := x0\<rparr>) = intr_get s"
  "lk_free l (s\<lparr>bufs := x0\<rparr>) = lk_free l s" "cpu_ok (s\<lparr>bufs := x0\<rparr>) = cpu_ok s"
  "lk_on l (s\<lparr>bufs := x0\<rparr>) = (lk_on l s)\<lparr>bufs := x0\<rparr>"
  "lk_cycle (s\<lparr>bufs := x0\<rparr>) = (lk_cycle s)\<lparr>bufs := x0\<rparr>"
  "set_lname k nm (s\<lparr>bufs := x0\<rparr>) = (set_lname k nm s)\<lparr>bufs := x0\<rparr>"
  "bufs (lk_on l s) = bufs s" "bufs (lk_cycle s) = bufs s" "bufs (set_lname k nm s) = bufs s"
  "acquire l (s\<lparr>disk := x1\<rparr>) = bnd (acquire l s) (\<lambda>s. Inr (s\<lparr>disk := x1\<rparr>))"
  "release l (s\<lparr>disk := x1\<rparr>) = bnd (release l s) (\<lambda>s. Inr (s\<lparr>disk := x1\<rparr>))"
  "holding l (s\<lparr>disk := x1\<rparr>) = holding l s" "mycpu (s\<lparr>disk := x1\<rparr>) = mycpu s" "intr_get (s\<lparr>disk := x1\<rparr>) = intr_get s"
  "lk_free l (s\<lparr>disk := x1\<rparr>) = lk_free l s" "cpu_ok (s\<lparr>disk := x1\<rparr>) = cpu_ok s"
  "lk_on l (s\<lparr>disk := x1\<rparr>) = (lk_on l s)\<lparr>disk := x1\<rparr>"
  "lk_cycle (s\<lparr>disk := x1\<rparr>) = (lk_cycle s)\<lparr>disk := x1\<rparr>"
  "set_lname k nm (s\<lparr>disk := x1\<rparr>) = (set_lname k nm s)\<lparr>disk := x1\<rparr>"
  "disk (lk_on l s) = disk s" "disk (lk_cycle s) = disk s" "disk (set_lname k nm s) = disk s"
  "acquire l (s\<lparr>dwrites := x2\<rparr>) = bnd (acquire l s) (\<lambda>s. Inr (s\<lparr>dwrites := x2\<rparr>))"
  "release l (s\<lparr>dwrites := x2\<rparr>) = bnd (release l s) (\<lambda>s. Inr (s\<lparr>dwrites := x2\<rparr>))"
  "holding l (s\<lparr>dwrites := x2\<rparr>) = holding l s" "mycpu (s\<lparr>dwrites := x2\<rparr>) = mycpu s" "intr_get (s\<lparr>dwrites := x2\<rparr>) = intr_get s"
  "lk_free l (s\<lparr>dwrites := x2\<rparr>) = lk_free l s" "cpu_ok (s\<lparr>dwrites := x2\<rparr>) = cpu_ok s"
  "lk_on l (s\<lparr>dwrites := x2\<rparr>) = (lk_on l s)\<lparr>dwrites := x2\<rparr>"
  "lk_cycle (s\<lparr>dwrites := x2\<rparr>) = (lk_cycle s)\<lparr>dwrites := x2\<rparr>"
  "set_lname k nm (s\<lparr>dwrites := x2\<rparr>) = (set_lname k nm s)\<lparr>dwrites := x2\<rparr>"
  "dwrites (lk_on l s) = dwrites s" "dwrites (lk_cycle s) = dwrites s" "dwrites (set_lname k nm s) = dwrites s"
  by (simp_all add: lk_free_def cpu_ok_def lk_cycle_def lk_on_def set_lname_def lock_defs Let_def)

text \<open>\<open>seg nx pv a xs b\<close>: a doubly linked segment from \<open>a\<close> through the nodes \<open>xs\<close> to \<open>b\<close>.\<close>

fun seg :: "(nat \<Rightarrow> nat) \<Rightarrow> (nat \<Rightarrow> nat) \<Rightarrow> nat \<Rightarrow> nat list \<Rightarrow> nat \<Rightarrow> bool" where
  "seg nx pv a [] b \<longleftrightarrow> nx a = b \<and> pv b = a"
| "seg nx pv a (x # xs) b \<longleftrightarrow> nx a = x \<and> pv x = a \<and> seg nx pv x xs b"

lemma seg_append: "seg nx pv a (xs @ x # ys) b \<longleftrightarrow> seg nx pv a xs x \<and> seg nx pv x ys b"
  by (induction xs arbitrary: a) auto

lemma seg_last: "seg nx pv a xs b \<Longrightarrow> pv b = last (a # xs)"
  by (induction xs arbitrary: a) auto

lemma seg_hd: "seg nx pv a xs b \<Longrightarrow> nx a = hd (xs @ [b])"
  by (cases xs) auto

lemma seg_nx_other [simp]: "c \<notin> set (a # xs) \<Longrightarrow> seg (nx(c := d)) pv a xs b = seg nx pv a xs b"
  by (induction xs arbitrary: a) auto

lemma seg_pv_other [simp]: "c \<notin> set (xs @ [b]) \<Longrightarrow> seg nx (pv(c := d)) a xs b = seg nx pv a xs b"
  by (induction xs arbitrary: a) auto

lemma seg_redirect:
  "seg nx pv a xs b \<Longrightarrow> distinct (a # xs) \<Longrightarrow> c \<notin> set xs \<Longrightarrow> seg (nx(pv b := c)) (pv(c := pv b)) a xs c"
proof (induction xs arbitrary: a)
  case (Cons x xs)
  then have "pv b = last (x # xs)" using seg_last by fastforce
  then have "pv b \<in> set (x # xs)" using last_in_set by (metis list.distinct(1))
  then have "a \<noteq> pv b" using Cons.prems(2) by auto
  then show ?case using Cons by auto
qed simp

lemma seg_unlink:
  assumes "seg nx pv h (us @ b # vs) h" "distinct (h # us @ b # vs)"
  shows "seg (nx(pv b := nx b)) (pv(nx b := pv b)) h (us @ vs) h"
proof -
  have s: "seg nx pv h us b" "seg nx pv b vs h" using assms(1) by (simp_all add: seg_append)
  have p: "pv b \<in> set (h # us)" using seg_last [OF s(1)] last_in_set by (metis list.distinct(1))
  show ?thesis
  proof (cases vs)
    case Nil
    then show ?thesis using s seg_redirect [OF s(1), of h] assms(2) by auto
  next
    case (Cons v ws)
    then have nb: "nx b = v" and vw: "seg nx pv v ws h" using s(2) by auto
    have "seg (nx(pv b := v)) (pv(v := pv b)) h us v" using seg_redirect [OF s(1), of v] assms(2) Cons by auto
    moreover have "pv b \<notin> set (v # ws)" using p assms(2) Cons by auto
    then have "seg (nx(pv b := v)) (pv(v := pv b)) v ws h" using vw assms(2) Cons by simp
    ultimately show ?thesis by (simp add: Cons seg_append nb)
  qed
qed

lemma seg_push:
  assumes "seg nx pv h ws h" "b \<notin> set ws" "b \<noteq> h" "distinct (h # ws)"
  shows "seg (nx(b := nx h, h := b)) (pv(b := h, nx h := b)) h (b # ws) h"
proof (cases ws)
  case Nil
  then show ?thesis using assms by auto
next
  case (Cons w us)
  then have "nx h = w" "seg nx pv w us h" using assms(1) by auto
  then show ?thesis using assms Cons by auto
qed

definition lru :: "(nat \<Rightarrow> buf) \<Rightarrow> nat list \<Rightarrow> bool" where
  "lru B xs \<longleftrightarrow> seg (\<lambda>b. b_next (B b)) (\<lambda>b. b_prev (B b)) bhead xs bhead \<and> distinct xs \<and> set xs = {..<NBUF}"

lemma lruD: "lru B xs \<Longrightarrow> distinct (bhead # xs)" "lru B xs \<Longrightarrow> length xs = NBUF"
  using distinct_card [of xs] by (auto simp: lru_def bhead_def)

lemma bscan_cached_find:
  "seg (\<lambda>b. b_next (B b)) pv a xs bhead \<Longrightarrow> bhead \<notin> set xs \<Longrightarrow> length xs < k \<Longrightarrow>
    bscan_cached k dev bn (b_next (B a)) B = Inr (List.find (\<lambda>b. b_dev (B b) = dev \<and> b_blockno (B b) = bn) xs)"
proof (induction xs arbitrary: a k)
  case Nil
  then show ?case by (cases k) auto
next
  case (Cons x xs)
  then obtain j where "k = Suc j" by (cases k) auto
  with Cons show ?case by auto
qed

lemma seg_rev: "seg nx pv a xs b = seg pv nx b (rev xs) a"
proof (induction xs arbitrary: a)
  case (Cons x xs)
  then show ?case by (simp add: seg_append) blast
qed auto

lemma bscan_unused_find:
  "seg nx (\<lambda>b. b_prev (B b)) bhead (rev xs) a \<Longrightarrow> bhead \<notin> set xs \<Longrightarrow> length xs < k \<Longrightarrow>
    bscan_unused k (b_prev (B a)) B = Inr (List.find (\<lambda>b. b_refcnt (B b) = 0) xs)"
proof (induction xs arbitrary: a k)
  case Nil
  then show ?case by (cases k) auto
next
  case (Cons x xs)
  then obtain j where "k = Suc j" by (cases k) auto
  with Cons show ?case by (auto simp: seg_append)
qed

section \<open>What a call does\<close>

lemma calm_b [simp]: "calm p (s\<lparr>bufs := x\<rparr>) = calm p s" "calm p (s\<lparr>disk := y\<rparr>) = calm p s"
    "calm p (s\<lparr>dwrites := z\<rparr>) = calm p s"
  by (simp_all add: calm_def lk_comm)

text \<open>A locked buffer, and the sleep lock contents when \<open>p\<close> takes the lock.\<close>

definition btake :: "nat \<Rightarrow> nat \<Rightarrow> 'a bstate_scheme \<Rightarrow> 'a bstate_scheme" where
  "btake p b s = upd_sl (BufSl b) (\<lambda>k. k\<lparr>sl_locked := True, sl_pid := p_pid (proc s p)\<rparr>) s"

lemma bget_eq:
  assumes "calm p s" "lru (bufs s) xs"
  shows "bget dev bn s =
    (case List.find (\<lambda>b. b_dev (bufs s b) = dev \<and> b_blockno (bufs s b) = bn) xs of
       Some b \<Rightarrow> if sl_locked (sleeplocks s (BufSl b)) then Inl (Asleep (ChSleep (BufSl b)))
         else Inr (b, btake p b (upd_buf b (\<lambda>x. x\<lparr>b_refcnt := b_refcnt x + 1\<rparr>) (lk_cycle s)))
     | None \<Rightarrow> (case List.find (\<lambda>b. b_refcnt (bufs s b) = 0) (rev xs) of
         Some b \<Rightarrow> if sl_locked (sleeplocks s (BufSl b)) then Inl (Asleep (ChSleep (BufSl b)))
           else Inr (b, btake p b (upd_buf b (\<lambda>x. x\<lparr>b_dev := dev, b_blockno := bn, b_valid := False, b_refcnt := 1\<rparr>) (lk_cycle s)))
       | None \<Rightarrow> Inl (Panic ''bget: no buffers'')))"
proof -
  have seg: "seg (\<lambda>b. b_next (bufs s b)) (\<lambda>b. b_prev (bufs s b)) bhead xs bhead" and h: "bhead \<notin> set xs"
    and len: "length xs < NBUF + 1" using assms(2) lruD [OF assms(2)] by (auto simp: lru_def)
  have c: "bscan_cached (NBUF + 1) dev bn (b_next (bufs s bhead)) (bufs s)
      = Inr (List.find (\<lambda>b. b_dev (bufs s b) = dev \<and> b_blockno (bufs s b) = bn) xs)"
    by (rule bscan_cached_find [OF seg h len])
  have u: "bscan_unused (NBUF + 1) (b_prev (bufs s bhead)) (bufs s) = Inr (List.find (\<lambda>b. b_refcnt (bufs s b) = 0) (rev xs))"
    using seg h len by (intro bscan_unused_find [of "\<lambda>b. b_next (bufs s b)"]) auto
  have ca: "calm p ((lk_cycle s)\<lparr>bufs := x\<rparr>)" for x using assms(1) by simp
  show ?thesis
    using calmD [OF assms(1)] c u
    by (simp add: bget_def lk_calc lk_comm upd_buf_def Let_def acquiresleep_eq [OF ca]
        btake_def upd_sl_def split: option.split)
qed

lemma bwrite_eq:
  assumes "calm p s"
  shows "bwrite b s = (if sl_locked (sleeplocks s (BufSl b)) \<and> sl_pid (sleeplocks s (BufSl b)) = p_pid (proc s p)
    then Inr (disk_rw b True (lk_cycle s)) else Inl (Panic ''bwrite''))"
  by (simp add: bwrite_def holdingsleep_eq [OF assms])

text \<open>The buffers after the reference is dropped.\<close>

definition unref :: "nat \<Rightarrow> (nat \<Rightarrow> buf) \<Rightarrow> nat \<Rightarrow> buf" where
  "unref b B =
     (let B = B(b := (B b)\<lparr>b_refcnt := b_refcnt (B b) - 1\<rparr>)
      in if b_refcnt (B b) = 0 then to_front b B else B)"

lemma brelse_eq:
  assumes "calm p s"
  shows "brelse b s = (if sl_locked (sleeplocks s (BufSl b)) \<and> sl_pid (sleeplocks s (BufSl b)) = p_pid (proc s p)
    then Inr ((upd_sl (BufSl b) (\<lambda>k. k\<lparr>sl_locked := False, sl_pid := 0\<rparr>) (lk_cycle s))
      \<lparr>proc := wake (ChSleep (BufSl b)) (Some p) (proc s), bufs := unref b (bufs s)\<rparr>)
    else Inl (Panic ''brelse''))"
proof -
  have ca: "calm p (lk_cycle s)" using assms by simp
  show ?thesis using calmD [OF assms]
    by (simp add: brelse_def holdingsleep_eq [OF assms] releasesleep_eq [OF ca] lk_calc lk_comm
        upd_sl_def upd_buf_def unref_def Let_def)
qed

lemma bpin_eq: "calm p s \<Longrightarrow> bpin b s = Inr (upd_buf b (\<lambda>x. x\<lparr>b_refcnt := b_refcnt x + 1\<rparr>) (lk_cycle s))"
  and bunpin_eq: "calm p s \<Longrightarrow> bunpin b s = Inr (upd_buf b (\<lambda>x. x\<lparr>b_refcnt := b_refcnt x - 1\<rparr>) (lk_cycle s))"
  by (simp_all add: bpin_def bunpin_def calm_def lk_calc lk_comm upd_buf_def)

text \<open>The fields that are not links.\<close>

abbreviation nolinks :: "buf \<Rightarrow> buf" where
  "nolinks x \<equiv> x\<lparr>b_prev := 0, b_next := 0\<rparr>"

lemma set_links [simp]:
  "b_next (set_prev x y B c) = b_next (B c)" "b_prev (set_next x y B c) = b_prev (B c)"
  "b_prev (set_prev x y B c) = (if c = x then y else b_prev (B c))"
  "b_next (set_next x y B c) = (if c = x then y else b_next (B c))"
  "nolinks (set_prev x y B c) = nolinks (B c)" "nolinks (set_next x y B c) = nolinks (B c)"
  by (simp_all add: set_prev_def set_next_def)

lemma to_front_nolinks: "nolinks (to_front b B c) = nolinks (B c)"
  by (simp add: to_front_def Let_def)

lemma to_front_links:
  defines "nx \<equiv> \<lambda>B b. b_next (B b)" and "pv \<equiv> \<lambda>B b. b_prev (B b)"
  assumes "b \<noteq> bhead" "nx B b \<noteq> b" "pv B b \<noteq> b"
  shows "nx (to_front b B) = (let n = (nx B)(pv B b := nx B b) in n(b := n bhead, bhead := b))"
    and "pv (to_front b B) = (let n = (nx B)(pv B b := nx B b) in (pv B)(nx B b := pv B b, b := bhead, n bhead := b))"
  using assms(3-5) unfolding nx_def pv_def by (auto simp: to_front_def Let_def fun_eq_iff)

lemma to_front_lru:
  assumes "lru B xs" "b < NBUF"
  shows "lru (to_front b B) (b # remove1 b xs)"
proof -
  let ?nx = "\<lambda>c. b_next (B c)" and ?pv = "\<lambda>c. b_prev (B c)"
  have s: "seg ?nx ?pv bhead xs bhead" and d: "distinct (bhead # xs)" and st: "set xs = {..<NBUF}"
    using assms(1) lruD by (auto simp: lru_def)
  obtain us vs where xs: "xs = us @ b # vs" using st assms(2) by (metis lessThan_iff split_list)
  have r: "remove1 b xs = us @ vs" using d xs by (simp add: remove1_append)
  have h: "b \<noteq> bhead" using d xs by auto
  have "seg ?nx ?pv bhead us b" "seg ?nx ?pv b vs bhead" using s by (simp_all add: xs seg_append)
  then have l: "?pv b = last (bhead # us)" "?nx b = hd (vs @ [bhead])" using seg_last seg_hd by blast+
  have nb: "?pv b \<noteq> b" "?nx b \<noteq> b"
    unfolding l using d xs h by (auto simp: hd_append split: list.splits)
  let ?n = "?nx(?pv b := ?nx b)"
  have u: "seg ?n (?pv(?nx b := ?pv b)) bhead (us @ vs) bhead" using s d unfolding xs by (rule seg_unlink)
  have "seg (?n(b := ?n bhead, bhead := b)) (?pv(?nx b := ?pv b, b := bhead, ?n bhead := b)) bhead (b # us @ vs) bhead"
    using seg_push [OF u, of b] d h xs by auto
  then show ?thesis unfolding lru_def r using to_front_links [OF h, of B] nb d st xs
    by (auto simp: Let_def)
qed

section \<open>The contents of the cache\<close>

text \<open>
  The cache seen from outside: \<open>content dev s bn\<close> is what a reader of block \<open>bn\<close> finds, \<open>refs dev s bn\<close> the
  number of references to its buffer. \<open>bc_inv\<close> is the invariant of the cache: the links form one list
  of all buffers, a block is in at most one buffer, and a buffer without references holds nothing
  that is not on the disk.
\<close>

definition bufof :: "u32 \<Rightarrow> (nat \<Rightarrow> buf) \<Rightarrow> u32 \<Rightarrow> nat option" where
  "bufof dev B bn = List.find (\<lambda>b. b_dev (B b) = dev \<and> b_blockno (B b) = bn) [0..<NBUF]"

definition content :: "u32 \<Rightarrow> 'a bstate_scheme \<Rightarrow> u32 \<Rightarrow> block" where
  "content dev s bn = (case bufof dev (bufs s) bn of
     Some b \<Rightarrow> if b_valid (bufs s b) then b_data (bufs s b) else disk s bn | None \<Rightarrow> disk s bn)"

definition refs :: "u32 \<Rightarrow> 'a bstate_scheme \<Rightarrow> u32 \<Rightarrow> nat" where
  "refs dev s bn = (case bufof dev (bufs s) bn of Some b \<Rightarrow> unat (b_refcnt (bufs s b)) | None \<Rightarrow> 0)"

definition buniq :: "u32 \<Rightarrow> (nat \<Rightarrow> buf) \<Rightarrow> bool" where
  "buniq dev B \<longleftrightarrow> (\<forall>i < NBUF. \<forall>j < NBUF. b_dev (B i) = dev \<and> b_dev (B j) = dev \<and> b_blockno (B i) = b_blockno (B j) \<longrightarrow> i = j)"

definition bc_inv :: "u32 \<Rightarrow> 'a bstate_scheme \<Rightarrow> bool" where
  "bc_inv dev s \<longleftrightarrow> (\<exists>xs. lru (bufs s) xs) \<and> buniq dev (bufs s)
     \<and> (\<forall>i < NBUF. b_refcnt (bufs s i) \<noteq> 0 \<longrightarrow> b_dev (bufs s i) = dev)
     \<and> (\<forall>i < NBUF. b_refcnt (bufs s i) = 0 \<and> b_dev (bufs s i) = dev \<and> b_valid (bufs s i) \<longrightarrow>
          b_data (bufs s i) = disk s (b_blockno (bufs s i)))
     \<and> (\<forall>i < NBUF. sl_locked (sleeplocks s (BufSl i)) \<longrightarrow> b_refcnt (bufs s i) \<noteq> 0)"

text \<open>\<open>hasbuf dev s b bn\<close>: buffer \<open>b\<close> holds block \<open>bn\<close>.\<close>

definition hasbuf :: "u32 \<Rightarrow> (nat \<Rightarrow> buf) \<Rightarrow> nat \<Rightarrow> u32 \<Rightarrow> bool" where
  "hasbuf dev B b bn \<longleftrightarrow> b < NBUF \<and> b_dev (B b) = dev \<and> b_blockno (B b) = bn"

lemma bufof_Some: "buniq dev B \<Longrightarrow> bufof dev B bn = Some b \<longleftrightarrow> hasbuf dev B b bn"
  unfolding bufof_def find_Some_iff hasbuf_def buniq_def
  by (auto simp: nth_append) (metis add.left_neutral less_trans nth_upt order_less_irrefl)

lemma bufof_None: "bufof dev B bn = None \<longleftrightarrow> (\<forall>b. \<not> hasbuf dev B b bn)"
  unfolding bufof_def find_None_iff hasbuf_def by auto

text \<open>A search in any order finds the same buffer.\<close>

lemma find_lru:
  assumes "buniq dev B" "set xs = {..<NBUF}"
  shows "List.find (\<lambda>b. b_dev (B b) = dev \<and> b_blockno (B b) = bn) xs = bufof dev B bn"
proof (cases "bufof dev B bn")
  case None
  show ?thesis unfolding None using None [unfolded bufof_None hasbuf_def] assms(2) by (auto simp: find_None_iff)
next
  case (Some b)
  then have b: "hasbuf dev B b bn" using bufof_Some [OF assms(1)] by blast
  then obtain c where c: "List.find (\<lambda>b. b_dev (B b) = dev \<and> b_blockno (B b) = bn) xs = Some c"
    using assms(2) by (cases "List.find (\<lambda>b. b_dev (B b) = dev \<and> b_blockno (B b) = bn) xs") (auto simp: find_None_iff hasbuf_def)
  then have "hasbuf dev B c bn" using assms(2) by (auto simp: find_Some_iff hasbuf_def)
  then have "c = b" using b assms(1) by (auto simp: buniq_def hasbuf_def)
  then show ?thesis using c Some by simp
qed

text \<open>
  Changing one buffer that holds block \<open>bn\<close>, or that held nothing of the device, changes the contents
  and references of that block only.
\<close>

lemma buniq_upd:
  assumes "buniq dev B" "b_dev x = dev \<Longrightarrow> \<forall>c. hasbuf dev B c (b_blockno x) \<longrightarrow> c = b"
  shows "buniq dev (B(b := x))"
  using assms unfolding buniq_def hasbuf_def by (metis fun_upd_apply)

lemma bufof_upd:
  assumes "buniq dev (B(b := x))" "b < NBUF" "b_dev x = dev"
  shows "bufof dev (B(b := x)) (b_blockno x) = Some b"
  using assms by (simp add: bufof_Some hasbuf_def)

lemma bufof_upd_other:
  assumes "buniq dev (B(b := x))" "buniq dev B" "b_blockno x \<noteq> bn" "\<not> hasbuf dev B b bn"
  shows "bufof dev (B(b := x)) bn = bufof dev B bn"
proof -
  have "hasbuf dev (B(b := x)) c bn = hasbuf dev B c bn" for c using assms(3,4) by (auto simp: hasbuf_def)
  then show ?thesis using bufof_Some [OF assms(1)] bufof_Some [OF assms(2)] by (metis not_Some_eq)
qed

definition bheld :: "nat \<Rightarrow> 'a bstate_scheme \<Rightarrow> nat \<Rightarrow> bool" where
  "bheld p s b \<longleftrightarrow> sl_locked (sleeplocks s (BufSl b)) \<and> sl_pid (sleeplocks s (BufSl b)) = p_pid (proc s p)"

text \<open>What \<open>bread\<close> leaves: the buffer \<open>b\<close> holds the block, locked; the rest is as before.\<close>

definition bread_post :: "nat \<Rightarrow> u32 \<Rightarrow> u32 \<Rightarrow> 'a bstate_scheme \<Rightarrow> nat \<Rightarrow> 'a bstate_scheme \<Rightarrow> bool" where
  "bread_post p dev bn s b s' \<longleftrightarrow> hasbuf dev (bufs s') b bn \<and> b_valid (bufs s' b)
     \<and> b_data (bufs s' b) = content dev s bn \<and> b_refcnt (bufs s' b) = of_nat (refs dev s bn) + 1
     \<and> \<not> sl_locked (sleeplocks s (BufSl b))
     \<and> (\<exists>x k. b_next x = b_next (bufs s b) \<and> b_prev x = b_prev (bufs s b) \<and> sl_locked k \<and> sl_pid k = p_pid (proc s p)
         \<and> (hasbuf dev (bufs s) b bn \<or> (\<forall>c. \<not> hasbuf dev (bufs s) c bn) \<and> b_refcnt (bufs s b) = 0)
         \<and> s' = (lk_cycle s)\<lparr>bufs := (bufs s)(b := x), sleeplocks := (sleeplocks s)(BufSl b := k)\<rparr>)"

lemma bread_ok:
  assumes "calm p s" "bc_inv dev s"
    and "\<forall>b. hasbuf dev (bufs s) b bn \<longrightarrow> \<not> sl_locked (sleeplocks s (BufSl b))"
    and "(\<exists>b. hasbuf dev (bufs s) b bn) \<or> (\<exists>b < NBUF. b_refcnt (bufs s b) = 0)"
  shows "\<exists>b s'. bread dev bn s = Inr (b, s') \<and> bread_post p dev bn s b s'"
proof -
  from assms(2) obtain xs where xs: "lru (bufs s) xs" by (auto simp: bc_inv_def)
  have st: "set xs = {..<NBUF}" using xs by (simp add: lru_def)
  have u: "buniq dev (bufs s)" using assms(2) by (simp add: bc_inv_def)
  note g = bget_eq [OF assms(1) xs, of dev bn, unfolded find_lru [OF u st]]
  show ?thesis
  proof (cases "bufof dev (bufs s) bn")
    case (Some b)
    then have h: "hasbuf dev (bufs s) b bn" using bufof_Some [OF u] by simp
    then have l: "\<not> sl_locked (sleeplocks s (BufSl b))" using assms(3) by blast
    let ?x = "(bufs s b)\<lparr>b_refcnt := b_refcnt (bufs s b) + 1, b_valid := True, b_data := content dev s bn\<rparr>"
    let ?k = "(sleeplocks s (BufSl b))\<lparr>sl_locked := True, sl_pid := p_pid (proc s p)\<rparr>"
    have "bread dev bn s = Inr (b, (lk_cycle s)\<lparr>bufs := (bufs s)(b := ?x), sleeplocks := (sleeplocks s)(BufSl b := ?k)\<rparr>)"
      using Some l h by (auto simp: bread_def g btake_def upd_sl_def upd_buf_def disk_rw_def lk_comm content_def hasbuf_def
          intro!: bstate.equality buf.equality ext)
    moreover have "b_refcnt (bufs s b) = of_nat (refs dev s bn)" using Some by (simp add: refs_def)
    ultimately show ?thesis using h l unfolding bread_post_def hasbuf_def
      by (intro exI [of _ b] exI [of _ "(lk_cycle s)\<lparr>bufs := (bufs s)(b := ?x), sleeplocks := (sleeplocks s)(BufSl b := ?k)\<rparr>"])
        (auto intro!: exI [of _ ?x] exI [of _ ?k])
  next
    case None
    then have nh: "\<forall>c. \<not> hasbuf dev (bufs s) c bn" by (simp add: bufof_None)
    then obtain b0 where "b0 < NBUF" "b_refcnt (bufs s b0) = 0" using assms(4) by blast
    then obtain b where b: "List.find (\<lambda>b. b_refcnt (bufs s b) = 0) (rev xs) = Some b"
      using st by (cases "List.find (\<lambda>b. b_refcnt (bufs s b) = 0) (rev xs)") (auto simp: find_None_iff)
    then have bb: "b < NBUF" "b_refcnt (bufs s b) = 0" using st by (auto simp: find_Some_iff) (metis in_set_conv_nth length_rev set_rev lessThan_iff)
    then have l: "\<not> sl_locked (sleeplocks s (BufSl b))" using assms(2) by (auto simp: bc_inv_def)
    let ?x = "(bufs s b)\<lparr>b_dev := dev, b_blockno := bn, b_valid := True, b_refcnt := 1, b_data := disk s bn\<rparr>"
    let ?k = "(sleeplocks s (BufSl b))\<lparr>sl_locked := True, sl_pid := p_pid (proc s p)\<rparr>"
    have "bread dev bn s = Inr (b, (lk_cycle s)\<lparr>bufs := (bufs s)(b := ?x), sleeplocks := (sleeplocks s)(BufSl b := ?k)\<rparr>)"
      using None l b by (auto simp: bread_def g btake_def upd_sl_def upd_buf_def disk_rw_def lk_comm
          intro!: bstate.equality buf.equality ext)
    moreover have "content dev s bn = disk s bn" "refs dev s bn = 0" using None by (simp_all add: content_def refs_def)
    ultimately show ?thesis using bb l nh unfolding bread_post_def hasbuf_def
      by (intro exI [of _ b] exI [of _ "(lk_cycle s)\<lparr>bufs := (bufs s)(b := ?x), sleeplocks := (sleeplocks s)(BufSl b := ?k)\<rparr>"])
        (auto intro!: exI [of _ ?x] exI [of _ ?k])
  qed
qed

lemma buf_cases:
  assumes "bc_inv dev s" "b < NBUF"
    "hasbuf dev (bufs s) b bn \<or> (\<forall>c. \<not> hasbuf dev (bufs s) c bn) \<and> b_refcnt (bufs s b) = 0"
    and x: "b_dev x = dev" "b_blockno x = bn"
  shows "buniq dev ((bufs s)(b := x))"
    and "content dev (s\<lparr>bufs := (bufs s)(b := x)\<rparr>) =
      (content dev s)(bn := if b_valid x then b_data x else disk s bn)"
    and "refs dev (s\<lparr>bufs := (bufs s)(b := x)\<rparr>) = (refs dev s)(bn := unat (b_refcnt x))"
proof -
  have u: "buniq dev (bufs s)" using assms(1) by (simp add: bc_inv_def)
  have only: "c = b" if "hasbuf dev (bufs s) c bn" for c
    using that assms(3) u by (auto simp: buniq_def hasbuf_def)
  then show u': "buniq dev ((bufs s)(b := x))" using u x by (intro buniq_upd) auto
  have s1: "bufof dev ((bufs s)(b := x)) bn = Some b" using bufof_upd [OF u' assms(2) x(1)] x(2) by simp
  have other: "bufof dev ((bufs s)(b := x)) m = bufof dev (bufs s) m" if "m \<noteq> bn" "\<not> hasbuf dev (bufs s) b m" for m
    using bufof_upd_other [OF u' u] that x(2) by simp
  have old: "content dev s m = disk s m \<and> refs dev s m = 0 \<and> bufof dev ((bufs s)(b := x)) m = None"
    if m: "m \<noteq> bn" "hasbuf dev (bufs s) b m" for m
  proof -
    have r: "b_refcnt (bufs s b) = 0" using assms(3) m by (auto simp: hasbuf_def)
    have "bufof dev (bufs s) m = Some b" using m(2) bufof_Some [OF u] by simp
    moreover have "b_valid (bufs s b) \<Longrightarrow> b_data (bufs s b) = disk s m"
      using assms(1) r m(2) by (auto simp: bc_inv_def hasbuf_def)
    moreover have "\<not> hasbuf dev ((bufs s)(b := x)) c m" for c
      using m x(2) u by (auto simp: hasbuf_def buniq_def)
    ultimately show ?thesis using r by (simp add: content_def refs_def bufof_None)
  qed
  have "content dev (s\<lparr>bufs := (bufs s)(b := x)\<rparr>) m = ((content dev s)(bn := if b_valid x then b_data x else disk s bn)) m
    \<and> refs dev (s\<lparr>bufs := (bufs s)(b := x)\<rparr>) m = ((refs dev s)(bn := unat (b_refcnt x))) m" for m
  proof (cases "m = bn")
    case True
    then show ?thesis using s1 by (simp add: content_def refs_def)
  next
    case False
    show ?thesis
    proof (cases "hasbuf dev (bufs s) b m")
      case True
      then show ?thesis using old [OF False True] False by (simp add: content_def refs_def)
    next
      case nf: False
      have "bufof dev (bufs s) m \<noteq> Some b" using nf bufof_Some [OF u] by simp
      then show ?thesis using other [OF False nf] False
        by (auto simp: content_def refs_def split: option.split)
    qed
  qed
  then show "content dev (s\<lparr>bufs := (bufs s)(b := x)\<rparr>) = (content dev s)(bn := if b_valid x then b_data x else disk s bn)"
    and "refs dev (s\<lparr>bufs := (bufs s)(b := x)\<rparr>) = (refs dev s)(bn := unat (b_refcnt x))"
    by auto
qed

lemma view_simps [simp]:
  "content dev (lk_cycle s) = content dev s" "refs dev (lk_cycle s) = refs dev s"
  "content dev (s\<lparr>sleeplocks := x\<rparr>) = content dev s" "refs dev (s\<lparr>sleeplocks := x\<rparr>) = refs dev s"
  "content dev (s\<lparr>proc := P\<rparr>) = content dev s" "refs dev (s\<lparr>proc := P\<rparr>) = refs dev s"
  "content dev (s\<lparr>dwrites := w\<rparr>) = content dev s" "refs dev (s\<lparr>dwrites := w\<rparr>) = refs dev s"
  "refs dev (s\<lparr>disk := d\<rparr>) = refs dev s"
  by (auto simp: content_def refs_def lk_comm fun_eq_iff split: option.split)

lemma lru_upd:
  "lru B xs \<Longrightarrow> b_next x = b_next (B b) \<Longrightarrow> b_prev x = b_prev (B b) \<Longrightarrow> lru (B(b := x)) xs"
proof -
  assume a: "lru B xs" "b_next x = b_next (B b)" "b_prev x = b_prev (B b)"
  then have "(\<lambda>c. b_next ((B(b := x)) c)) = (\<lambda>c. b_next (B c))" "(\<lambda>c. b_prev ((B(b := x)) c)) = (\<lambda>c. b_prev (B c))"
    by auto
  then show ?thesis using a(1) unfolding lru_def by presburger
qed

lemma bread_post_view:
  assumes "bread_post p dev bn s b s'" "bc_inv dev s" "refs dev s bn < 2 ^ 32 - 1"
  shows "bc_inv dev s'" and "content dev s' = content dev s"
    and "refs dev s' = (refs dev s)(bn := refs dev s bn + 1)" and "bheld p s' b"
    and "calm p s \<Longrightarrow> calm p s'"
proof -
  from assms(1) obtain x k where x: "b_next x = b_next (bufs s b)" "b_prev x = b_prev (bufs s b)"
     "sl_locked k" "sl_pid k = p_pid (proc s p)"
     "hasbuf dev (bufs s) b bn \<or> (\<forall>c. \<not> hasbuf dev (bufs s) c bn) \<and> b_refcnt (bufs s b) = 0"
     "s' = (lk_cycle s)\<lparr>bufs := (bufs s)(b := x), sleeplocks := (sleeplocks s)(BufSl b := k)\<rparr>"
    unfolding bread_post_def by blast
  have y: "b_dev x = dev" "b_blockno x = bn" "b < NBUF" "b_valid x" "b_data x = content dev s bn"
     "b_refcnt x = of_nat (refs dev s bn) + 1"
    using assms(1) unfolding bread_post_def x(6) by (simp_all add: hasbuf_def)
  note v = buf_cases [OF assms(2) y(3) x(5) y(1,2)]
  have rx: "unat (b_refcnt x) = refs dev s bn + 1"
  proof -
    have "b_refcnt x = of_nat (refs dev s bn + 1)" using y(6) by simp
    then show ?thesis using assms(3) by (simp add: unat_of_nat del: of_nat_add of_nat_Suc)
  qed
  have s': "s' = (lk_cycle (s\<lparr>bufs := (bufs s)(b := x)\<rparr>))\<lparr>sleeplocks := (sleeplocks s)(BufSl b := k)\<rparr>"
    by (simp add: x(6) lk_comm)
  show "content dev s' = content dev s" unfolding s' using v(2) y(4,5) by (simp add: fun_upd_idem)
  show "refs dev s' = (refs dev s)(bn := refs dev s bn + 1)" unfolding s' using v(3) rx by simp
  show "bheld p s' b" using x(3,4) by (simp add: s' bheld_def lk_comm)
  show "calm p s \<Longrightarrow> calm p s'" by (simp add: s')
  have "b_refcnt x \<noteq> 0" using rx by auto
  moreover obtain xs where "lru (bufs s) xs" using assms(2) by (auto simp: bc_inv_def)
  then have "lru ((bufs s)(b := x)) xs" using lru_upd x(1,2) by blast
  ultimately show "bc_inv dev s'" using v(1) assms(2) y(1) unfolding bc_inv_def x(6)
    by (auto simp: lk_comm)
qed

text \<open>Changing the data of a held buffer.\<close>

lemma set_data_view:
  assumes "bc_inv dev s" "hasbuf dev (bufs s) b bn" "b_valid (bufs s b)" "b_refcnt (bufs s b) \<noteq> 0"
  shows "bc_inv dev (upd_buf b (\<lambda>x. x\<lparr>b_data := d\<rparr>) s)"
    and "content dev (upd_buf b (\<lambda>x. x\<lparr>b_data := d\<rparr>) s) = (content dev s)(bn := d)"
    and "refs dev (upd_buf b (\<lambda>x. x\<lparr>b_data := d\<rparr>) s) = refs dev s"
proof -
  have bn: "b < NBUF" "b_dev (bufs s b) = dev" "b_blockno (bufs s b) = bn" using assms(2) by (simp_all add: hasbuf_def)
  let ?x = "(bufs s b)\<lparr>b_data := d\<rparr>"
  have x: "b_dev ?x = dev" "b_blockno ?x = bn" using bn by simp_all
  note v = buf_cases [OF assms(1) bn(1) disjI1 [OF assms(2)] x]
  show "content dev (upd_buf b (\<lambda>x. x\<lparr>b_data := d\<rparr>) s) = (content dev s)(bn := d)"
    using v(2) assms(3) by (simp add: upd_buf_def)
  have "bufof dev (bufs s) bn = Some b" using assms(1,2) bufof_Some by (auto simp: bc_inv_def)
  then have "refs dev s bn = unat (b_refcnt (bufs s b))" by (simp add: refs_def)
  then show "refs dev (upd_buf b (\<lambda>x. x\<lparr>b_data := d\<rparr>) s) = refs dev s"
    using v(3) by (simp add: upd_buf_def fun_upd_idem)
  obtain xs where "lru (bufs s) xs" using assms(1) by (auto simp: bc_inv_def)
  then have "lru ((bufs s)(b := ?x)) xs" by (rule lru_upd) simp_all
  then show "bc_inv dev (upd_buf b (\<lambda>x. x\<lparr>b_data := d\<rparr>) s)"
    using v(1) assms(1,4) bn unfolding bc_inv_def upd_buf_def by auto
qed

text \<open>Writing a held buffer to the disk.\<close>

lemma disk_write_view:
  assumes "bc_inv dev s" "hasbuf dev (bufs s) b bn" "b_valid (bufs s b)" "b_refcnt (bufs s b) \<noteq> 0"
  shows "bc_inv dev (disk_rw b True s)" and "content dev (disk_rw b True s) = content dev s"
    and "refs dev (disk_rw b True s) = refs dev s"
    and "disk (disk_rw b True s) = (disk s)(bn := content dev s bn)"
    and "dwrites (disk_rw b True s) = dwrites s @ [(bn, content dev s bn)]"
proof -
  have u: "buniq dev (bufs s)" using assms(1) by (simp add: bc_inv_def)
  have bn: "b < NBUF" "b_dev (bufs s b) = dev" "b_blockno (bufs s b) = bn" using assms(2) by (simp_all add: hasbuf_def)
  have f: "bufof dev (bufs s) bn = Some b" using assms(2) bufof_Some [OF u] by simp
  then have c: "content dev s bn = b_data (bufs s b)" using assms(3) by (simp add: content_def)
  show "refs dev (disk_rw b True s) = refs dev s" by (simp add: disk_rw_def)
  show "disk (disk_rw b True s) = (disk s)(bn := content dev s bn)"
    and "dwrites (disk_rw b True s) = dwrites s @ [(bn, content dev s bn)]" using bn c by (simp_all add: disk_rw_def)
  show "content dev (disk_rw b True s) = content dev s"
    using f assms(3) bn by (auto simp: fun_eq_iff content_def disk_rw_def split: option.split)
  have "b_data (bufs s i) = ((disk s)(bn := b_data (bufs s b))) (b_blockno (bufs s i))"
    if i: "i < NBUF" "b_refcnt (bufs s i) = 0 \<and> b_dev (bufs s i) = dev \<and> b_valid (bufs s i)" for i
  proof -
    have "i \<noteq> b" using i assms(4) by auto
    then have "b_blockno (bufs s i) \<noteq> bn" using u i bn by (auto simp: buniq_def)
    then show ?thesis using assms(1) i by (simp add: bc_inv_def)
  qed
  then show "bc_inv dev (disk_rw b True s)" using assms(1) bn unfolding bc_inv_def disk_rw_def by simp
qed

lemma nolinks_view:
  assumes "\<And>c. nolinks (B c) = nolinks (bufs s c)"
  shows "content dev (s\<lparr>bufs := B\<rparr>) = content dev s" "refs dev (s\<lparr>bufs := B\<rparr>) = refs dev s"
    "hasbuf dev B b bn = hasbuf dev (bufs s) b bn" "buniq dev B = buniq dev (bufs s)"
    "b_refcnt (B b) = b_refcnt (bufs s b)" "b_data (B b) = b_data (bufs s b)" "b_valid (B b) = b_valid (bufs s b)"
proof -
  have f: "b_dev (B c) = b_dev (bufs s c)" "b_blockno (B c) = b_blockno (bufs s c)" "b_valid (B c) = b_valid (bufs s c)"
    "b_refcnt (B c) = b_refcnt (bufs s c)" "b_data (B c) = b_data (bufs s c)" for c
    using arg_cong [OF assms [of c], of b_dev] arg_cong [OF assms [of c], of b_blockno] arg_cong [OF assms [of c], of b_valid]
      arg_cong [OF assms [of c], of b_refcnt] arg_cong [OF assms [of c], of b_data] by simp_all
  then have g: "bufof dev B = bufof dev (bufs s)" by (auto simp: bufof_def fun_eq_iff)
  show "content dev (s\<lparr>bufs := B\<rparr>) = content dev s" "refs dev (s\<lparr>bufs := B\<rparr>) = refs dev s"
    "hasbuf dev B b bn = hasbuf dev (bufs s) b bn" "buniq dev B = buniq dev (bufs s)"
    "b_refcnt (B b) = b_refcnt (bufs s b)" "b_data (B b) = b_data (bufs s b)" "b_valid (B b) = b_valid (bufs s b)"
    using f g by (auto simp: content_def refs_def hasbuf_def buniq_def fun_eq_iff split: option.split)
qed

text \<open>Changing the reference count of a buffer.\<close>

lemma set_refcnt_view:
  assumes "bc_inv dev s" "hasbuf dev (bufs s) b bn"
    and "r = 0 \<longrightarrow> \<not> sl_locked (sleeplocks s (BufSl b)) \<and> (b_valid (bufs s b) \<longrightarrow> b_data (bufs s b) = disk s bn)"
  shows "bc_inv dev (upd_buf b (\<lambda>x. x\<lparr>b_refcnt := r\<rparr>) s)"
    and "content dev (upd_buf b (\<lambda>x. x\<lparr>b_refcnt := r\<rparr>) s) = content dev s"
    and "refs dev (upd_buf b (\<lambda>x. x\<lparr>b_refcnt := r\<rparr>) s) = (refs dev s)(bn := unat r)"
proof -
  have bn: "b < NBUF" "b_dev (bufs s b) = dev" "b_blockno (bufs s b) = bn" using assms(2) by (simp_all add: hasbuf_def)
  let ?x = "(bufs s b)\<lparr>b_refcnt := r\<rparr>"
  have x: "b_dev ?x = dev" "b_blockno ?x = bn" using bn by simp_all
  note v = buf_cases [OF assms(1) bn(1) disjI1 [OF assms(2)] x]
  have f: "bufof dev (bufs s) bn = Some b" using assms(1,2) bufof_Some by (auto simp: bc_inv_def)
  show "content dev (upd_buf b (\<lambda>x. x\<lparr>b_refcnt := r\<rparr>) s) = content dev s"
    using v(2) f by (simp add: upd_buf_def fun_upd_idem content_def [of _ _ bn])
  show "refs dev (upd_buf b (\<lambda>x. x\<lparr>b_refcnt := r\<rparr>) s) = (refs dev s)(bn := unat r)"
    using v(3) by (simp add: upd_buf_def)
  obtain xs where "lru (bufs s) xs" using assms(1) by (auto simp: bc_inv_def)
  then have "lru ((bufs s)(b := ?x)) xs" by (rule lru_upd) simp_all
  then show "bc_inv dev (upd_buf b (\<lambda>x. x\<lparr>b_refcnt := r\<rparr>) s)"
    using v(1) assms(1,3) bn unfolding bc_inv_def upd_buf_def by auto
qed

lemma to_front_view:
  assumes "bc_inv dev s" "b < NBUF"
  shows "bc_inv dev (s\<lparr>bufs := to_front b (bufs s)\<rparr>)"
proof -
  obtain xs where "lru (bufs s) xs" using assms(1) by (auto simp: bc_inv_def)
  then have "lru (to_front b (bufs s)) (b # remove1 b xs)" using assms(2) by (rule to_front_lru)
  moreover note v = nolinks_view [of "to_front b (bufs s)" s, OF to_front_nolinks]
  have "b_dev (to_front b (bufs s) c) = b_dev (bufs s c) \<and> b_blockno (to_front b (bufs s) c) = b_blockno (bufs s c)" for c
    using arg_cong [OF to_front_nolinks [of b "bufs s" c], of b_dev]
      arg_cong [OF to_front_nolinks [of b "bufs s" c], of b_blockno] by simp
  ultimately show ?thesis using assms(1) unfolding bc_inv_def by (auto simp: v)
qed

lemma bc_inv_simps [simp]:
  "bc_inv dev (lk_cycle s) = bc_inv dev s" "bc_inv dev (s\<lparr>proc := P\<rparr>) = bc_inv dev s"
  "bc_inv dev (s\<lparr>dwrites := w\<rparr>) = bc_inv dev s"
  by (simp_all add: bc_inv_def lk_comm)

lemma bc_inv_unlock:
  "bc_inv dev s \<Longrightarrow> \<not> sl_locked k \<Longrightarrow> bc_inv dev (s\<lparr>sleeplocks := (sleeplocks s)(l := k)\<rparr>)"
  by (auto simp: bc_inv_def)

lemma brelse_ok:
  assumes "calm p s" "bc_inv dev s" "hasbuf dev (bufs s) b bn" "bheld p s b"
    and "1 < refs dev s bn \<or> content dev s bn = disk s bn"
  shows "\<exists>s' k B. brelse b s = Inr s' \<and> bc_inv dev s' \<and> content dev s' = content dev s
    \<and> refs dev s' = (refs dev s)(bn := refs dev s bn - 1) \<and> \<not> sl_locked k
    \<and> (\<forall>c. nolinks (B c) = nolinks (if c = b then (bufs s b)\<lparr>b_refcnt := b_refcnt (bufs s b) - 1\<rparr> else bufs s c))
    \<and> s' = (lk_cycle s)\<lparr>proc := wake (ChSleep (BufSl b)) (Some p) (proc s),
        sleeplocks := (sleeplocks s)(BufSl b := k), bufs := B\<rparr>"
proof -
  have bn: "b < NBUF" "b_dev (bufs s b) = dev" "b_blockno (bufs s b) = bn" using assms(3) by (simp_all add: hasbuf_def)
  have l: "sl_locked (sleeplocks s (BufSl b))" "sl_pid (sleeplocks s (BufSl b)) = p_pid (proc s p)"
    using assms(4) by (simp_all add: bheld_def)
  have r0: "b_refcnt (bufs s b) \<noteq> 0" using assms(2) l(1) bn(1) by (auto simp: bc_inv_def)
  have f: "bufof dev (bufs s) bn = Some b" using assms(2,3) bufof_Some by (auto simp: bc_inv_def)
  then have rb: "refs dev s bn = unat (b_refcnt (bufs s b))" by (simp add: refs_def)
  let ?k = "(sleeplocks s (BufSl b))\<lparr>sl_locked := False, sl_pid := 0\<rparr>"
  let ?r = "b_refcnt (bufs s b) - 1"
  have ur: "unat ?r = refs dev s bn - 1" using rb r0 by (simp add: unat_minus_one)
  let ?s1 = "(lk_cycle s)\<lparr>sleeplocks := (sleeplocks s)(BufSl b := ?k), proc := wake (ChSleep (BufSl b)) (Some p) (proc s)\<rparr>"
  have "bc_inv dev ((lk_cycle s)\<lparr>sleeplocks := (sleeplocks (lk_cycle s))(BufSl b := ?k)\<rparr>)"
    using assms(2) by (intro bc_inv_unlock) simp_all
  then have i0: "bc_inv dev ?s1" by (simp add: lk_comm)
  have z: "?r = 0 \<longrightarrow> \<not> sl_locked (sleeplocks ?s1 (BufSl b)) \<and> (b_valid (bufs ?s1 b) \<longrightarrow> b_data (bufs ?s1 b) = disk ?s1 bn)"
  proof
    assume "?r = 0"
    then have "\<not> 1 < refs dev s bn" using ur by simp
    then have "content dev s bn = disk s bn" using assms(5) by blast
    then show "\<not> sl_locked (sleeplocks ?s1 (BufSl b)) \<and> (b_valid (bufs ?s1 b) \<longrightarrow> b_data (bufs ?s1 b) = disk ?s1 bn)"
      using f by (auto simp: content_def lk_comm split: if_splits)
  qed
  have h0: "hasbuf dev (bufs ?s1) b bn" using assms(3) by (simp add: lk_comm)
  let ?B = "(bufs s)(b := (bufs s b)\<lparr>b_refcnt := ?r\<rparr>)"
  note v = set_refcnt_view [OF i0 h0 z, unfolded upd_buf_def]
  have i1: "bc_inv dev (?s1\<lparr>bufs := ?B\<rparr>)" and c1: "content dev (?s1\<lparr>bufs := ?B\<rparr>) = content dev s"
    and r1: "refs dev (?s1\<lparr>bufs := ?B\<rparr>) = (refs dev s)(bn := refs dev s bn - 1)"
    using v ur by (simp_all add: lk_comm)
  have un: "unref b (bufs s) = (if ?r = 0 then to_front b ?B else ?B)" by (simp add: unref_def)
  have e: "brelse b s = Inr (?s1\<lparr>bufs := unref b (bufs s)\<rparr>)"
    using l by (simp add: brelse_eq [OF assms(1)] upd_sl_def lk_comm)
  have nl: "\<forall>c. nolinks (unref b (bufs s) c) = nolinks (?B c)" unfolding un by (simp add: to_front_nolinks)
  have tf: "bc_inv dev (?s1\<lparr>bufs := to_front b ?B\<rparr>)" using to_front_view [OF i1 bn(1)] by simp
  have i2: "bc_inv dev (?s1\<lparr>bufs := unref b (bufs s)\<rparr>)"
    unfolding un using i1 tf by (cases "?r = 0") (simp_all only: if_True if_False simp_thms)
  have nl': "\<And>c. nolinks (unref b (bufs s) c) = nolinks (bufs (?s1\<lparr>bufs := ?B\<rparr>) c)" using nl by simp
  have cr: "content dev (?s1\<lparr>bufs := unref b (bufs s)\<rparr>) = content dev s"
      "refs dev (?s1\<lparr>bufs := unref b (bufs s)\<rparr>) = (refs dev s)(bn := refs dev s bn - 1)"
    using nolinks_view(1,2) [of "unref b (bufs s)" "?s1\<lparr>bufs := ?B\<rparr>", OF nl'] c1 r1 by simp_all
  show ?thesis
    by (rule exI [of _ "?s1\<lparr>bufs := unref b (bufs s)\<rparr>"], rule exI [of _ ?k], rule exI [of _ "unref b (bufs s)"])
      (use e i2 cr nl in auto)
qed

section \<open>Initialisation\<close>

lemma binit_buf_bufs:
  "bufs (binit_buf b s) = set_next bhead b (set_prev (b_next (bufs s bhead)) b (set_prev b bhead (set_next b (b_next (bufs s bhead)) (bufs s))))"
  if "b \<noteq> bhead"
  using that by (simp add: binit_buf_def Let_def upd_buf_def initsleeplock_def upd_sl_def initlock_def set_prev_def set_next_def)

lemma binit_loop:
  assumes "n \<le> NBUF" "b_next (bufs s bhead) = bhead" "b_prev (bufs s bhead) = bhead"
  shows "seg (\<lambda>b. b_next (bufs (fold binit_buf [0..<n] s) b)) (\<lambda>b. b_prev (bufs (fold binit_buf [0..<n] s) b)) bhead (rev [0..<n]) bhead
    \<and> (\<forall>c. nolinks (bufs (fold binit_buf [0..<n] s) c) = nolinks (bufs s c))"
  using assms(1)
proof (induction n)
  case 0
  then show ?case using assms(2,3) by simp
next
  case (Suc n)
  let ?t = "fold binit_buf [0..<n] s"
  let ?nx = "\<lambda>b. b_next (bufs ?t b)" and ?pv = "\<lambda>b. b_prev (bufs ?t b)"
  have nh: "n \<noteq> bhead" using Suc.prems by (simp add: bhead_def)
  have f: "fold binit_buf [0..<Suc n] s = binit_buf n ?t" by simp
  have "seg (?nx(n := ?nx bhead, bhead := n)) (?pv(n := bhead, ?nx bhead := n)) bhead (n # rev [0..<n]) bhead"
    using Suc nh by (intro seg_push) (auto simp: bhead_def)
  moreover have "(\<lambda>b. b_next (bufs (binit_buf n ?t) b)) = ?nx(n := ?nx bhead, bhead := n)"
    "(\<lambda>b. b_prev (bufs (binit_buf n ?t) b)) = ?pv(n := bhead, ?nx bhead := n)"
    by (auto simp: binit_buf_bufs [OF nh] fun_eq_iff)
  moreover have "nolinks (bufs (binit_buf n ?t) c) = nolinks (bufs ?t c)" for c by (simp add: binit_buf_bufs [OF nh])
  ultimately show ?case unfolding f using Suc by simp
qed

lemma binit_ok:
  assumes "\<forall>b < NBUF. b_refcnt (bufs s b) = 0 \<and> b_dev (bufs s b) = 0"
  shows "lru (bufs (binit s)) (rev [0..<NBUF])" and "\<forall>b < NBUF. b_refcnt (bufs (binit s) b) = 0 \<and> b_dev (bufs (binit s) b) = 0"
proof -
  let ?s = "upd_buf bhead (\<lambda>x. x\<lparr>b_prev := bhead, b_next := bhead\<rparr>) (initlock BcacheLock ''bcache'' s)"
  have s: "b_next (bufs ?s bhead) = bhead" "b_prev (bufs ?s bhead) = bhead" by (simp_all add: upd_buf_def)
  have e: "binit s = fold binit_buf [0..<NBUF] ?s" by (simp add: binit_def Let_def)
  have l: "seg (\<lambda>b. b_next (bufs (binit s) b)) (\<lambda>b. b_prev (bufs (binit s) b)) bhead (rev [0..<NBUF]) bhead"
    "\<And>c. nolinks (bufs (binit s) c) = nolinks (bufs ?s c)"
    unfolding e using binit_loop [OF order_refl s] by auto
  then show "lru (bufs (binit s)) (rev [0..<NBUF])" by (auto simp: lru_def simp del: NBUF_def)
  have "b_refcnt (bufs (binit s) b) = b_refcnt (bufs ?s b) \<and> b_dev (bufs (binit s) b) = b_dev (bufs ?s b)" for b
    using arg_cong [OF l(2) [of b], of b_refcnt] arg_cong [OF l(2) [of b], of b_dev] by simp
  then show "\<forall>b < NBUF. b_refcnt (bufs (binit s) b) = 0 \<and> b_dev (bufs (binit s) b) = 0"
    using assms(1) by (auto simp: upd_buf_def initlock_def)
qed

section \<open>Properties\<close>

text \<open>
  C2: \<open>bread\<close> is coherent. With the cache invariant, a block whose buffer is not locked, and a buffer
  for it (the block is cached, or some buffer is not referenced), \<open>bread\<close> returns a buffer locked by
  the caller with the current contents of the block: the modified copy in the cache if there is one,
  else the block on the disk. No other block changes its contents or its reference count, nothing is
  written to the disk, and the invariant holds again: the buffer that is recycled held nothing that is
  not on the disk.
\<close>

theorem bread_coherent:
  assumes "calm p s" and "bc_inv dev s" and "refs dev s bn < 2 ^ 32 - 1"
    and "\<forall>b. hasbuf dev (bufs s) b bn \<longrightarrow> \<not> sl_locked (sleeplocks s (BufSl b))"
    and "(\<exists>b. hasbuf dev (bufs s) b bn) \<or> (\<exists>b < NBUF. b_refcnt (bufs s b) = 0)"
  shows "\<exists>b s'. bread dev bn s = Inr (b, s') \<and> hasbuf dev (bufs s') b bn \<and> bheld p s' b
    \<and> b_data (bufs s' b) = content dev s bn \<and> content dev s' = content dev s
    \<and> refs dev s' = (refs dev s)(bn := refs dev s bn + 1) \<and> bc_inv dev s'
    \<and> disk s' = disk s \<and> dwrites s' = dwrites s"
proof -
  obtain b s' where r: "bread dev bn s = Inr (b, s')" "bread_post p dev bn s b s'"
    using bread_ok [OF assms(1,2,4,5)] by blast
  have "disk s' = disk s" "dwrites s' = dwrites s" using r(2) by (auto simp: bread_post_def lk_comm)
  moreover have "hasbuf dev (bufs s') b bn" "b_data (bufs s' b) = content dev s bn" using r(2) by (simp_all add: bread_post_def)
  ultimately show ?thesis using r(1) bread_post_view [OF r(2) assms(2,3)] by blast
qed

definition bio_zero :: "'a \<Rightarrow> 'a bstate_scheme" where
  "bio_zero m = \<lparr>hart = 0, sie = (\<lambda>_. True),
     cpus = (\<lambda>_. \<lparr>cproc = Some 0, noff = 0, intena = False\<rparr>),
     locks = (\<lambda>_. \<lparr>locked = False, lname = [], lcpu = None\<rparr>),
     pmem = (\<lambda>_. 0), freelist = 0, kend = 0x80040000, kernel_pagetable = 0, trampoline = 0, etext = 0,
     proc = (\<lambda>_. proc0), shmem = (\<lambda>n. \<lparr>sh_PHADDR = 0, sh_numberofusers = 0, sh_state = - 1, sh_using_top_pid = - 1\<rparr>),
     initproc = None, nextpid = 1, forkret_pc = 0, initcode = 0, ticks = 0,
     sleeplocks = (\<lambda>_. \<lparr>sl_locked = False, sl_name = [], sl_pid = 0\<rparr>),
     bufs = (\<lambda>_. \<lparr>b_valid = False, b_disk = False, b_dev = 0, b_blockno = 0, b_refcnt = 0, b_prev = 0, b_next = 0,
       b_data = replicate 1024 0\<rparr>), disk = (\<lambda>n. replicate 1024 (ucast n)), dwrites = [], \<dots> = m\<rparr>"

definition bio_demo :: "'a \<Rightarrow> 'a bstate_scheme" where
  "bio_demo m = binit (bio_zero m)"

lemma binit_keeps:
  "cpus (binit s) = cpus s" "hart (binit s) = hart s" "sie (binit s) = sie s" "disk (binit s) = disk s"
  "lk_free l s \<Longrightarrow> lk_free l (binit s)"
  "\<not> sl_locked (sleeplocks s k) \<Longrightarrow> \<not> sl_locked (sleeplocks (binit s) k)"
proof -
  have a: "cpus (binit_buf b s) = cpus s" "hart (binit_buf b s) = hart s" "sie (binit_buf b s) = sie s"
    "disk (binit_buf b s) = disk s" "lk_free l s \<Longrightarrow> lk_free l (binit_buf b s)"
    "\<not> sl_locked (sleeplocks s k) \<Longrightarrow> \<not> sl_locked (sleeplocks (binit_buf b s) k)" for b and s :: "'a bstate_scheme"
    by (simp_all add: binit_buf_def Let_def upd_buf_def initsleeplock_def upd_sl_def initlock_def lk_free_def)
  have f: "cpus (fold binit_buf bs s) = cpus s \<and> hart (fold binit_buf bs s) = hart s \<and> sie (fold binit_buf bs s) = sie s
    \<and> disk (fold binit_buf bs s) = disk s \<and> (lk_free l s \<longrightarrow> lk_free l (fold binit_buf bs s))
    \<and> (\<not> sl_locked (sleeplocks s k) \<longrightarrow> \<not> sl_locked (sleeplocks (fold binit_buf bs s) k))" for bs and s :: "'a bstate_scheme"
    by (induction bs arbitrary: s) (simp_all add: a)
  show "cpus (binit s) = cpus s" "hart (binit s) = hart s" "sie (binit s) = sie s" "disk (binit s) = disk s"
    "lk_free l s \<Longrightarrow> lk_free l (binit s)"
    "\<not> sl_locked (sleeplocks s k) \<Longrightarrow> \<not> sl_locked (sleeplocks (binit s) k)"
    using f [where bs = "[0..<NBUF]" and s = "upd_buf bhead (\<lambda>x. x\<lparr>b_prev := bhead, b_next := bhead\<rparr>) (initlock BcacheLock ''bcache'' s)"]
    by (simp_all add: binit_def Let_def upd_buf_def initlock_def lk_free_def del: NBUF_def)
qed

lemma bio_demo_ok:
  "calm 0 (bio_demo m)" "bc_inv 1 (bio_demo m)" "refs 1 (bio_demo m) bn = 0" "\<not> hasbuf 1 (bufs (bio_demo m)) b bn"
  "b < NBUF \<Longrightarrow> b_refcnt (bufs (bio_demo m) b) = 0" "content 1 (bio_demo m) bn = replicate 1024 (ucast bn)"
  "\<not> sl_locked (sleeplocks (bio_demo m) k)"
proof -
  have i: "lru (bufs (bio_demo m)) (rev [0..<NBUF])" "\<forall>b < NBUF. b_refcnt (bufs (bio_demo m) b) = 0 \<and> b_dev (bufs (bio_demo m) b) = 0"
    using binit_ok [of "bio_zero m"] by (simp_all add: bio_demo_def bio_zero_def)
  note k = binit_keeps [where s = "bio_zero m", folded bio_demo_def] and z = bio_zero_def
  show "calm 0 (bio_demo m)" unfolding calm_def cpu_ok_def mycpu_def cpuid_def intr_get_def using k(1-3,5) by (simp add: z lk_free_def)
  show nl: "\<not> sl_locked (sleeplocks (bio_demo m) k)" for k using k(6) by (simp add: z)
  show nh: "\<not> hasbuf 1 (bufs (bio_demo m)) b bn" for b bn using i(2) by (auto simp: hasbuf_def)
  have nb: "bufof 1 (bufs (bio_demo m)) bn = None" for bn using nh by (simp add: bufof_None)
  show "b < NBUF \<Longrightarrow> b_refcnt (bufs (bio_demo m) b) = 0" using i(2) by blast
  show "bc_inv 1 (bio_demo m)" using i nl unfolding bc_inv_def buniq_def by auto
  show "refs 1 (bio_demo m) bn = 0" using nb by (simp add: refs_def)
  show "content 1 (bio_demo m) bn = replicate 1024 (ucast bn)" using nb k(4) by (simp add: content_def z)
qed

lemma bread_coherent_witness:
  "\<exists>b s'. bread 1 7 (bio_demo ()) = Inr (b, s') \<and> b_data (bufs s' b) = replicate 1024 7 \<and> bc_inv 1 s'"
proof -
  have a: "\<exists>b < NBUF. b_refcnt (bufs (bio_demo ()) b) = 0" using bio_demo_ok(5) [of 0] by (intro exI [of _ 0]) simp
  have r: "refs 1 (bio_demo ()) 7 < 2 ^ 32 - 1" by (simp add: bio_demo_ok(3))
  have n: "\<forall>b. hasbuf 1 (bufs (bio_demo ())) b 7 \<longrightarrow> \<not> sl_locked (sleeplocks (bio_demo ()) (BufSl b))" by (simp add: bio_demo_ok(4))
  obtain b s' where "bread 1 7 (bio_demo ()) = Inr (b, s')" "b_data (bufs s' b) = content 1 (bio_demo ()) 7" "bc_inv 1 s'"
    using bread_coherent [OF bio_demo_ok(1,2) r n disjI2 [OF a]] by blast
  then show ?thesis by (auto simp: bio_demo_ok(6))
qed

lemma find_first: "P x \<Longrightarrow> \<forall>y \<in> set ys. \<not> P y \<Longrightarrow> List.find P (ys @ x # zs) = Some x"
  by (induction ys) auto

text \<open>
  C3: the links implement least-recently-used replacement. If the list holds the buffers in the order
  \<open>xs\<close>, the release of the last reference moves the buffer to the front and keeps the others in order,
  and any other release keeps the list; a miss recycles the unreferenced buffer that is last in the
  list.
\<close>

theorem bcache_lru:
  assumes "calm p s" and "lru (bufs s) xs"
  shows "(bheld p s b \<and> b < NBUF \<longrightarrow> (\<exists>s'. brelse b s = Inr s'
      \<and> lru (bufs s') (if b_refcnt (bufs s b) = 1 then b # remove1 b xs else xs)))
    \<and> ((\<forall>c < NBUF. \<not> (b_dev (bufs s c) = dev \<and> b_blockno (bufs s c) = bn))
      \<and> xs = us @ b # vs \<and> b_refcnt (bufs s b) = 0 \<and> (\<forall>v \<in> set vs. b_refcnt (bufs s v) \<noteq> 0)
      \<and> \<not> sl_locked (sleeplocks s (BufSl b)) \<longrightarrow> (\<exists>s'. bget dev bn s = Inr (b, s') \<and> lru (bufs s') xs))"
proof
  show "bheld p s b \<and> b < NBUF \<longrightarrow> (\<exists>s'. brelse b s = Inr s'
      \<and> lru (bufs s') (if b_refcnt (bufs s b) = 1 then b # remove1 b xs else xs))"
  proof
    assume b: "bheld p s b \<and> b < NBUF"
    let ?B = "(bufs s)(b := (bufs s b)\<lparr>b_refcnt := b_refcnt (bufs s b) - 1\<rparr>)"
    have "lru ?B xs" by (rule lru_upd [OF assms(2)]) simp_all
    moreover from this have "lru (to_front b ?B) (b # remove1 b xs)" using b to_front_lru by blast
    ultimately have "lru (unref b (bufs s)) (if b_refcnt (bufs s b) = 1 then b # remove1 b xs else xs)"
      by (auto simp: unref_def)
    then show "\<exists>s'. brelse b s = Inr s' \<and> lru (bufs s') (if b_refcnt (bufs s b) = 1 then b # remove1 b xs else xs)"
      using b by (simp add: brelse_eq [OF assms(1)] bheld_def)
  qed
  show "(\<forall>c < NBUF. \<not> (b_dev (bufs s c) = dev \<and> b_blockno (bufs s c) = bn))
      \<and> xs = us @ b # vs \<and> b_refcnt (bufs s b) = 0 \<and> (\<forall>v \<in> set vs. b_refcnt (bufs s v) \<noteq> 0)
      \<and> \<not> sl_locked (sleeplocks s (BufSl b)) \<longrightarrow> (\<exists>s'. bget dev bn s = Inr (b, s') \<and> lru (bufs s') xs)"
  proof
    assume h: "(\<forall>c < NBUF. \<not> (b_dev (bufs s c) = dev \<and> b_blockno (bufs s c) = bn))
      \<and> xs = us @ b # vs \<and> b_refcnt (bufs s b) = 0 \<and> (\<forall>v \<in> set vs. b_refcnt (bufs s v) \<noteq> 0)
      \<and> \<not> sl_locked (sleeplocks s (BufSl b))"
    have "List.find (\<lambda>c. b_dev (bufs s c) = dev \<and> b_blockno (bufs s c) = bn) xs = None"
      using h assms(2) by (auto simp: find_None_iff lru_def)
    moreover have "List.find (\<lambda>b. b_refcnt (bufs s b) = 0) (rev xs) = Some b"
      using h find_first [of "\<lambda>b. b_refcnt (bufs s b) = 0" b "rev vs" "rev us"] by simp
    moreover have "lru ((bufs s)(b := (bufs s b)\<lparr>b_dev := dev, b_blockno := bn, b_valid := False, b_refcnt := 1\<rparr>)) xs"
      by (rule lru_upd [OF assms(2)]) simp_all
    ultimately show "\<exists>s'. bget dev bn s = Inr (b, s') \<and> lru (bufs s') xs"
      using h by (simp add: bget_eq [OF assms] btake_def upd_sl_def upd_buf_def lk_comm)
  qed
qed

lemma bcache_lru_witness: "\<exists>s'. bget 1 9 (bio_demo ()) = Inr (0, s') \<and> lru (bufs s') (rev [0..<NBUF])"
proof -
  have l: "lru (bufs (bio_demo ())) (rev [0..<NBUF])" using binit_ok [of "bio_zero ()"] by (simp add: bio_demo_def bio_zero_def)
  have "rev [0..<NBUF] = rev [1..<NBUF] @ 0 # []" by (simp add: upt_conv_Cons)
  moreover have "\<forall>c < NBUF. \<not> (b_dev (bufs (bio_demo ()) c) = 1 \<and> b_blockno (bufs (bio_demo ()) c) = 9)"
    using bio_demo_ok(4) [where bn = 9 and m = "()"] by (auto simp: hasbuf_def)
  moreover have "b_refcnt (bufs (bio_demo ()) 0) = 0" by (rule bio_demo_ok(5)) simp
  ultimately show ?thesis
    using bcache_lru [OF bio_demo_ok(1) l, where dev = 1 and bn = 9 and us = "rev [1..<NBUF]" and b = 0 and vs = "[]"] bio_demo_ok(7) [where m = "()"]
    by auto
qed

end
