(* ===== verification/Log.thy ===== *)
theory Log
  imports Bio
begin

text \<open>
  The log of the file system (kernel/log.c): transactions of block writes that reach the disk all or
  not at all.

  \<open>log_write\<close> records the block in the in-memory header and pins its buffer; the last \<open>end_op\<close> commits:
  it copies the blocks to the log, writes the header (the commit point), installs the blocks in
  their home locations and clears the header. \<open>recover_from_log\<close> runs at boot. The header block on the
  disk has the number of blocks in its first four bytes, then the block numbers.
\<close>

definition MAXOPBLOCKS :: int where [simp]: "MAXOPBLOCKS = 10"
definition LOGSIZE :: int where [simp]: "LOGSIZE = 30"

record log =
  l_start :: int
  l_size :: int
  l_outstanding :: int
  l_committing :: bool
  l_dev :: int
  lh_n :: int
  lh_block :: "nat \<Rightarrow> int"

record superblock =
  sb_magic :: u32
  sb_size :: u32
  sb_nblocks :: u32
  sb_ninodes :: u32
  sb_nlog :: u32
  sb_logstart :: u32
  sb_inodestart :: u32
  sb_bmapstart :: u32

record logstate = bstate +
  log :: log

abbreviation upd_log :: "(log \<Rightarrow> log) \<Rightarrow> 'a logstate_scheme \<Rightarrow> 'a logstate_scheme" where
  "upd_log f s \<equiv> s\<lparr>log := f (log s)\<rparr>"

section \<open>Operations\<close>

abbreviation log_bread :: "int \<Rightarrow> 'a logstate_scheme \<Rightarrow> fault + nat \<times> 'a logstate_scheme" where
  "log_bread bn s \<equiv> bread (word_of_int (l_dev (log s))) (word_of_int bn) s"

definition install_trans :: "bool \<Rightarrow> 'a logstate_scheme \<Rightarrow> fault + 'a logstate_scheme" where
  "install_trans recovering s =
     for_each [0..<nat (lh_n (log s))] (\<lambda>tail s.
       bnd (log_bread (l_start (log s) + int tail + 1) s) (\<lambda>(lbuf, s).
       bnd (log_bread (lh_block (log s) tail) s) (\<lambda>(dbuf, s).
       let s = upd_buf dbuf (\<lambda>x. x\<lparr>b_data := b_data (bufs s lbuf)\<rparr>) s
       in bnd (bwrite dbuf s) (\<lambda>s.
       bnd (if \<not> recovering then bunpin dbuf s else Inr s) (\<lambda>s.
       bnd (brelse lbuf s) (\<lambda>s. brelse dbuf s)))))) s"

definition read_head :: "'a logstate_scheme \<Rightarrow> fault + 'a logstate_scheme" where
  "read_head s =
     bnd (log_bread (l_start (log s)) s) (\<lambda>(buf, s).
     let lh = b_data (bufs s buf);
         s = upd_log (\<lambda>l. l\<lparr>lh_n := sint (rd32 lh 0)\<rparr>) s;
         s = fold (\<lambda>i s. upd_log (\<lambda>l. l\<lparr>lh_block := (lh_block l)(i := sint (rd32 lh (4 + 4 * i)))\<rparr>) s)
               [0..<nat (lh_n (log s))] s
     in brelse buf s)"

definition write_head :: "'a logstate_scheme \<Rightarrow> fault + 'a logstate_scheme" where
  "write_head s =
     bnd (log_bread (l_start (log s)) s) (\<lambda>(buf, s).
     let s = upd_buf buf (\<lambda>x. x\<lparr>b_data := wr32 (b_data x) 0 (word_of_int (lh_n (log s)))\<rparr>) s;
         s = fold (\<lambda>i s. upd_buf buf (\<lambda>x. x\<lparr>b_data := wr32 (b_data x) (4 + 4 * i) (word_of_int (lh_block (log s) i))\<rparr>) s)
               [0..<nat (lh_n (log s))] s
     in bnd (bwrite buf s) (\<lambda>s. brelse buf s))"

definition recover_from_log :: "'a logstate_scheme \<Rightarrow> fault + 'a logstate_scheme" where
  "recover_from_log s =
     bnd (read_head s) (\<lambda>s.
     bnd (install_trans True s) (\<lambda>s.
     write_head (upd_log (\<lambda>l. l\<lparr>lh_n := 0\<rparr>) s)))"

definition initlog :: "int \<Rightarrow> superblock \<Rightarrow> 'a logstate_scheme \<Rightarrow> fault + 'a logstate_scheme" where
  "initlog dev sb s =
     (if 4 + 4 * LOGSIZE \<ge> int BSIZE then Inl (Panic ''initlog: too big logheader'')
      else let s = initlock LogLock ''log'' s;
               s = upd_log (\<lambda>l. l\<lparr>l_start := sint (sb_logstart sb), l_size := sint (sb_nlog sb), l_dev := dev\<rparr>) s
           in recover_from_log s)"

definition begin_op_check :: "'a logstate_scheme \<Rightarrow> fault + unit run \<times> 'a logstate_scheme" where
  "begin_op_check s =
     (if l_committing (log s) then Inr (Blocks ChLog LogLock, s)
      else if lh_n (log s) + (l_outstanding (log s) + 1) * MAXOPBLOCKS > LOGSIZE then Inr (Blocks ChLog LogLock, s)
      else let s = upd_log (\<lambda>l. l\<lparr>l_outstanding := l_outstanding l + 1\<rparr>) s
           in bnd (release LogLock s) (\<lambda>s. Inr (Done (), s)))"

definition begin_op :: "'a logstate_scheme \<Rightarrow> fault + 'a logstate_scheme" where
  "begin_op s =
     bnd (acquire LogLock s) (\<lambda>s.
     bnd (begin_op_check s) (\<lambda>(r, s).
       case r of Done _ \<Rightarrow> Inr s | Blocks ch lk \<Rightarrow> Inl (Asleep ch)))"

definition write_log :: "'a logstate_scheme \<Rightarrow> fault + 'a logstate_scheme" where
  "write_log s =
     for_each [0..<nat (lh_n (log s))] (\<lambda>tail s.
       bnd (log_bread (l_start (log s) + int tail + 1) s) (\<lambda>(to, s).
       bnd (log_bread (lh_block (log s) tail) s) (\<lambda>(from, s).
       let s = upd_buf to (\<lambda>x. x\<lparr>b_data := b_data (bufs s from)\<rparr>) s
       in bnd (bwrite to s) (\<lambda>s.
       bnd (brelse from s) (\<lambda>s. brelse to s))))) s"

definition commit :: "'a logstate_scheme \<Rightarrow> fault + 'a logstate_scheme" where
  "commit s =
     (if lh_n (log s) > 0
      then bnd (write_log s) (\<lambda>s.
           bnd (write_head s) (\<lambda>s.
           bnd (install_trans False s) (\<lambda>s.
           write_head (upd_log (\<lambda>l. l\<lparr>lh_n := 0\<rparr>) s))))
      else Inr s)"

definition end_op :: "'a logstate_scheme \<Rightarrow> fault + 'a logstate_scheme" where
  "end_op s =
     bnd (acquire LogLock s) (\<lambda>s.
     let s = upd_log (\<lambda>l. l\<lparr>l_outstanding := l_outstanding l - 1\<rparr>) s
     in if l_committing (log s) then Inl (Panic ''log.committing'')
        else bnd (if l_outstanding (log s) = 0
                  then Inr (True, upd_log (\<lambda>l. l\<lparr>l_committing := True\<rparr>) s)
                  else bnd (wakeup ChLog s) (\<lambda>s. Inr (False, s))) (\<lambda>(do_commit, s).
        bnd (release LogLock s) (\<lambda>s.
        if do_commit
        then bnd (commit s) (\<lambda>s.
             bnd (acquire LogLock s) (\<lambda>s.
             let s = upd_log (\<lambda>l. l\<lparr>l_committing := False\<rparr>) s
             in bnd (wakeup ChLog s) (\<lambda>s. release LogLock s)))
        else Inr s)))"

text \<open>The index of the block in the header, or the number of blocks: the loop of \<open>log_write\<close>.\<close>

definition log_index :: "u32 \<Rightarrow> log \<Rightarrow> nat" where
  "log_index bn l =
     (case List.find (\<lambda>i. word_of_int (lh_block l i) = bn) [0..<nat (lh_n l)] of
        Some i \<Rightarrow> i | None \<Rightarrow> nat (lh_n l))"

definition log_write :: "nat \<Rightarrow> 'a logstate_scheme \<Rightarrow> fault + 'a logstate_scheme" where
  "log_write b s =
     bnd (acquire LogLock s) (\<lambda>s.
     if lh_n (log s) \<ge> LOGSIZE \<or> lh_n (log s) \<ge> l_size (log s) - 1 then Inl (Panic ''too big a transaction'')
     else if l_outstanding (log s) < 1 then Inl (Panic ''log_write outside of trans'')
     else let bn = b_blockno (bufs s b); i = log_index bn (log s);
              s = upd_log (\<lambda>l. l\<lparr>lh_block := (lh_block l)(i := sint bn)\<rparr>) s
          in bnd (if int i = lh_n (log s)
                  then bnd (bpin b s) (\<lambda>s. Inr (upd_log (\<lambda>l. l\<lparr>lh_n := lh_n l + 1\<rparr>) s))
                  else Inr s) (\<lambda>s.
             release LogLock s))"

section \<open>Rules for the calls\<close>

lemma logstate_comm [lk_comm]:
  "acquire l (s\<lparr>log := x0\<rparr>) = bnd (acquire l s) (\<lambda>s. Inr (s\<lparr>log := x0\<rparr>))"
  "release l (s\<lparr>log := x0\<rparr>) = bnd (release l s) (\<lambda>s. Inr (s\<lparr>log := x0\<rparr>))"
  "holding l (s\<lparr>log := x0\<rparr>) = holding l s" "mycpu (s\<lparr>log := x0\<rparr>) = mycpu s" "intr_get (s\<lparr>log := x0\<rparr>) = intr_get s"
  "lk_free l (s\<lparr>log := x0\<rparr>) = lk_free l s" "cpu_ok (s\<lparr>log := x0\<rparr>) = cpu_ok s"
  "lk_on l (s\<lparr>log := x0\<rparr>) = (lk_on l s)\<lparr>log := x0\<rparr>"
  "lk_cycle (s\<lparr>log := x0\<rparr>) = (lk_cycle s)\<lparr>log := x0\<rparr>"
  "set_lname k nm (s\<lparr>log := x0\<rparr>) = (set_lname k nm s)\<lparr>log := x0\<rparr>"
  "log (lk_on l s) = log s" "log (lk_cycle s) = log s" "log (set_lname k nm s) = log s"
  by (simp_all add: lk_free_def cpu_ok_def lk_cycle_def lk_on_def set_lname_def lock_defs Let_def)


end
