(* ===== verification/Fs.thy ===== *)
theory Fs
  imports Log
begin

text \<open>
  The file system (kernel/fs.c, kernel/fs.h): block allocation, inodes, file contents, directories
  and path names.

  On-disk structures are fields of the byte array of a buffer: a \<open>struct dinode\<close> is 64 bytes at
  \<open>64 * (inum mod IPB)\<close>, a \<open>struct dirent\<close> 16 bytes. An inode pointer is the index of the entry of the
  inode table. A transfer names its other side: a user address, a physical address of the kernel, or
  a local variable, whose bytes are returned or given. Messages on the console are not modelled.
\<close>

unbundle bit_operations_syntax

definition ROOTDEV :: u32 where "ROOTDEV = 1"
definition ROOTINO :: u32 where "ROOTINO = 1"
definition FSMAGIC :: u32 where "FSMAGIC = 0x10203040"
definition NINODE :: nat where [simp]: "NINODE = 50"
definition NDIRECT :: nat where [simp]: "NDIRECT = 12"
definition NINDIRECT :: nat where [simp]: "NINDIRECT = BSIZE div 4"
definition MAXFILE :: nat where [simp]: "MAXFILE = NDIRECT + NINDIRECT"
definition DIRSIZ :: nat where [simp]: "DIRSIZ = 14"
definition IPB :: nat where [simp]: "IPB = BSIZE div 64"
definition BPB :: nat where [simp]: "BPB = BSIZE * 8"

definition T_DIR :: u16 where "T_DIR = 1"
definition T_FILE :: u16 where "T_FILE = 2"
definition T_DEVICE :: u16 where "T_DEVICE = 3"

record inode =
  i_dev :: u32
  i_inum :: u32
  i_ref :: int
  i_valid :: bool
  i_type :: u16
  i_major :: u16
  i_minor :: u16
  i_nlink :: u16
  i_size :: u32
  i_addrs :: "nat \<Rightarrow> u32"

record fsstate = logstate +
  sb :: superblock
  inodes :: "nat \<Rightarrow> inode"

abbreviation upd_inode :: "nat \<Rightarrow> (inode \<Rightarrow> inode) \<Rightarrow> 'a fsstate_scheme \<Rightarrow> 'a fsstate_scheme" where
  "upd_inode ip f s \<equiv> s\<lparr>inodes := (inodes s)(ip := f (inodes s ip))\<rparr>"

abbreviation upd_data :: "nat \<Rightarrow> (block \<Rightarrow> block) \<Rightarrow> 'a fsstate_scheme \<Rightarrow> 'a fsstate_scheme" where
  "upd_data b f s \<equiv> upd_buf b (\<lambda>x. x\<lparr>b_data := f (b_data x)\<rparr>) s"

definition IBLOCK :: "u32 \<Rightarrow> superblock \<Rightarrow> u32" where
  "IBLOCK i x = i div of_nat IPB + sb_inodestart x"

definition BBLOCK :: "u32 \<Rightarrow> superblock \<Rightarrow> u32" where
  "BBLOCK b x = b div of_nat BPB + sb_bmapstart x"

section \<open>Super block\<close>

definition superblock_of :: "block \<Rightarrow> superblock" where
  "superblock_of bs = \<lparr>sb_magic = rd32 bs 0, sb_size = rd32 bs 4, sb_nblocks = rd32 bs 8, sb_ninodes = rd32 bs 12,
     sb_nlog = rd32 bs 16, sb_logstart = rd32 bs 20, sb_inodestart = rd32 bs 24, sb_bmapstart = rd32 bs 28\<rparr>"

definition readsb :: "int \<Rightarrow> 'a fsstate_scheme \<Rightarrow> fault + 'a fsstate_scheme" where
  "readsb dev s =
     bnd (bread (word_of_int dev) 1 s) (\<lambda>(bp, s).
     brelse bp (s\<lparr>sb := superblock_of (b_data (bufs s bp))\<rparr>))"

definition fsinit :: "int \<Rightarrow> 'a fsstate_scheme \<Rightarrow> fault + 'a fsstate_scheme" where
  "fsinit dev s =
     bnd (readsb dev s) (\<lambda>s.
     if sb_magic (sb s) \<noteq> FSMAGIC then Inl (Panic ''invalid file system'')
     else initlog dev (sb s) s)"

section \<open>Blocks\<close>

definition bzero :: "u32 \<Rightarrow> u32 \<Rightarrow> 'a fsstate_scheme \<Rightarrow> fault + 'a fsstate_scheme" where
  "bzero dev bno s =
     bnd (bread dev bno s) (\<lambda>(bp, s).
     let s = upd_data bp (\<lambda>_. replicate BSIZE 0) s
     in bnd (log_write bp s) (\<lambda>s. brelse bp s))"

text \<open>Bit \<open>bi\<close> of the bitmap block; the first clear bit among the first \<open>n\<close>.\<close>

definition bit_mask :: "nat \<Rightarrow> u8" where
  "bit_mask bi = push_bit (bi mod 8) 1"

definition bmap_clear :: "block \<Rightarrow> nat \<Rightarrow> bool" where
  "bmap_clear d bi \<longleftrightarrow> d ! (bi div 8) AND bit_mask bi = 0"

definition first_clear :: "block \<Rightarrow> nat \<Rightarrow> nat option" where
  "first_clear d n = List.find (bmap_clear d) [0..<n]"

fun balloc_from :: "nat list \<Rightarrow> u32 \<Rightarrow> 'a fsstate_scheme \<Rightarrow> fault + u32 \<times> 'a fsstate_scheme" where
  "balloc_from [] dev s = Inr (0, s)"
| "balloc_from (b # bs) dev s =
     bnd (bread dev (BBLOCK (of_nat b) (sb s)) s) (\<lambda>(bp, s).
     case first_clear (b_data (bufs s bp)) (min BPB (unat (sb_size (sb s)) - b)) of
       Some bi \<Rightarrow>
         let s = upd_data bp (\<lambda>d. d[bi div 8 := d ! (bi div 8) OR bit_mask bi]) s
         in bnd (log_write bp s) (\<lambda>s.
            bnd (brelse bp s) (\<lambda>s.
            bnd (bzero dev (of_nat (b + bi)) s) (\<lambda>s. Inr (of_nat (b + bi), s))))
     | None \<Rightarrow> bnd (brelse bp s) (\<lambda>s. balloc_from bs dev s))"

definition balloc :: "u32 \<Rightarrow> 'a fsstate_scheme \<Rightarrow> fault + u32 \<times> 'a fsstate_scheme" where
  "balloc dev s = balloc_from (map (\<lambda>k. k * BPB) [0..<(unat (sb_size (sb s)) + BPB - 1) div BPB]) dev s"

definition bfree :: "u32 \<Rightarrow> u32 \<Rightarrow> 'a fsstate_scheme \<Rightarrow> fault + 'a fsstate_scheme" where
  "bfree dev b s =
     bnd (bread dev (BBLOCK b (sb s)) s) (\<lambda>(bp, s).
     let bi = unat b mod BPB
     in if bmap_clear (b_data (bufs s bp)) bi then Inl (Panic ''freeing free block'')
        else let s = upd_data bp (\<lambda>d. d[bi div 8 := d ! (bi div 8) AND NOT (bit_mask bi)]) s
             in bnd (log_write bp s) (\<lambda>s. brelse bp s))"

section \<open>Inodes\<close>

definition iinit :: "'a fsstate_scheme \<Rightarrow> 'a fsstate_scheme" where
  "iinit s = fold (\<lambda>i s. initsleeplock (InodeSl i) ''inode'' s) [0..<NINODE] (initlock ItableLock ''itable'' s)"

definition iget :: "u32 \<Rightarrow> u32 \<Rightarrow> 'a fsstate_scheme \<Rightarrow> fault + nat \<times> 'a fsstate_scheme" where
  "iget dev inum s =
     bnd (acquire ItableLock s) (\<lambda>s.
     case List.find (\<lambda>i. i_ref (inodes s i) > 0 \<and> i_dev (inodes s i) = dev \<and> i_inum (inodes s i) = inum) [0..<NINODE] of
       Some ip \<Rightarrow>
         let s = upd_inode ip (\<lambda>i. i\<lparr>i_ref := s32 (i_ref i + 1)\<rparr>) s
         in bnd (release ItableLock s) (\<lambda>s. Inr (ip, s))
     | None \<Rightarrow>
        (case List.find (\<lambda>i. i_ref (inodes s i) = 0) [0..<NINODE] of
           None \<Rightarrow> Inl (Panic ''iget: no inodes'')
         | Some ip \<Rightarrow>
             let s = upd_inode ip (\<lambda>i. i\<lparr>i_dev := dev, i_inum := inum, i_ref := 1, i_valid := False\<rparr>) s
             in bnd (release ItableLock s) (\<lambda>s. Inr (ip, s))))"

text \<open>The on-disk inode at byte \<open>o\<close> of its block.\<close>

definition dinode_off :: "u32 \<Rightarrow> nat" where
  "dinode_off inum = 64 * (unat inum mod IPB)"

definition dinode_load :: "block \<Rightarrow> nat \<Rightarrow> inode \<Rightarrow> inode" where
  "dinode_load d off i = i\<lparr>i_type := rd16 d off, i_major := rd16 d (off + 2), i_minor := rd16 d (off + 4),
     i_nlink := rd16 d (off + 6), i_size := rd32 d (off + 8),
     i_addrs := (\<lambda>k. if k \<le> NDIRECT then rd32 d (off + 12 + 4 * k) else i_addrs i k)\<rparr>"

definition dinode_store :: "inode \<Rightarrow> nat \<Rightarrow> block \<Rightarrow> block" where
  "dinode_store i off d =
     (let d = wr16 d off (i_type i); d = wr16 d (off + 2) (i_major i); d = wr16 d (off + 4) (i_minor i);
          d = wr16 d (off + 6) (i_nlink i); d = wr32 d (off + 8) (i_size i)
      in splice d (off + 12) (concat (map (\<lambda>k. u32_bytes (i_addrs i k)) [0..<NDIRECT + 1])))"

fun ialloc_from :: "nat list \<Rightarrow> u32 \<Rightarrow> u16 \<Rightarrow> 'a fsstate_scheme \<Rightarrow> fault + nat option \<times> 'a fsstate_scheme" where
  "ialloc_from [] dev type s = Inr (None, s)"
| "ialloc_from (inum # is) dev type s =
     bnd (bread dev (IBLOCK (of_nat inum) (sb s)) s) (\<lambda>(bp, s).
     let off = dinode_off (of_nat inum)
     in if rd16 (b_data (bufs s bp)) off = 0
        then let s = upd_data bp (\<lambda>d. wr16 (splice d off (replicate 64 0)) off type) s
             in bnd (log_write bp s) (\<lambda>s.
                bnd (brelse bp s) (\<lambda>s.
                bnd (iget dev (of_nat inum) s) (\<lambda>(ip, s). Inr (Some ip, s))))
        else bnd (brelse bp s) (\<lambda>s. ialloc_from is dev type s))"

definition ialloc :: "u32 \<Rightarrow> u16 \<Rightarrow> 'a fsstate_scheme \<Rightarrow> fault + nat option \<times> 'a fsstate_scheme" where
  "ialloc dev type s = ialloc_from [1..<unat (sb_ninodes (sb s))] dev type s"

definition iupdate :: "nat \<Rightarrow> 'a fsstate_scheme \<Rightarrow> fault + 'a fsstate_scheme" where
  "iupdate ip s =
     bnd (bread (i_dev (inodes s ip)) (IBLOCK (i_inum (inodes s ip)) (sb s)) s) (\<lambda>(bp, s).
     let i = inodes s ip; s = upd_data bp (dinode_store i (dinode_off (i_inum i))) s
     in bnd (log_write bp s) (\<lambda>s. brelse bp s))"

definition idup :: "nat \<Rightarrow> 'a fsstate_scheme \<Rightarrow> fault + nat \<times> 'a fsstate_scheme" where
  "idup ip s =
     bnd (acquire ItableLock s) (\<lambda>s.
     let s = upd_inode ip (\<lambda>i. i\<lparr>i_ref := s32 (i_ref i + 1)\<rparr>) s
     in bnd (release ItableLock s) (\<lambda>s. Inr (ip, s)))"

definition ilock :: "nat \<Rightarrow> 'a fsstate_scheme \<Rightarrow> fault + 'a fsstate_scheme" where
  "ilock ip s =
     (if i_ref (inodes s ip) < 1 then Inl (Panic ''ilock'')
      else bnd (acquiresleep (InodeSl ip) s) (\<lambda>s.
      if \<not> i_valid (inodes s ip)
      then bnd (bread (i_dev (inodes s ip)) (IBLOCK (i_inum (inodes s ip)) (sb s)) s) (\<lambda>(bp, s).
           let s = upd_inode ip (dinode_load (b_data (bufs s bp)) (dinode_off (i_inum (inodes s ip)))) s
           in bnd (brelse bp s) (\<lambda>s.
              let s = upd_inode ip (\<lambda>i. i\<lparr>i_valid := True\<rparr>) s
              in if i_type (inodes s ip) = 0 then Inl (Panic ''ilock: no type'') else Inr s))
      else Inr s))"

definition iunlock :: "nat \<Rightarrow> 'a fsstate_scheme \<Rightarrow> fault + 'a fsstate_scheme" where
  "iunlock ip s =
     bnd (holdingsleep (InodeSl ip) s) (\<lambda>(h, s).
     if \<not> h \<or> i_ref (inodes s ip) < 1 then Inl (Panic ''iunlock'') else releasesleep (InodeSl ip) s)"

definition itrunc :: "nat \<Rightarrow> 'a fsstate_scheme \<Rightarrow> fault + 'a fsstate_scheme" where
  "itrunc ip s =
     bnd (for_each [0..<NDIRECT] (\<lambda>k s.
       if i_addrs (inodes s ip) k \<noteq> 0
       then bnd (bfree (i_dev (inodes s ip)) (i_addrs (inodes s ip) k) s) (\<lambda>s.
            Inr (upd_inode ip (\<lambda>i. i\<lparr>i_addrs := (i_addrs i)(k := 0)\<rparr>) s))
       else Inr s) s) (\<lambda>s.
     bnd (if i_addrs (inodes s ip) NDIRECT \<noteq> 0
          then bnd (bread (i_dev (inodes s ip)) (i_addrs (inodes s ip) NDIRECT) s) (\<lambda>(bp, s).
               bnd (for_each [0..<NINDIRECT] (\<lambda>j s.
                 let a = rd32 (b_data (bufs s bp)) (4 * j)
                 in if a \<noteq> 0 then bfree (i_dev (inodes s ip)) a s else Inr s) s) (\<lambda>s.
               bnd (brelse bp s) (\<lambda>s.
               bnd (bfree (i_dev (inodes s ip)) (i_addrs (inodes s ip) NDIRECT) s) (\<lambda>s.
               Inr (upd_inode ip (\<lambda>i. i\<lparr>i_addrs := (i_addrs i)(NDIRECT := 0)\<rparr>) s)))))
          else Inr s) (\<lambda>s.
     iupdate ip (upd_inode ip (\<lambda>i. i\<lparr>i_size := 0\<rparr>) s)))"

definition iput :: "nat \<Rightarrow> 'a fsstate_scheme \<Rightarrow> fault + 'a fsstate_scheme" where
  "iput ip s =
     bnd (acquire ItableLock s) (\<lambda>s.
     bnd (if i_ref (inodes s ip) = 1 \<and> i_valid (inodes s ip) \<and> i_nlink (inodes s ip) = 0
          then bnd (acquiresleep (InodeSl ip) s) (\<lambda>s.
               bnd (release ItableLock s) (\<lambda>s.
               bnd (itrunc ip s) (\<lambda>s.
               bnd (iupdate ip (upd_inode ip (\<lambda>i. i\<lparr>i_type := 0\<rparr>) s)) (\<lambda>s.
               let s = upd_inode ip (\<lambda>i. i\<lparr>i_valid := False\<rparr>) s
               in bnd (releasesleep (InodeSl ip) s) (\<lambda>s. acquire ItableLock s)))))
          else Inr s) (\<lambda>s.
     release ItableLock (upd_inode ip (\<lambda>i. i\<lparr>i_ref := s32 (i_ref i - 1)\<rparr>) s)))"

definition iunlockput :: "nat \<Rightarrow> 'a fsstate_scheme \<Rightarrow> fault + 'a fsstate_scheme" where
  "iunlockput ip s = bnd (iunlock ip s) (\<lambda>s. iput ip s)"

section \<open>Contents\<close>

definition bmap :: "nat \<Rightarrow> u32 \<Rightarrow> 'a fsstate_scheme \<Rightarrow> fault + u32 \<times> 'a fsstate_scheme" where
  "bmap ip bn s =
     (if unat bn < NDIRECT
      then let addr = i_addrs (inodes s ip) (unat bn)
           in if addr = 0
              then bnd (balloc (i_dev (inodes s ip)) s) (\<lambda>(addr, s).
                   if addr = 0 then Inr (0, s)
                   else Inr (addr, upd_inode ip (\<lambda>i. i\<lparr>i_addrs := (i_addrs i)(unat bn := addr)\<rparr>) s))
              else Inr (addr, s)
      else let k = unat bn - NDIRECT
           in if k < NINDIRECT
              then bnd (if i_addrs (inodes s ip) NDIRECT = 0
                        then bnd (balloc (i_dev (inodes s ip)) s) (\<lambda>(addr, s).
                             if addr = 0 then Inr (0, s)
                             else Inr (addr, upd_inode ip (\<lambda>i. i\<lparr>i_addrs := (i_addrs i)(NDIRECT := addr)\<rparr>) s))
                        else Inr (i_addrs (inodes s ip) NDIRECT, s)) (\<lambda>(addr, s).
                   if addr = 0 then Inr (0, s)
                   else bnd (bread (i_dev (inodes s ip)) addr s) (\<lambda>(bp, s).
                        bnd (if rd32 (b_data (bufs s bp)) (4 * k) = 0
                             then bnd (balloc (i_dev (inodes s ip)) s) (\<lambda>(addr, s).
                                  if addr \<noteq> 0
                                  then bnd (log_write bp (upd_data bp (\<lambda>d. wr32 d (4 * k) addr) s)) (\<lambda>s. Inr (addr, s))
                                  else Inr (addr, s))
                             else Inr (rd32 (b_data (bufs s bp)) (4 * k), s)) (\<lambda>(addr, s).
                        bnd (brelse bp s) (\<lambda>s. Inr (addr, s)))))
              else Inl (Panic ''bmap: out of range''))"

text \<open>\<open>struct stat\<close> as \<open>filestat\<close> copies it out: 24 bytes, with 4 bytes of padding after \<open>nlink\<close>.\<close>

record stat =
  st_dev :: u32
  st_ino :: u32
  st_type :: u16
  st_nlink :: u16
  st_size :: u64

definition stati :: "nat \<Rightarrow> 'a fsstate_scheme \<Rightarrow> stat" where
  "stati ip s = (let i = inodes s ip in
     \<lparr>st_dev = i_dev i, st_ino = i_inum i, st_type = i_type i, st_nlink = i_nlink i, st_size = ucast (i_size i)\<rparr>)"

datatype dest = ToUser u64 | ToKernel u64 | ToLocal

fun dest_plus :: "dest \<Rightarrow> nat \<Rightarrow> dest" where
  "dest_plus (ToUser a) m = ToUser (a + of_nat m)"
| "dest_plus (ToKernel a) m = ToKernel (a + of_nat m)"
| "dest_plus ToLocal m = ToLocal"

fun copy_to :: "dest \<Rightarrow> u8 list \<Rightarrow> 'a pstate_scheme \<Rightarrow> fault + int \<times> 'a pstate_scheme" where
  "copy_to (ToUser a) bs s = either_copyout True a bs s"
| "copy_to (ToKernel a) bs s = either_copyout False a bs s"
| "copy_to ToLocal bs s = Inr (0, s)"

text \<open>
  The loop of \<open>readi\<close>: \<open>left\<close> is \<open>n - tot\<close>. The result is \<open>tot\<close>, or -1, and the bytes read.
\<close>

definition rw_chunk :: "u32 \<Rightarrow> nat \<Rightarrow> nat" where
  "rw_chunk off left = min left (BSIZE - unat off mod BSIZE)"

lemma rw_chunk_pos: "0 < left \<Longrightarrow> 0 < rw_chunk off left"
  by (simp add: rw_chunk_def)

function readi_loop ::
  "nat \<Rightarrow> dest \<Rightarrow> u32 \<Rightarrow> nat \<Rightarrow> nat \<Rightarrow> u8 list \<Rightarrow> 'a fsstate_scheme \<Rightarrow> fault + (int \<times> u8 list) \<times> 'a fsstate_scheme" where
  "readi_loop ip dst off left tot acc s =
     (if left = 0 then Inr ((int tot, acc), s)
      else bnd (bmap ip (off div of_nat BSIZE) s) (\<lambda>(addr, s).
      if addr = 0 then Inr ((int tot, acc), s)
      else bnd (bread (i_dev (inodes s ip)) addr s) (\<lambda>(bp, s).
      let m = rw_chunk off left; bs = slice (b_data (bufs s bp)) (unat off mod BSIZE) m
      in bnd (copy_to dst bs s) (\<lambda>(r, s).
         if r = - 1 then bnd (brelse bp s) (\<lambda>s. Inr ((- 1, acc), s))
         else bnd (brelse bp s) (\<lambda>s.
              readi_loop ip (dest_plus dst m) (off + of_nat m) (left - m) (tot + m) (acc @ bs) s)))))"
  by pat_completeness auto
termination
  by (relation "measure (\<lambda>(ip, dst, off, left, tot, acc, s). left)") (use rw_chunk_pos in \<open>auto\<close>)

declare readi_loop.simps [simp del]

definition readi :: "nat \<Rightarrow> dest \<Rightarrow> u32 \<Rightarrow> u32 \<Rightarrow> 'a fsstate_scheme \<Rightarrow> fault + (int \<times> u8 list) \<times> 'a fsstate_scheme" where
  "readi ip dst off n s =
     (if off > i_size (inodes s ip) \<or> off + n < off then Inr ((0, []), s)
      else let n = (if off + n > i_size (inodes s ip) then i_size (inodes s ip) - off else n)
           in readi_loop ip dst off (unat n) 0 [] s)"

datatype source = FromUser u64 | FromLocal "u8 list"

fun source_plus :: "source \<Rightarrow> nat \<Rightarrow> source" where
  "source_plus (FromUser a) m = FromUser (a + of_nat m)"
| "source_plus (FromLocal bs) m = FromLocal (drop m bs)"

fun copy_from :: "source \<Rightarrow> nat \<Rightarrow> 'a pstate_scheme \<Rightarrow> fault + (int \<times> u8 list) \<times> 'a pstate_scheme" where
  "copy_from (FromUser a) m s = either_copyin True a m s"
| "copy_from (FromLocal bs) m s = Inr ((0, take m bs), s)"

text \<open>The loop of \<open>writei\<close>: the result is \<open>tot\<close> and the final \<open>off\<close>.\<close>

function writei_loop ::
  "nat \<Rightarrow> source \<Rightarrow> u32 \<Rightarrow> nat \<Rightarrow> nat \<Rightarrow> 'a fsstate_scheme \<Rightarrow> fault + (nat \<times> u32) \<times> 'a fsstate_scheme" where
  "writei_loop ip src off left tot s =
     (if left = 0 then Inr ((tot, off), s)
      else bnd (bmap ip (off div of_nat BSIZE) s) (\<lambda>(addr, s).
      if addr = 0 then Inr ((tot, off), s)
      else bnd (bread (i_dev (inodes s ip)) addr s) (\<lambda>(bp, s).
      let m = rw_chunk off left
      in bnd (copy_from src m s) (\<lambda>((r, bs), s).
         let s = upd_data bp (\<lambda>d. splice d (unat off mod BSIZE) bs) s
         in if r = - 1 then bnd (brelse bp s) (\<lambda>s. Inr ((tot, off), s))
            else bnd (log_write bp s) (\<lambda>s.
                 bnd (brelse bp s) (\<lambda>s.
                 writei_loop ip (source_plus src m) (off + of_nat m) (left - m) (tot + m) s))))))"
  by pat_completeness auto
termination
  by (relation "measure (\<lambda>(ip, src, off, left, tot, s). left)") (use rw_chunk_pos in \<open>auto\<close>)

declare writei_loop.simps [simp del]

definition writei :: "nat \<Rightarrow> source \<Rightarrow> u32 \<Rightarrow> u32 \<Rightarrow> 'a fsstate_scheme \<Rightarrow> fault + int \<times> 'a fsstate_scheme" where
  "writei ip src off n s =
     (if off > i_size (inodes s ip) \<or> off + n < off then Inr (- 1, s)
      else if unat (off + n) > MAXFILE * BSIZE then Inr (- 1, s)
      else bnd (writei_loop ip src off (unat n) 0 s) (\<lambda>((tot, off), s).
           let s = (if off > i_size (inodes s ip) then upd_inode ip (\<lambda>i. i\<lparr>i_size := off\<rparr>) s else s)
           in bnd (iupdate ip s) (\<lambda>s. Inr (int tot, s))))"

section \<open>Directories\<close>

definition namecmp :: "u8 list \<Rightarrow> u8 list \<Rightarrow> int" where
  "namecmp s t = strncmp_list (s @ [0]) (t @ [0]) DIRSIZ"

definition dirent_offs :: "u32 \<Rightarrow> nat list" where
  "dirent_offs sz = map (\<lambda>k. 16 * k) [0..<(unat sz + 15) div 16]"

fun dirlookup_from ::
  "nat list \<Rightarrow> nat \<Rightarrow> u8 list \<Rightarrow> 'a fsstate_scheme \<Rightarrow> fault + (nat \<times> u32) option \<times> 'a fsstate_scheme" where
  "dirlookup_from [] dp name s = Inr (None, s)"
| "dirlookup_from (off # offs) dp name s =
     bnd (readi dp ToLocal (of_nat off) 16 s) (\<lambda>((r, de), s).
     if r \<noteq> 16 then Inl (Panic ''dirlookup read'')
     else if rd16 de 0 = 0 then dirlookup_from offs dp name s
     else if namecmp name (drop 2 de) = 0
     then bnd (iget (i_dev (inodes s dp)) (ucast (rd16 de 0)) s) (\<lambda>(ip, s). Inr (Some (ip, of_nat off), s))
     else dirlookup_from offs dp name s)"

definition dirlookup :: "nat \<Rightarrow> u8 list \<Rightarrow> 'a fsstate_scheme \<Rightarrow> fault + (nat \<times> u32) option \<times> 'a fsstate_scheme" where
  "dirlookup dp name s =
     (if i_type (inodes s dp) \<noteq> T_DIR then Inl (Panic ''dirlookup not DIR'')
      else dirlookup_from (dirent_offs (i_size (inodes s dp))) dp name s)"

text \<open>The offset of the first free entry, or the end of the directory.\<close>

fun dirlink_slot :: "nat list \<Rightarrow> nat \<Rightarrow> 'a fsstate_scheme \<Rightarrow> fault + nat \<times> 'a fsstate_scheme" where
  "dirlink_slot [] dp s = Inr (16 * ((unat (i_size (inodes s dp)) + 15) div 16), s)"
| "dirlink_slot (off # offs) dp s =
     bnd (readi dp ToLocal (of_nat off) 16 s) (\<lambda>((r, de), s).
     if r \<noteq> 16 then Inl (Panic ''dirlink read'')
     else if rd16 de 0 = 0 then Inr (off, s)
     else dirlink_slot offs dp s)"

definition dirent_bytes :: "u32 \<Rightarrow> u8 list \<Rightarrow> u8 list" where
  "dirent_bytes inum name = u16_bytes (ucast inum) @ strncpy_list name DIRSIZ"

definition dirlink :: "nat \<Rightarrow> u8 list \<Rightarrow> u32 \<Rightarrow> 'a fsstate_scheme \<Rightarrow> fault + int \<times> 'a fsstate_scheme" where
  "dirlink dp name inum s =
     bnd (dirlookup dp name s) (\<lambda>(found, s). case found of
       Some (ip, _) \<Rightarrow> bnd (iput ip s) (\<lambda>s. Inr (- 1, s))
     | None \<Rightarrow>
         bnd (dirlink_slot (dirent_offs (i_size (inodes s dp))) dp s) (\<lambda>(off, s).
         bnd (writei dp (FromLocal (dirent_bytes inum name)) (of_nat off) 16 s) (\<lambda>(r, s).
         if r \<noteq> 16 then Inr (- 1, s) else Inr (0, s))))"

section \<open>Path names\<close>

abbreviation slash :: u8 where "slash \<equiv> 47"

text \<open>A path is the list of its characters; \<open>skipelem\<close> returns the rest and the element.\<close>

definition skipelem :: "u8 list \<Rightarrow> (u8 list \<times> u8 list) option" where
  "skipelem path =
     (let path = dropWhile (\<lambda>c. c = slash) path
      in if path = [] then None
         else let elem = takeWhile (\<lambda>c. c \<noteq> slash) path; path = dropWhile (\<lambda>c. c \<noteq> slash) path
              in Some (dropWhile (\<lambda>c. c = slash) path, take DIRSIZ elem))"

lemma skipelem_shorter: "skipelem path = Some (rest, name) \<Longrightarrow> length rest < length path"
proof -
  assume a: "skipelem path = Some (rest, name)"
  define q where "q = dropWhile (\<lambda>c. c = slash) path"
  have q: "q \<noteq> []" "rest = dropWhile (\<lambda>c. c = slash) (dropWhile (\<lambda>c. c \<noteq> slash) q)"
    using a by (auto simp: skipelem_def Let_def q_def split: if_splits)
  obtain c cs where c: "q = c # cs" using q(1) by (cases q) auto
  then have "c \<noteq> slash" using hd_dropWhile [of "\<lambda>c. c = slash" path] q(1) by (simp add: q_def)
  then have "dropWhile (\<lambda>c. c \<noteq> slash) q = dropWhile (\<lambda>c. c \<noteq> slash) cs" using c by simp
  then have "length rest \<le> length cs" using q(2) by (metis length_dropWhile_le order_trans)
  moreover have "length q \<le> length path" by (simp add: q_def length_dropWhile_le)
  ultimately show ?thesis using c by simp
qed

function namex_loop ::
  "u8 list \<Rightarrow> bool \<Rightarrow> nat \<Rightarrow> u8 list \<Rightarrow> 'a fsstate_scheme \<Rightarrow> fault + (nat option \<times> u8 list) \<times> 'a fsstate_scheme" where
  "namex_loop path nameiparent ip name s =
     (case skipelem path of
        None \<Rightarrow>
          if nameiparent then bnd (iput ip s) (\<lambda>s. Inr ((None, name), s)) else Inr ((Some ip, name), s)
      | Some (path', name') \<Rightarrow>
          bnd (ilock ip s) (\<lambda>s.
          if i_type (inodes s ip) \<noteq> T_DIR
          then bnd (iunlockput ip s) (\<lambda>s. Inr ((None, name'), s))
          else if nameiparent \<and> path' = []
          then bnd (iunlock ip s) (\<lambda>s. Inr ((Some ip, name'), s))
          else bnd (dirlookup ip name' s) (\<lambda>(next, s). case next of
                 None \<Rightarrow> bnd (iunlockput ip s) (\<lambda>s. Inr ((None, name'), s))
               | Some (next, _) \<Rightarrow> bnd (iunlockput ip s) (\<lambda>s. namex_loop path' nameiparent next name' s))))"
  by pat_completeness auto
termination
  by (relation "measure (\<lambda>(path, np, ip, name, s). length path)") (auto simp: skipelem_shorter)

declare namex_loop.simps [simp del]

definition namex :: "u8 list \<Rightarrow> bool \<Rightarrow> 'a fsstate_scheme \<Rightarrow> fault + (nat option \<times> u8 list) \<times> 'a fsstate_scheme" where
  "namex path nameiparent s =
     bnd (if path \<noteq> [] \<and> hd path = slash
          then iget ROOTDEV ROOTINO s
          else bnd (the_proc s) (\<lambda>(p, s). case p_cwd (proc s p) of
                 None \<Rightarrow> Inl (Panic ''kerneltrap'') | Some cwd \<Rightarrow> idup cwd s)) (\<lambda>(ip, s).
     namex_loop path nameiparent ip [] s)"

definition namei :: "u8 list \<Rightarrow> 'a fsstate_scheme \<Rightarrow> fault + nat option \<times> 'a fsstate_scheme" where
  "namei path s = bnd (namex path False s) (\<lambda>((ip, _), s). Inr (ip, s))"

definition nameiparent :: "u8 list \<Rightarrow> 'a fsstate_scheme \<Rightarrow> fault + (nat option \<times> u8 list) \<times> 'a fsstate_scheme" where
  "nameiparent path s = namex path True s"

end
