(* ===== verification/Ring.thy ===== *)
theory Ring
  imports Prelude
begin

text \<open>
  Ring buffers: an array of \<open>N\<close> entries and two counters that are never reduced, only used modulo \<open>N\<close>.
  The pipes, the console and the transmit buffer of the serial line are such buffers. The
  contents of a ring are the entries from the read counter up to the write counter.

  The counters are machine words and wrap around; the ring works because \<open>N\<close> divides \<open>2 ^ w\<close>.
\<close>

definition ring_list :: "nat \<Rightarrow> (nat \<Rightarrow> 'e) \<Rightarrow> 'w::len word \<Rightarrow> 'w word \<Rightarrow> 'e list" where
  "ring_list N buf r w = map (\<lambda>k. buf (unat (r + of_nat k) mod N)) [0..<unat (w - r)]"

lemma length_ring_list [simp]: "length (ring_list N buf r w) = unat (w - r)"
  by (simp add: ring_list_def)

lemma ring_list_Nil [simp]: "ring_list N buf r r = []"
  by (simp add: ring_list_def)

lemma ring_list_eq_Nil: "ring_list N buf r w = [] \<longleftrightarrow> r = w"
  by (auto simp: ring_list_def unsigned_eq_0_iff)

locale ring =
  fixes N :: nat and ty :: "'w::len itself"
  assumes N_pos: "0 < N" and N_dvd: "N dvd 2 ^ LENGTH('w)" and N_less: "N < 2 ^ LENGTH('w)"
begin

lemma slot_add: "unat (r + of_nat k :: 'w word) mod N = (unat r + k) mod N"
proof -
  have "unat (r + of_nat k :: 'w word) = (unat r + unat (of_nat k :: 'w word)) mod 2 ^ LENGTH('w)"
    by (simp add: unat_word_ariths)
  also have "\<dots> = (unat r + k) mod 2 ^ LENGTH('w)" by (simp add: unat_of_nat mod_simps)
  finally show ?thesis using N_dvd by (simp add: mod_mod_cancel)
qed

lemma slots_differ:
  assumes "k < n" and "n < N"
  shows "unat (r + of_nat k :: 'w word) mod N \<noteq> unat (r + of_nat n :: 'w word) mod N"
proof
  assume "unat (r + of_nat k :: 'w word) mod N = unat (r + of_nat n :: 'w word) mod N"
  then have "(unat r + k) mod N = (unat r + n) mod N" by (simp add: slot_add)
  then have "N dvd n - k" using assms by (subst (asm) eq_commute) (simp add: mod_eq_dvd_iff_nat)
  then show False using assms by (auto dest: dvd_imp_le)
qed

lemma count_Suc:
  assumes "unat (w - r :: 'w word) < N"
  shows "unat (w + 1 - r) = Suc (unat (w - r))"
proof -
  have "unat (w + 1 - r) = unat ((w - r) + 1)" by (simp add: algebra_simps)
  also have "\<dots> = Suc (unat (w - r))"
    using assms N_less by (simp add: unat_word_ariths)
  finally show ?thesis .
qed

lemma ring_put:
  assumes "unat (w - r :: 'w word) < N"
  shows "ring_list N (buf(unat w mod N := c)) r (w + 1) = ring_list N buf r w @ [c]"
proof -
  let ?n = "unat (w - r)"
  have w: "w = r + of_nat ?n" by simp
  have "(buf(unat w mod N := c)) (unat (r + of_nat k) mod N) = buf (unat (r + of_nat k) mod N)" if "k < ?n" for k
    using slots_differ [OF that assms, of r] w by auto
  then have "map (\<lambda>k. (buf(unat w mod N := c)) (unat (r + of_nat k) mod N)) [0..<?n] = ring_list N buf r w"
    by (simp add: ring_list_def)
  then show ?thesis by (simp add: ring_list_def [of N "buf(unat w mod N := c)"] count_Suc [OF assms])
qed

lemma ring_get:
  assumes "r \<noteq> (w :: 'w word)"
  shows "ring_list N buf r w = buf (unat r mod N) # ring_list N buf (r + 1) w"
proof -
  have "w - r \<noteq> 0" using assms by auto
  then have n: "unat (w - r) = Suc (unat (w - (r + 1)))"
    by (metis Suc_pred' diff_diff_add unat_minus_one unsigned_eq_0_iff neq0_conv)
  have "map (\<lambda>k. buf (unat (r + of_nat k) mod N)) (map Suc [0..<m]) = map (\<lambda>k. buf (unat (r + 1 + of_nat k) mod N)) [0..<m]" for m
    by (simp add: algebra_simps)
  then show ?thesis by (simp add: ring_list_def n upt_conv_Cons map_Suc_upt [symmetric] del: upt_Suc)
qed

lemma count_get:
  assumes "r \<noteq> (w :: 'w word)"
  shows "unat (w - (r + 1)) = unat (w - r) - 1"
proof -
  have "length (ring_list N (\<lambda>_. ()) r w) = Suc (length (ring_list N (\<lambda>_. ()) (r + 1) w))"
    by (subst ring_get [OF assms]) simp
  then show ?thesis by simp
qed

lemma full_iff: "w = r + of_nat N \<longleftrightarrow> unat (w - r :: 'w word) = N"
proof
  assume "w = r + of_nat N"
  then show "unat (w - r) = N" using N_less by (simp add: unat_of_nat)
next
  assume "unat (w - r) = N"
  then have "of_nat (unat (w - r)) = (of_nat N :: 'w word)" by simp
  then show "w = r + of_nat N" by (simp add: algebra_simps)
qed

end

end
