(* ===== verification/Uart.thy ===== *)
theory Uart
  imports Fs Ring
begin

text \<open>
  The serial line (kernel/uart.c) and formatted output (kernel/printf.c).

  The device is seen through its registers: \<open>uart_in\<close> are the bytes waiting to be read from RHR,
  \<open>uart_out\<close> the bytes written to THR so far, and \<open>uart_room\<close> the number of bytes the transmitter takes
  before LSR_TX_IDLE goes off. The loop that waits for LSR_TX_IDLE ends when the device has drained,
  so the write after it is modelled. After a panic no character is sent any more: such a call spins
  forever.
\<close>

unbundle bit_operations_syntax

definition UART_TX_BUF_SIZE :: nat where [simp]: "UART_TX_BUF_SIZE = 32"
definition INPUT_BUF_SIZE :: nat where [simp]: "INPUT_BUF_SIZE = 128"

record ustate = fsstate +
  uart_tx_buf :: "nat \<Rightarrow> u8"
  uart_tx_w :: u64
  uart_tx_r :: u64
  uart_in :: "u8 list"
  uart_out :: "u8 list"
  uart_room :: nat
  uart_cfg :: "(nat \<times> u8) list"
  panicked :: bool
  pr_locking :: bool
  cons_buf :: "nat \<Rightarrow> u8"
  cons_r :: u32
  cons_w :: u32
  cons_e :: u32

section \<open>The registers\<close>

definition WriteReg :: "nat \<Rightarrow> u8 \<Rightarrow> 'a ustate_scheme \<Rightarrow> 'a ustate_scheme" where
  "WriteReg reg v s = s\<lparr>uart_cfg := uart_cfg s @ [(reg, v)]\<rparr>"

definition WriteTHR :: "u8 \<Rightarrow> 'a ustate_scheme \<Rightarrow> 'a ustate_scheme" where
  "WriteTHR c s = s\<lparr>uart_out := uart_out s @ [c], uart_room := uart_room s - 1\<rparr>"

definition uartinit :: "'a ustate_scheme \<Rightarrow> 'a ustate_scheme" where
  "uartinit s =
     (let s = WriteReg 1 0 s;
          s = WriteReg 3 0x80 s;
          s = WriteReg 0 0x03 s;
          s = WriteReg 1 0 s;
          s = WriteReg 3 0x03 s;
          s = WriteReg 2 (0x01 OR 0x06) s;
          s = WriteReg 1 (0x02 OR 0x01) s
      in initlock UartTxLock ''uart'' s)"

section \<open>Output\<close>

text \<open>
  The loop of \<open>uartstart\<close> takes bytes while the transmitter has room; the first argument is that room,
  which each byte written to THR lowers by one.
\<close>

fun uartstart_loop :: "nat \<Rightarrow> 'a ustate_scheme \<Rightarrow> fault + 'a ustate_scheme" where
  "uartstart_loop 0 s = Inr s"
| "uartstart_loop (Suc room) s =
     (if uart_tx_w s = uart_tx_r s then Inr s
      else let c = uart_tx_buf s (unat (uart_tx_r s) mod UART_TX_BUF_SIZE);
               s = s\<lparr>uart_tx_r := uart_tx_r s + 1\<rparr>
           in bnd (wakeup ChUartTxR s) (\<lambda>s. uartstart_loop room (WriteTHR c s)))"

definition uartstart :: "'a ustate_scheme \<Rightarrow> fault + 'a ustate_scheme" where
  "uartstart s = uartstart_loop (uart_room s) s"

definition uartputc_check :: "u8 \<Rightarrow> 'a ustate_scheme \<Rightarrow> fault + unit run \<times> 'a ustate_scheme" where
  "uartputc_check c s =
     (if uart_tx_w s = uart_tx_r s + of_nat UART_TX_BUF_SIZE then Inr (Blocks ChUartTxR UartTxLock, s)
      else let s = s\<lparr>uart_tx_buf := (uart_tx_buf s)(unat (uart_tx_w s) mod UART_TX_BUF_SIZE := c)\<rparr>;
               s = s\<lparr>uart_tx_w := uart_tx_w s + 1\<rparr>
           in bnd (uartstart s) (\<lambda>s. bnd (release UartTxLock s) (\<lambda>s. Inr (Done (), s))))"

definition uartputc :: "u8 \<Rightarrow> 'a ustate_scheme \<Rightarrow> fault + 'a ustate_scheme" where
  "uartputc c s =
     bnd (acquire UartTxLock s) (\<lambda>s.
     if panicked s then Inl Diverges
     else bnd (uartputc_check c s) (\<lambda>(r, s).
       case r of Done _ \<Rightarrow> Inr s | Blocks ch lk \<Rightarrow> Inl (Asleep ch)))"

definition uartputc_sync :: "u8 \<Rightarrow> 'a ustate_scheme \<Rightarrow> fault + 'a ustate_scheme" where
  "uartputc_sync c s =
     (let s = push_off s
      in if panicked s then Inl Diverges else pop_off (WriteTHR c s))"

definition uartgetc :: "'a ustate_scheme \<Rightarrow> int \<times> 'a ustate_scheme" where
  "uartgetc s = (case uart_in s of [] \<Rightarrow> (- 1, s) | c # cs \<Rightarrow> (uint c, s\<lparr>uart_in := cs\<rparr>))"

definition BACKSPACE :: int where "BACKSPACE = 0x100"

definition consputc :: "int \<Rightarrow> 'a ustate_scheme \<Rightarrow> fault + 'a ustate_scheme" where
  "consputc c s =
     (if c = BACKSPACE
      then bnd (uartputc_sync 8 s) (\<lambda>s. bnd (uartputc_sync 32 s) (\<lambda>s. uartputc_sync 8 s))
      else uartputc_sync (word_of_int c) s)"

section \<open>Formatted output\<close>

text \<open>
  The characters are passed to \<open>consputc\<close> one after the other. The digits of \<open>printint\<close> are collected
  least significant first; the buffer has room for 16 characters.
\<close>

definition digits :: string where "digits = ''0123456789abcdef''"

function digits_of :: "nat \<Rightarrow> nat \<Rightarrow> char list" where
  "digits_of base x =
     (if base < 2 then []
      else digits ! (x mod base) # (if x div base \<noteq> 0 then digits_of base (x div base) else []))"
  by pat_completeness auto
termination
proof (relation "measure snd")
  fix base x :: nat
  assume "\<not> base < 2" "x div base \<noteq> 0"
  then have "1 < base" "0 < x" by (auto intro: gr0I)
  then show "((base, x div base), base, x) \<in> measure snd" by simp
qed simp

declare digits_of.simps [simp del]

text \<open>\<open>x = -xx\<close> is computed in 32 bits.\<close>

definition printint :: "int \<Rightarrow> nat \<Rightarrow> bool \<Rightarrow> char list" where
  "printint xx base sg =
     (let neg = (sg \<and> xx < 0); x = unat (word_of_int (if neg then - xx else xx) :: u32);
          buf = digits_of base x @ (if neg then ''-'' else [])
      in rev buf)"

fun ptr_digits :: "nat \<Rightarrow> u64 \<Rightarrow> char list" where
  "ptr_digits 0 x = []"
| "ptr_digits (Suc n) x = digits ! unat (drop_bit 60 x) # ptr_digits n (push_bit 4 x)"

definition printptr :: "u64 \<Rightarrow> char list" where
  "printptr x = ''0x'' @ ptr_digits 16 x"

datatype parg = PInt int | PPtr u64 | PStr "char list option"

text \<open>
  The loop over the format. An argument that is missing or of another type is undefined behaviour in
  C; the result is then \<open>None\<close>, and \<open>printf\<close> gets no further.
\<close>

fun printf_chars :: "char list \<Rightarrow> parg list \<Rightarrow> char list option" where
  "printf_chars [] args = Some []"
| "printf_chars [c] args = (if c = CHR ''%'' then Some [] else Some [c])"
| "printf_chars (c # d # fmt) args =
     (if c \<noteq> CHR ''%'' then map_option (\<lambda>out. c # out) (printf_chars (d # fmt) args)
      else if d = CHR ''d'' then
        (case args of PInt x # args \<Rightarrow> map_option (\<lambda>out. printint x 10 True @ out) (printf_chars fmt args) | _ \<Rightarrow> None)
      else if d = CHR ''x'' then
        (case args of PInt x # args \<Rightarrow> map_option (\<lambda>out. printint x 16 True @ out) (printf_chars fmt args) | _ \<Rightarrow> None)
      else if d = CHR ''p'' then
        (case args of PPtr x # args \<Rightarrow> map_option (\<lambda>out. printptr x @ out) (printf_chars fmt args) | _ \<Rightarrow> None)
      else if d = CHR ''s'' then
        (case args of
           PStr x # args \<Rightarrow>
             map_option (\<lambda>out. (case x of None \<Rightarrow> ''(null)'' | Some str \<Rightarrow> str) @ out) (printf_chars fmt args)
         | _ \<Rightarrow> None)
      else if d = CHR ''%'' then map_option (\<lambda>out. CHR ''%'' # out) (printf_chars fmt args)
      else map_option (\<lambda>out. CHR ''%'' # d # out) (printf_chars fmt args))"

definition put_chars :: "char list \<Rightarrow> 'a ustate_scheme \<Rightarrow> fault + 'a ustate_scheme" where
  "put_chars cs s = for_each cs (\<lambda>c s. consputc (int (of_char c)) s) s"

definition printf :: "char list \<Rightarrow> parg list \<Rightarrow> 'a ustate_scheme \<Rightarrow> fault + 'a ustate_scheme" where
  "printf fmt args s =
     (let locking = pr_locking s
      in bnd (if locking then acquire PrLock s else Inr s) (\<lambda>s.
         case printf_chars fmt args of
           None \<Rightarrow> Inl Diverges
         | Some out \<Rightarrow>
             bnd (put_chars out s) (\<lambda>s. if locking then release PrLock s else Inr s)))"

text \<open>What \<open>panic\<close> prints and sets before it spins forever.\<close>

definition panic_output :: "char list \<Rightarrow> 'a ustate_scheme \<Rightarrow> fault + 'a ustate_scheme" where
  "panic_output msg s =
     bnd (printf ''panic: '' [] (s\<lparr>pr_locking := False\<rparr>)) (\<lambda>s.
     bnd (printf msg [] s) (\<lambda>s.
     bnd (printf [char_of (10::nat)] [] s) (\<lambda>s. Inr (s\<lparr>panicked := True\<rparr>))))"

definition printfinit :: "'a ustate_scheme \<Rightarrow> 'a ustate_scheme" where
  "printfinit s = (initlock PrLock ''pr'' s)\<lparr>pr_locking := True\<rparr>"


section \<open>Numbers\<close>

text \<open>Reading back what \<open>printint\<close> printed.\<close>

definition dval :: "char \<Rightarrow> nat" where
  "dval c = (if of_char c < (58 :: nat) then of_char c - 48 else of_char c - 87)"

definition read_nat :: "nat \<Rightarrow> char list \<Rightarrow> nat" where
  "read_nat base cs = foldl (\<lambda>v c. base * v + dval c) 0 cs"

definition read_int :: "nat \<Rightarrow> char list \<Rightarrow> int" where
  "read_int base cs = (if cs \<noteq> [] \<and> hd cs = CHR ''-'' then - int (read_nat base (tl cs)) else int (read_nat base cs))"

lemma dval_digits: "k < 16 \<Longrightarrow> dval (digits ! k) = k \<and> digits ! k \<noteq> CHR ''-''"
proof -
  have "\<forall>k \<in> set [0..<16]. dval (digits ! k) = k \<and> digits ! k \<noteq> CHR ''-''" by code_simp
  then show "k < 16 \<Longrightarrow> ?thesis" by simp
qed

lemma digits_of_ok:
  assumes "2 \<le> base" "base \<le> 16"
  shows "read_nat base (rev (digits_of base x)) = x \<and> CHR ''-'' \<notin> set (digits_of base x) \<and> digits_of base x \<noteq> []
    \<and> (x \<noteq> 0 \<longrightarrow> last (digits_of base x) \<noteq> CHR ''0'') \<and> (\<forall>n. 0 < n \<and> x < base ^ n \<longrightarrow> length (digits_of base x) \<le> n)"
proof (induction x rule: less_induct)
  case (less x)
  have b: "\<not> base < 2" "0 < base" using assms by auto
  note d = dval_digits [of "x mod base"]
  have m: "x mod base < 16" using b(2) assms(2) by (meson mod_less_divisor order_less_le_trans)
  have d0: "digits ! k = CHR ''0'' \<longleftrightarrow> k = 0" if "k < 16" for k
    using dval_digits [OF that] by (auto simp: dval_def digits_def)
  show ?case
  proof (cases "x div base = 0")
    case True
    then have e: "digits_of base x = [digits ! x]" "x < base" using b
      by (auto simp: digits_of.simps [of base x] div_eq_0_iff)
    then show ?thesis using dval_digits [of x] d0 [of x] assms by (auto simp: read_nat_def)
  next
    case False
    then have e: "digits_of base x = digits ! (x mod base) # digits_of base (x div base)"
      using b by (simp add: digits_of.simps [of base x])
    have lt: "x div base < x" using False assms by (intro div_less_dividend) (auto intro: gr0I)
    note ih = less.IH [OF lt]
    have "read_nat base (rev (digits_of base x)) = base * (x div base) + x mod base"
      unfolding e using ih d [OF m] by (simp add: read_nat_def)
    moreover have "length (digits_of base x) \<le> n" if n: "0 < n" "x < base ^ n" for n
    proof -
      obtain k where k: "n = Suc k" using n(1) by (cases n) auto
      have "x div base < base ^ k" using n(2) k b(2) by (simp add: less_mult_imp_div_less mult.commute)
      moreover have "0 < k" using calculation False by (cases k) auto
      ultimately show ?thesis using ih k unfolding e by auto
    qed
    ultimately show ?thesis using ih d [OF m] False unfolding e by auto
  qed
qed

text \<open>
  C27: \<open>printint\<close> prints the number. For every 32-bit integer, the least one included, and both bases that
  \<open>printf\<close> uses, reading the characters back gives the number; there is no leading zero, and
  the characters fit the buffer of 16.
\<close>

theorem printint_roundtrip:
  assumes "in32 x" and "base = 10 \<or> base = 16"
  shows "read_int base (printint x base True) = x \<and> length (printint x base True) \<le> 16
    \<and> (x \<noteq> 0 \<longrightarrow> hd (if x < 0 then tl (printint x base True) else printint x base True) \<noteq> CHR ''0'')"
proof -
  have b: "2 \<le> base" "base \<le> 16" using assms(2) by auto
  define u where "u = unat (word_of_int (if x < 0 then - x else x) :: u32)"
  have iu: "int u = uint (word_of_int (if x < 0 then - x else x) :: u32)" unfolding u_def by simp
  have u: "int u = (if x < 0 then - x else x)"
    unfolding iu uint_word_of_int using assms(1) by (auto simp: in32_def)
  then have u31: "u \<le> 2147483648" using assms(1) by (auto simp: in32_def split: if_splits)
  note dd = digits_of_ok [OF b, of u]
  have d: "read_nat base (rev (digits_of base u)) = u" "CHR ''-'' \<notin> set (digits_of base u)" "digits_of base u \<noteq> []"
    "u \<noteq> 0 \<Longrightarrow> last (digits_of base u) \<noteq> CHR ''0''" using dd by blast+
  have l: "length (digits_of base u) \<le> 10"
  proof -
    have "(10 :: nat) ^ 10 \<le> base ^ 10" using assms(2) by (intro power_mono) auto
    moreover have "u < (10 :: nat) ^ 10" using u31 by simp
    ultimately have "0 < (10 :: nat) \<and> u < base ^ 10" by linarith
    then show ?thesis using dd by blast
  qed
  have p: "printint x base True = (if x < 0 then CHR ''-'' # rev (digits_of base u) else rev (digits_of base u))"
    by (simp add: printint_def Let_def u_def)
  have h: "hd (rev (digits_of base u)) = last (digits_of base u)" using d(3) by (simp add: hd_rev)
  have nm: "hd (rev (digits_of base u)) \<noteq> CHR ''-''" using d(2,3) h by (metis last_in_set)
  have z: "x \<noteq> 0 \<Longrightarrow> u \<noteq> 0" using u by (intro notI) (auto split: if_splits)
  show ?thesis
  proof (cases "x < 0")
    case True
    then show ?thesis using d(1,3) d(4) [OF z] l u h by (simp add: p read_int_def)
  next
    case False
    then show ?thesis using d(1,3) d(4) [OF z] l u nm h by (simp add: p read_int_def)
  qed
qed

theorem printint_roundtrip_witness:
  "in32 (- 2147483648) \<and> read_int 10 (printint (- 2147483648) 10 True) = - 2147483648"
proof -
  have i: "in32 (- 2147483648)" by (simp add: in32_def)
  have "read_int 10 (printint (- 2147483648) 10 True) = - 2147483648"
    by (rule conjunct1 [OF printint_roundtrip [OF i]]) simp
  then show ?thesis using i by (rule conjI [rotated])
qed

section \<open>The transmit buffer\<close>

lemma ustate_comm [lk_comm]:
  "acquire l (s\<lparr>uart_tx_buf := x0\<rparr>) = bnd (acquire l s) (\<lambda>s. Inr (s\<lparr>uart_tx_buf := x0\<rparr>))"
  "release l (s\<lparr>uart_tx_buf := x0\<rparr>) = bnd (release l s) (\<lambda>s. Inr (s\<lparr>uart_tx_buf := x0\<rparr>))"
  "holding l (s\<lparr>uart_tx_buf := x0\<rparr>) = holding l s" "mycpu (s\<lparr>uart_tx_buf := x0\<rparr>) = mycpu s" "intr_get (s\<lparr>uart_tx_buf := x0\<rparr>) = intr_get s"
  "lk_free l (s\<lparr>uart_tx_buf := x0\<rparr>) = lk_free l s" "cpu_ok (s\<lparr>uart_tx_buf := x0\<rparr>) = cpu_ok s"
  "lk_on l (s\<lparr>uart_tx_buf := x0\<rparr>) = (lk_on l s)\<lparr>uart_tx_buf := x0\<rparr>"
  "lk_cycle (s\<lparr>uart_tx_buf := x0\<rparr>) = (lk_cycle s)\<lparr>uart_tx_buf := x0\<rparr>"
  "set_lname k nm (s\<lparr>uart_tx_buf := x0\<rparr>) = (set_lname k nm s)\<lparr>uart_tx_buf := x0\<rparr>"
  "uart_tx_buf (lk_on l s) = uart_tx_buf s" "uart_tx_buf (lk_cycle s) = uart_tx_buf s" "uart_tx_buf (set_lname k nm s) = uart_tx_buf s"
  "acquire l (s\<lparr>uart_tx_w := x1\<rparr>) = bnd (acquire l s) (\<lambda>s. Inr (s\<lparr>uart_tx_w := x1\<rparr>))"
  "release l (s\<lparr>uart_tx_w := x1\<rparr>) = bnd (release l s) (\<lambda>s. Inr (s\<lparr>uart_tx_w := x1\<rparr>))"
  "holding l (s\<lparr>uart_tx_w := x1\<rparr>) = holding l s" "mycpu (s\<lparr>uart_tx_w := x1\<rparr>) = mycpu s" "intr_get (s\<lparr>uart_tx_w := x1\<rparr>) = intr_get s"
  "lk_free l (s\<lparr>uart_tx_w := x1\<rparr>) = lk_free l s" "cpu_ok (s\<lparr>uart_tx_w := x1\<rparr>) = cpu_ok s"
  "lk_on l (s\<lparr>uart_tx_w := x1\<rparr>) = (lk_on l s)\<lparr>uart_tx_w := x1\<rparr>"
  "lk_cycle (s\<lparr>uart_tx_w := x1\<rparr>) = (lk_cycle s)\<lparr>uart_tx_w := x1\<rparr>"
  "set_lname k nm (s\<lparr>uart_tx_w := x1\<rparr>) = (set_lname k nm s)\<lparr>uart_tx_w := x1\<rparr>"
  "uart_tx_w (lk_on l s) = uart_tx_w s" "uart_tx_w (lk_cycle s) = uart_tx_w s" "uart_tx_w (set_lname k nm s) = uart_tx_w s"
  "acquire l (s\<lparr>uart_tx_r := x2\<rparr>) = bnd (acquire l s) (\<lambda>s. Inr (s\<lparr>uart_tx_r := x2\<rparr>))"
  "release l (s\<lparr>uart_tx_r := x2\<rparr>) = bnd (release l s) (\<lambda>s. Inr (s\<lparr>uart_tx_r := x2\<rparr>))"
  "holding l (s\<lparr>uart_tx_r := x2\<rparr>) = holding l s" "mycpu (s\<lparr>uart_tx_r := x2\<rparr>) = mycpu s" "intr_get (s\<lparr>uart_tx_r := x2\<rparr>) = intr_get s"
  "lk_free l (s\<lparr>uart_tx_r := x2\<rparr>) = lk_free l s" "cpu_ok (s\<lparr>uart_tx_r := x2\<rparr>) = cpu_ok s"
  "lk_on l (s\<lparr>uart_tx_r := x2\<rparr>) = (lk_on l s)\<lparr>uart_tx_r := x2\<rparr>"
  "lk_cycle (s\<lparr>uart_tx_r := x2\<rparr>) = (lk_cycle s)\<lparr>uart_tx_r := x2\<rparr>"
  "set_lname k nm (s\<lparr>uart_tx_r := x2\<rparr>) = (set_lname k nm s)\<lparr>uart_tx_r := x2\<rparr>"
  "uart_tx_r (lk_on l s) = uart_tx_r s" "uart_tx_r (lk_cycle s) = uart_tx_r s" "uart_tx_r (set_lname k nm s) = uart_tx_r s"
  "acquire l (s\<lparr>uart_in := x3\<rparr>) = bnd (acquire l s) (\<lambda>s. Inr (s\<lparr>uart_in := x3\<rparr>))"
  "release l (s\<lparr>uart_in := x3\<rparr>) = bnd (release l s) (\<lambda>s. Inr (s\<lparr>uart_in := x3\<rparr>))"
  "holding l (s\<lparr>uart_in := x3\<rparr>) = holding l s" "mycpu (s\<lparr>uart_in := x3\<rparr>) = mycpu s" "intr_get (s\<lparr>uart_in := x3\<rparr>) = intr_get s"
  "lk_free l (s\<lparr>uart_in := x3\<rparr>) = lk_free l s" "cpu_ok (s\<lparr>uart_in := x3\<rparr>) = cpu_ok s"
  "lk_on l (s\<lparr>uart_in := x3\<rparr>) = (lk_on l s)\<lparr>uart_in := x3\<rparr>"
  "lk_cycle (s\<lparr>uart_in := x3\<rparr>) = (lk_cycle s)\<lparr>uart_in := x3\<rparr>"
  "set_lname k nm (s\<lparr>uart_in := x3\<rparr>) = (set_lname k nm s)\<lparr>uart_in := x3\<rparr>"
  "uart_in (lk_on l s) = uart_in s" "uart_in (lk_cycle s) = uart_in s" "uart_in (set_lname k nm s) = uart_in s"
  "acquire l (s\<lparr>uart_out := x4\<rparr>) = bnd (acquire l s) (\<lambda>s. Inr (s\<lparr>uart_out := x4\<rparr>))"
  "release l (s\<lparr>uart_out := x4\<rparr>) = bnd (release l s) (\<lambda>s. Inr (s\<lparr>uart_out := x4\<rparr>))"
  "holding l (s\<lparr>uart_out := x4\<rparr>) = holding l s" "mycpu (s\<lparr>uart_out := x4\<rparr>) = mycpu s" "intr_get (s\<lparr>uart_out := x4\<rparr>) = intr_get s"
  "lk_free l (s\<lparr>uart_out := x4\<rparr>) = lk_free l s" "cpu_ok (s\<lparr>uart_out := x4\<rparr>) = cpu_ok s"
  "lk_on l (s\<lparr>uart_out := x4\<rparr>) = (lk_on l s)\<lparr>uart_out := x4\<rparr>"
  "lk_cycle (s\<lparr>uart_out := x4\<rparr>) = (lk_cycle s)\<lparr>uart_out := x4\<rparr>"
  "set_lname k nm (s\<lparr>uart_out := x4\<rparr>) = (set_lname k nm s)\<lparr>uart_out := x4\<rparr>"
  "uart_out (lk_on l s) = uart_out s" "uart_out (lk_cycle s) = uart_out s" "uart_out (set_lname k nm s) = uart_out s"
  "acquire l (s\<lparr>uart_room := x5\<rparr>) = bnd (acquire l s) (\<lambda>s. Inr (s\<lparr>uart_room := x5\<rparr>))"
  "release l (s\<lparr>uart_room := x5\<rparr>) = bnd (release l s) (\<lambda>s. Inr (s\<lparr>uart_room := x5\<rparr>))"
  "holding l (s\<lparr>uart_room := x5\<rparr>) = holding l s" "mycpu (s\<lparr>uart_room := x5\<rparr>) = mycpu s" "intr_get (s\<lparr>uart_room := x5\<rparr>) = intr_get s"
  "lk_free l (s\<lparr>uart_room := x5\<rparr>) = lk_free l s" "cpu_ok (s\<lparr>uart_room := x5\<rparr>) = cpu_ok s"
  "lk_on l (s\<lparr>uart_room := x5\<rparr>) = (lk_on l s)\<lparr>uart_room := x5\<rparr>"
  "lk_cycle (s\<lparr>uart_room := x5\<rparr>) = (lk_cycle s)\<lparr>uart_room := x5\<rparr>"
  "set_lname k nm (s\<lparr>uart_room := x5\<rparr>) = (set_lname k nm s)\<lparr>uart_room := x5\<rparr>"
  "uart_room (lk_on l s) = uart_room s" "uart_room (lk_cycle s) = uart_room s" "uart_room (set_lname k nm s) = uart_room s"
  "acquire l (s\<lparr>panicked := x6\<rparr>) = bnd (acquire l s) (\<lambda>s. Inr (s\<lparr>panicked := x6\<rparr>))"
  "release l (s\<lparr>panicked := x6\<rparr>) = bnd (release l s) (\<lambda>s. Inr (s\<lparr>panicked := x6\<rparr>))"
  "holding l (s\<lparr>panicked := x6\<rparr>) = holding l s" "mycpu (s\<lparr>panicked := x6\<rparr>) = mycpu s" "intr_get (s\<lparr>panicked := x6\<rparr>) = intr_get s"
  "lk_free l (s\<lparr>panicked := x6\<rparr>) = lk_free l s" "cpu_ok (s\<lparr>panicked := x6\<rparr>) = cpu_ok s"
  "lk_on l (s\<lparr>panicked := x6\<rparr>) = (lk_on l s)\<lparr>panicked := x6\<rparr>"
  "lk_cycle (s\<lparr>panicked := x6\<rparr>) = (lk_cycle s)\<lparr>panicked := x6\<rparr>"
  "set_lname k nm (s\<lparr>panicked := x6\<rparr>) = (set_lname k nm s)\<lparr>panicked := x6\<rparr>"
  "panicked (lk_on l s) = panicked s" "panicked (lk_cycle s) = panicked s" "panicked (set_lname k nm s) = panicked s"
  "acquire l (s\<lparr>pr_locking := x7\<rparr>) = bnd (acquire l s) (\<lambda>s. Inr (s\<lparr>pr_locking := x7\<rparr>))"
  "release l (s\<lparr>pr_locking := x7\<rparr>) = bnd (release l s) (\<lambda>s. Inr (s\<lparr>pr_locking := x7\<rparr>))"
  "holding l (s\<lparr>pr_locking := x7\<rparr>) = holding l s" "mycpu (s\<lparr>pr_locking := x7\<rparr>) = mycpu s" "intr_get (s\<lparr>pr_locking := x7\<rparr>) = intr_get s"
  "lk_free l (s\<lparr>pr_locking := x7\<rparr>) = lk_free l s" "cpu_ok (s\<lparr>pr_locking := x7\<rparr>) = cpu_ok s"
  "lk_on l (s\<lparr>pr_locking := x7\<rparr>) = (lk_on l s)\<lparr>pr_locking := x7\<rparr>"
  "lk_cycle (s\<lparr>pr_locking := x7\<rparr>) = (lk_cycle s)\<lparr>pr_locking := x7\<rparr>"
  "set_lname k nm (s\<lparr>pr_locking := x7\<rparr>) = (set_lname k nm s)\<lparr>pr_locking := x7\<rparr>"
  "pr_locking (lk_on l s) = pr_locking s" "pr_locking (lk_cycle s) = pr_locking s" "pr_locking (set_lname k nm s) = pr_locking s"
  "acquire l (s\<lparr>cons_buf := x8\<rparr>) = bnd (acquire l s) (\<lambda>s. Inr (s\<lparr>cons_buf := x8\<rparr>))"
  "release l (s\<lparr>cons_buf := x8\<rparr>) = bnd (release l s) (\<lambda>s. Inr (s\<lparr>cons_buf := x8\<rparr>))"
  "holding l (s\<lparr>cons_buf := x8\<rparr>) = holding l s" "mycpu (s\<lparr>cons_buf := x8\<rparr>) = mycpu s" "intr_get (s\<lparr>cons_buf := x8\<rparr>) = intr_get s"
  "lk_free l (s\<lparr>cons_buf := x8\<rparr>) = lk_free l s" "cpu_ok (s\<lparr>cons_buf := x8\<rparr>) = cpu_ok s"
  "lk_on l (s\<lparr>cons_buf := x8\<rparr>) = (lk_on l s)\<lparr>cons_buf := x8\<rparr>"
  "lk_cycle (s\<lparr>cons_buf := x8\<rparr>) = (lk_cycle s)\<lparr>cons_buf := x8\<rparr>"
  "set_lname k nm (s\<lparr>cons_buf := x8\<rparr>) = (set_lname k nm s)\<lparr>cons_buf := x8\<rparr>"
  "cons_buf (lk_on l s) = cons_buf s" "cons_buf (lk_cycle s) = cons_buf s" "cons_buf (set_lname k nm s) = cons_buf s"
  "acquire l (s\<lparr>cons_r := x9\<rparr>) = bnd (acquire l s) (\<lambda>s. Inr (s\<lparr>cons_r := x9\<rparr>))"
  "release l (s\<lparr>cons_r := x9\<rparr>) = bnd (release l s) (\<lambda>s. Inr (s\<lparr>cons_r := x9\<rparr>))"
  "holding l (s\<lparr>cons_r := x9\<rparr>) = holding l s" "mycpu (s\<lparr>cons_r := x9\<rparr>) = mycpu s" "intr_get (s\<lparr>cons_r := x9\<rparr>) = intr_get s"
  "lk_free l (s\<lparr>cons_r := x9\<rparr>) = lk_free l s" "cpu_ok (s\<lparr>cons_r := x9\<rparr>) = cpu_ok s"
  "lk_on l (s\<lparr>cons_r := x9\<rparr>) = (lk_on l s)\<lparr>cons_r := x9\<rparr>"
  "lk_cycle (s\<lparr>cons_r := x9\<rparr>) = (lk_cycle s)\<lparr>cons_r := x9\<rparr>"
  "set_lname k nm (s\<lparr>cons_r := x9\<rparr>) = (set_lname k nm s)\<lparr>cons_r := x9\<rparr>"
  "cons_r (lk_on l s) = cons_r s" "cons_r (lk_cycle s) = cons_r s" "cons_r (set_lname k nm s) = cons_r s"
  "acquire l (s\<lparr>cons_w := x10\<rparr>) = bnd (acquire l s) (\<lambda>s. Inr (s\<lparr>cons_w := x10\<rparr>))"
  "release l (s\<lparr>cons_w := x10\<rparr>) = bnd (release l s) (\<lambda>s. Inr (s\<lparr>cons_w := x10\<rparr>))"
  "holding l (s\<lparr>cons_w := x10\<rparr>) = holding l s" "mycpu (s\<lparr>cons_w := x10\<rparr>) = mycpu s" "intr_get (s\<lparr>cons_w := x10\<rparr>) = intr_get s"
  "lk_free l (s\<lparr>cons_w := x10\<rparr>) = lk_free l s" "cpu_ok (s\<lparr>cons_w := x10\<rparr>) = cpu_ok s"
  "lk_on l (s\<lparr>cons_w := x10\<rparr>) = (lk_on l s)\<lparr>cons_w := x10\<rparr>"
  "lk_cycle (s\<lparr>cons_w := x10\<rparr>) = (lk_cycle s)\<lparr>cons_w := x10\<rparr>"
  "set_lname k nm (s\<lparr>cons_w := x10\<rparr>) = (set_lname k nm s)\<lparr>cons_w := x10\<rparr>"
  "cons_w (lk_on l s) = cons_w s" "cons_w (lk_cycle s) = cons_w s" "cons_w (set_lname k nm s) = cons_w s"
  "acquire l (s\<lparr>cons_e := x11\<rparr>) = bnd (acquire l s) (\<lambda>s. Inr (s\<lparr>cons_e := x11\<rparr>))"
  "release l (s\<lparr>cons_e := x11\<rparr>) = bnd (release l s) (\<lambda>s. Inr (s\<lparr>cons_e := x11\<rparr>))"
  "holding l (s\<lparr>cons_e := x11\<rparr>) = holding l s" "mycpu (s\<lparr>cons_e := x11\<rparr>) = mycpu s" "intr_get (s\<lparr>cons_e := x11\<rparr>) = intr_get s"
  "lk_free l (s\<lparr>cons_e := x11\<rparr>) = lk_free l s" "cpu_ok (s\<lparr>cons_e := x11\<rparr>) = cpu_ok s"
  "lk_on l (s\<lparr>cons_e := x11\<rparr>) = (lk_on l s)\<lparr>cons_e := x11\<rparr>"
  "lk_cycle (s\<lparr>cons_e := x11\<rparr>) = (lk_cycle s)\<lparr>cons_e := x11\<rparr>"
  "set_lname k nm (s\<lparr>cons_e := x11\<rparr>) = (set_lname k nm s)\<lparr>cons_e := x11\<rparr>"
  "cons_e (lk_on l s) = cons_e s" "cons_e (lk_cycle s) = cons_e s" "cons_e (set_lname k nm s) = cons_e s"
  "uart_cfg (lk_on l s) = uart_cfg s" "uart_cfg (lk_cycle s) = uart_cfg s" "uart_cfg (set_lname k nm s) = uart_cfg s"
  by (simp_all add: lk_free_def cpu_ok_def lk_cycle_def lk_on_def set_lname_def lock_defs Let_def)


interpretation uart_ring: ring 32 "TYPE(64)"
  by unfold_locales (auto simp: dvd_def intro: exI [of _ "576460752303423488"])

text \<open>The bytes accepted for output and not yet given to the device.\<close>

definition tx_pending :: "'a ustate_scheme \<Rightarrow> u8 list" where
  "tx_pending s = ring_list UART_TX_BUF_SIZE (uart_tx_buf s) (uart_tx_r s) (uart_tx_w s)"

lemma section_uart [simp]:
  "section_ok (u\<lparr>uart_tx_r := r\<rparr>) = section_ok u" "section_ok (u\<lparr>uart_tx_w := r\<rparr>) = section_ok u"
  "section_ok (u\<lparr>uart_tx_buf := bu\<rparr>) = section_ok u"
  "section_ok (u\<lparr>uart_out := out\<rparr>) = section_ok u" "section_ok (u\<lparr>uart_room := n\<rparr>) = section_ok u"
  by (simp_all add: section_ok_def procs_free_def lk_comm)

lemma uartstart_loop_ok:
  assumes "section_ok s"
  shows "uartstart_loop n s = (let m = min n (length (tx_pending s)) in
    Inr (s\<lparr>uart_tx_r := uart_tx_r s + of_nat m, proc := (if m = 0 then proc s else wake ChUartTxR (cproc (mycpu s)) (proc s)),
      uart_out := uart_out s @ take m (tx_pending s), uart_room := uart_room s - m\<rparr>))"
  using assms
proof (induction n arbitrary: s)
  case (Suc n)
  show ?case
  proof (cases "uart_tx_w s = uart_tx_r s")
    case True
    then show ?thesis by (simp add: tx_pending_def)
  next
    case False
    let ?c = "uart_tx_buf s (unat (uart_tx_r s) mod 32)"
    let ?P = "wake ChUartTxR (cproc (mycpu s)) (proc s)"
    let ?t = "s\<lparr>uart_tx_r := uart_tx_r s + 1, proc := ?P, uart_out := uart_out s @ [?c], uart_room := uart_room s - 1\<rparr>"
    have pend: "tx_pending s = ?c # tx_pending ?t"
      using False uart_ring.ring_get [of "uart_tx_r s" "uart_tx_w s" "uart_tx_buf s"] by (simp add: tx_pending_def)
    have "uartstart_loop (Suc n) s = uartstart_loop n ?t"
      using False section_wakeup [of "s\<lparr>uart_tx_r := uart_tx_r s + 1\<rparr>" ChUartTxR] Suc.prems
      by (simp add: WriteTHR_def Let_def lk_comm)
    also note Suc.IH [of ?t]
    finally show ?thesis using Suc.prems unfolding pend
      by (simp add: Let_def lk_comm algebra_simps)
  qed
qed simp


lemma tx_count: "unat (uart_tx_w s - uart_tx_r s) = length (tx_pending s)"
  by (simp add: tx_pending_def)

lemma tx_full: "uart_tx_w s = uart_tx_r s + of_nat UART_TX_BUF_SIZE \<longleftrightarrow> length (tx_pending s) = 32"
  using uart_ring.full_iff [of "uart_tx_w s" "uart_tx_r s"] by (simp add: tx_pending_def)

lemma tx_drop:
  assumes "m \<le> length (tx_pending s)"
  shows "tx_pending (s\<lparr>uart_tx_r := uart_tx_r s + of_nat m\<rparr>) = drop m (tx_pending s)"
  using assms
proof (induction m)
  case (Suc m)
  let ?s = "s\<lparr>uart_tx_r := uart_tx_r s + of_nat m\<rparr>"
  have "tx_pending ?s \<noteq> []" using Suc by auto
  then have ne: "uart_tx_r ?s \<noteq> uart_tx_w ?s" by (auto simp: tx_pending_def)
  have "tx_pending ?s = uart_tx_buf s (unat (uart_tx_r ?s) mod 32) # tx_pending (s\<lparr>uart_tx_r := uart_tx_r s + of_nat (Suc m)\<rparr>)"
    using uart_ring.ring_get [OF ne, of "uart_tx_buf s"] by (simp add: tx_pending_def algebra_simps)
  then show ?case using Suc by (metis Suc_leD drop_Suc list.sel(3) tl_drop)
qed simp

lemma tx_put:
  assumes "length (tx_pending s) < 32"
  shows "tx_pending (s\<lparr>uart_tx_buf := (uart_tx_buf s)(unat (uart_tx_w s) mod 32 := c), uart_tx_w := uart_tx_w s + 1\<rparr>) = tx_pending s @ [c]"
proof -
  have "unat (uart_tx_w s - uart_tx_r s) < 32" using assms tx_count [of s] by simp
  from uart_ring.ring_put [OF this, of "uart_tx_buf s" c] show ?thesis by (simp add: tx_pending_def)
qed

lemma uartstart_ok:
  assumes "section_ok s"
  shows "\<exists>s' P. uartstart s = Inr s' \<and> uart_out s' @ tx_pending s' = uart_out s @ tx_pending s
    \<and> (tx_pending s' = [] \<or> uart_room s' = 0) \<and> length (tx_pending s') \<le> length (tx_pending s)
    \<and> (\<exists>r out n. s' = s\<lparr>uart_tx_r := r, proc := P, uart_out := out, uart_room := n\<rparr>)
    \<and> (P = proc s \<or> P = wake ChUartTxR (cproc (mycpu s)) (proc s))"
proof -
  let ?m = "min (uart_room s) (length (tx_pending s))"
  let ?P = "if ?m = 0 then proc s else wake ChUartTxR (cproc (mycpu s)) (proc s)"
  let ?s = "s\<lparr>uart_tx_r := uart_tx_r s + of_nat ?m, proc := ?P, uart_out := uart_out s @ take ?m (tx_pending s), uart_room := uart_room s - ?m\<rparr>"
  have p: "tx_pending ?s = drop ?m (tx_pending s)"
    using tx_drop [of ?m s] by (simp add: tx_pending_def)
  have "uartstart s = Inr ?s" using uartstart_loop_ok [OF assms] by (simp add: uartstart_def Let_def)
  moreover have "tx_pending ?s = [] \<or> uart_room ?s = 0" unfolding p by auto
  moreover have "uart_out ?s @ tx_pending ?s = uart_out s @ tx_pending s" unfolding p by simp
  moreover have "length (tx_pending ?s) \<le> length (tx_pending s)" unfolding p by simp
  moreover have "\<exists>r out n. ?s = s\<lparr>uart_tx_r := r, proc := ?P, uart_out := out, uart_room := n\<rparr>" by blast
  moreover have "?P = proc s \<or> ?P = wake ChUartTxR (cproc (mycpu s)) (proc s)" by simp
  ultimately show ?thesis by blast
qed

text \<open>
  C25: the serial output is a first-in first-out channel that loses nothing. Before a panic, a call of
  \<open>uartputc\<close> adds its byte behind all earlier ones: the bytes given to the device followed by those in the
  buffer are the same sequence as before plus the new byte, and afterwards the buffer is empty or the
  device busy. If the 32 bytes of the buffer are in use, the caller sleeps until \<open>uartstart\<close> makes room.
\<close>

theorem uartputc_fifo:
  assumes "calm p s" and "\<not> panicked s" and "length (tx_pending s) \<le> 32"
  shows "(length (tx_pending s) = 32 \<longrightarrow> uartputc c s = Inl (Asleep ChUartTxR))
    \<and> (length (tx_pending s) < 32 \<longrightarrow> (\<exists>s'. uartputc c s = Inr s'
        \<and> uart_out s' @ tx_pending s' = uart_out s @ tx_pending s @ [c]
        \<and> (tx_pending s' = [] \<or> uart_room s' = 0) \<and> length (tx_pending s') \<le> 32 \<and> calm p s'))"
proof (intro conjI impI)
  note k = calmD [OF assms(1)]
  let ?l = "lk_on UartTxLock s"
  have acq: "acquire UartTxLock s = Inr ?l" using k by (simp add: acquire_free)
  have pk: "panicked ?l = panicked s" "tx_pending ?l = tx_pending s" by (simp_all add: lk_comm tx_pending_def)
  { assume "length (tx_pending s) = 32"
    then have "uart_tx_w ?l = uart_tx_r ?l + of_nat UART_TX_BUF_SIZE" unfolding tx_full using pk(2) by simp
    then show "uartputc c s = Inl (Asleep ChUartTxR)"
      using assms(2) pk(1) by (simp add: uartputc_def acq uartputc_check_def) }
  { assume lt: "length (tx_pending s) < 32"
    let ?t = "?l\<lparr>uart_tx_buf := (uart_tx_buf s)(unat (uart_tx_w s) mod 32 := c), uart_tx_w := uart_tx_w s + 1\<rparr>"
    have nf: "uart_tx_w ?l \<noteq> uart_tx_r ?l + of_nat UART_TX_BUF_SIZE" unfolding tx_full using pk(2) lt by simp
    have pend: "tx_pending ?t = tx_pending s @ [c]"
      using tx_put [OF lt, of c] by (simp add: tx_pending_def lk_comm)
    have "section_ok ?t" using calm_section [OF assms(1)] by simp
    from uartstart_ok [OF this] obtain s' P r out n where s': "uartstart ?t = Inr s'"
      "uart_out s' @ tx_pending s' = uart_out ?t @ tx_pending ?t" "tx_pending s' = [] \<or> uart_room s' = 0"
      "length (tx_pending s') \<le> length (tx_pending ?t)" "s' = ?t\<lparr>uart_tx_r := r, proc := P, uart_out := out, uart_room := n\<rparr>"
      by blast
    let ?u = "(lk_cycle s)\<lparr>uart_tx_buf := (uart_tx_buf s)(unat (uart_tx_w s) mod 32 := c), uart_tx_w := uart_tx_w s + 1,
        uart_tx_r := r, proc := P, uart_out := out, uart_room := n\<rparr>"
    have rel: "release UartTxLock s' = Inr ?u" unfolding s'(5) using k by (simp add: lk_calc lk_comm)
    have same: "tx_pending s' = tx_pending ?u" "uart_out s' = uart_out ?u" "uart_room s' = uart_room ?u"
      by (simp_all add: s'(5) tx_pending_def lk_comm)
    have "uartputc c s = Inr ?u"
      using assms(2) pk(1) nf s'(1) rel by (simp add: uartputc_def acq uartputc_check_def Let_def lk_comm)
    moreover have "calm p ?u" using assms(1) by (simp add: calm_def lk_comm)
    ultimately show "\<exists>s'. uartputc c s = Inr s' \<and> uart_out s' @ tx_pending s' = uart_out s @ tx_pending s @ [c]
        \<and> (tx_pending s' = [] \<or> uart_room s' = 0) \<and> length (tx_pending s') \<le> 32 \<and> calm p s'"
      using s'(2-4) lt unfolding same pend by (intro exI [of _ ?u]) (simp add: lk_comm) }
qed

text \<open>A machine after boot, with an idle serial line that can take one byte.\<close>

definition log0 :: log where
  "log0 = \<lparr>l_start = 2, l_size = 30, l_outstanding = 0, l_committing = False, l_dev = 1, lh_n = 0, lh_block = (\<lambda>_. 0)\<rparr>"

definition superblock0 :: superblock where
  "superblock0 = \<lparr>sb_magic = 0x10203040, sb_size = 2000, sb_nblocks = 1954, sb_ninodes = 200, sb_nlog = 30,
     sb_logstart = 2, sb_inodestart = 32, sb_bmapstart = 45\<rparr>"

definition inode0 :: inode where
  "inode0 = \<lparr>i_dev = 0, i_inum = 0, i_ref = 0, i_valid = False, i_type = 0, i_major = 0, i_minor = 0, i_nlink = 0,
     i_size = 0, i_addrs = (\<lambda>_. 0)\<rparr>"

definition uart_demo :: ustate where
  "uart_demo = bio_zero \<lparr>log = log0, sb = superblock0, inodes = (\<lambda>_. inode0), uart_tx_buf = (\<lambda>_. 0), uart_tx_w = 0, uart_tx_r = 0, uart_in = [],
     uart_out = [], uart_room = 1, uart_cfg = [], panicked = False, pr_locking = True, cons_buf = (\<lambda>_. 0),
     cons_r = 0, cons_w = 0, cons_e = 0\<rparr>"

lemma uart_demo_ok:
  "calm 0 uart_demo" "tx_pending uart_demo = []" "\<not> panicked uart_demo" "uart_out uart_demo = []"
  by (simp_all add: uart_demo_def bio_zero_def calm_def cpu_ok_def lk_free_def lock_defs tx_pending_def)

theorem uartputc_fifo_witness:
  "\<exists>s'. uartputc 65 uart_demo = Inr s' \<and> uart_out s' @ tx_pending s' = [65] \<and> calm 0 s'"
  using uartputc_fifo [OF uart_demo_ok(1,3), of 65] by (auto simp: uart_demo_ok(2,4))

end
