(* ===== verification/Console.thy ===== *)
theory Console
  imports Uart
begin

text \<open>
  The console (kernel/console.c) on top of the serial line, with \<open>procdump\<close> (kernel/proc.c), which the
  console calls on control-P, and the receive interrupt \<open>uartintr\<close> (kernel/uart.c).

  \<open>cons_buf\<close> is a ring of \<open>INPUT_BUF_SIZE\<close> characters; \<open>cons_r\<close>, \<open>cons_w\<close> and \<open>cons_e\<close> are the read, write and
  edit indices, 32-bit counters. Typed characters are edited between \<open>w\<close> and \<open>e\<close> and become readable
  when a line is complete.
\<close>

section \<open>procdump\<close>

fun state_name :: "procstate \<Rightarrow> string" where
  "state_name UNUSED = ''unused''"
| "state_name USED = ''used''"
| "state_name SLEEPING = ''sleep ''"
| "state_name RUNNABLE = ''runble''"
| "state_name RUNNING = ''run   ''"
| "state_name ZOMBIE = ''zombie''"

abbreviation newline :: u8 where "newline \<equiv> 10"

definition chars_of :: "u8 list \<Rightarrow> string" where
  "chars_of bs = map (\<lambda>b. char_of (unat b)) (cstring bs)"

definition procdump :: "'a ustate_scheme \<Rightarrow> fault + 'a ustate_scheme" where
  "procdump s =
     bnd (printf (chars_of [newline]) [] s) (\<lambda>s.
     for_each [0..<NPROC] (\<lambda>p s.
       if p_state (proc s p) = UNUSED then Inr s
       else bnd (printf ''%d %s %s''
                   [PInt (p_pid (proc s p)), PStr (Some (state_name (p_state (proc s p)))),
                    PStr (Some (chars_of (p_name (proc s p))))] s) (\<lambda>s.
            printf (chars_of [newline]) [] s)) s)"

section \<open>Writing\<close>

fun consolewrite_from ::
    "bool \<Rightarrow> u64 \<Rightarrow> nat list \<Rightarrow> 'a ustate_scheme \<Rightarrow> fault + nat \<times> 'a ustate_scheme" where
  "consolewrite_from user_src src [] s = Inr (0, s)"
| "consolewrite_from user_src src (i # is) s =
     bnd (either_copyin user_src (src + of_nat i) 1 s) (\<lambda>((r, bs), s).
     if r = - 1 then Inr (0, s)
     else bnd (uartputc (hd bs) s) (\<lambda>s.
          bnd (consolewrite_from user_src src is s) (\<lambda>(m, s). Inr (Suc m, s))))"

definition consolewrite :: "bool \<Rightarrow> u64 \<Rightarrow> int \<Rightarrow> 'a ustate_scheme \<Rightarrow> fault + int \<times> 'a ustate_scheme" where
  "consolewrite user_src src n s =
     bnd (consolewrite_from user_src src [0..<nat n] s) (\<lambda>(i, s). Inr (int i, s))"

section \<open>Reading\<close>

text \<open>
  The loop of \<open>consoleread\<close>: the first component of the result is the number of characters still
  wanted, where the loop goes on after \<open>Blocks\<close>.
\<close>

abbreviation ctrl_D :: u8 where "ctrl_D \<equiv> 4"

definition cons_at :: "u32 \<Rightarrow> nat" where "cons_at k = unat k mod INPUT_BUF_SIZE"

function consoleread_loop ::
    "bool \<Rightarrow> u64 \<Rightarrow> int \<Rightarrow> u32 \<Rightarrow> 'a ustate_scheme \<Rightarrow> fault + (int \<times> int run) \<times> 'a ustate_scheme" where
  "consoleread_loop user_dst dst n target s =
     (let finish = (\<lambda>n s. bnd (release ConsLock s) (\<lambda>s. Inr ((n, Done (sint (target - word_of_int n))), s)))
      in if n > 0 then
           (if cons_r s = cons_w s
            then bnd (the_proc s) (\<lambda>(p, s). bnd (killed p s) (\<lambda>(k, s).
                 if k \<noteq> 0 then bnd (release ConsLock s) (\<lambda>s. Inr ((n, Done (- 1)), s))
                 else Inr ((n, Blocks ChConsR ConsLock), s)))
            else let c = cons_buf s (cons_at (cons_r s)); s = s\<lparr>cons_r := cons_r s + 1\<rparr>
                 in if c = ctrl_D
                    then finish n (if (word_of_int n :: u32) < target then s\<lparr>cons_r := cons_r s - 1\<rparr> else s)
                    else bnd (either_copyout user_dst dst [c] s) (\<lambda>(r, s).
                         if r = - 1 then finish n s
                         else if c = newline then finish (n - 1) s
                         else consoleread_loop user_dst (dst + 1) (n - 1) target s))
         else finish n s)"
  by pat_completeness auto
termination
  by (relation "measure (\<lambda>(ud, dst, n, target, s). nat n)") auto

declare consoleread_loop.simps [simp del]

definition consoleread_run ::
    "bool \<Rightarrow> u64 \<Rightarrow> int \<Rightarrow> 'a ustate_scheme \<Rightarrow> fault + (int \<times> int run) \<times> 'a ustate_scheme" where
  "consoleread_run user_dst dst n s =
     bnd (acquire ConsLock s) (\<lambda>s. consoleread_loop user_dst dst n (word_of_int n) s)"

definition consoleread :: "bool \<Rightarrow> u64 \<Rightarrow> int \<Rightarrow> 'a ustate_scheme \<Rightarrow> fault + int \<times> 'a ustate_scheme" where
  "consoleread user_dst dst n s =
     bnd (consoleread_run user_dst dst n s) (\<lambda>((n, r), s).
     case r of Done v \<Rightarrow> Inr (v, s) | Blocks ch lk \<Rightarrow> Inl (Asleep ch))"

section \<open>Input\<close>

text \<open>How many characters control-U erases.\<close>

function kill_count :: "(nat \<Rightarrow> u8) \<Rightarrow> u32 \<Rightarrow> u32 \<Rightarrow> nat" where
  "kill_count buf w e =
     (if e \<noteq> w \<and> buf (cons_at (e - 1)) \<noteq> newline then Suc (kill_count buf w (e - 1)) else 0)"
  by pat_completeness auto
termination
proof (relation "measure (\<lambda>(buf, w, e). unat (e - w))")
  fix buf :: "nat \<Rightarrow> u8" and w e :: u32
  assume "e \<noteq> w \<and> buf (cons_at (e - 1)) \<noteq> newline"
  then have "e - w \<noteq> 0" by simp
  then have "unat ((e - w) - 1) = unat (e - w) - 1" "0 < unat (e - w)"
    by (simp_all add: unat_minus_one unat_gt_0)
  then show "((buf, w, e - 1), buf, w, e) \<in> measure (\<lambda>(buf, w, e). unat (e - w))"
    by (simp add: algebra_simps)
qed simp

declare kill_count.simps [simp del]

definition erase_one :: "'a ustate_scheme \<Rightarrow> fault + 'a ustate_scheme" where
  "erase_one s = consputc BACKSPACE (s\<lparr>cons_e := cons_e s - 1\<rparr>)"

definition consoleintr :: "int \<Rightarrow> 'a ustate_scheme \<Rightarrow> fault + 'a ustate_scheme" where
  "consoleintr c s =
     bnd (acquire ConsLock s) (\<lambda>s.
     bnd (if c = 16 then procdump s
          else if c = 21
          then for_each [0..<kill_count (cons_buf s) (cons_w s) (cons_e s)] (\<lambda>_ s. erase_one s) s
          else if c = 8 \<or> c = 0x7f
          then (if cons_e s \<noteq> cons_w s then erase_one s else Inr s)
          else if c \<noteq> 0 \<and> unat (cons_e s - cons_r s) < INPUT_BUF_SIZE
          then let c = (if c = 13 then 10 else c)
               in bnd (consputc c s) (\<lambda>s.
                  let s = s\<lparr>cons_buf := (cons_buf s)(cons_at (cons_e s) := word_of_int c)\<rparr>;
                      s = s\<lparr>cons_e := cons_e s + 1\<rparr>
                  in if c = 10 \<or> c = 4 \<or> unat (cons_e s - cons_r s) = INPUT_BUF_SIZE
                     then wakeup ChConsR (s\<lparr>cons_w := cons_e s\<rparr>)
                     else Inr s)
          else Inr s) (\<lambda>s.
     release ConsLock s))"

text \<open>\<open>uartintr\<close>: the loop reads until the device has no byte left, which is the list of its input.\<close>

fun uartintr_loop :: "u8 list \<Rightarrow> 'a ustate_scheme \<Rightarrow> fault + 'a ustate_scheme" where
  "uartintr_loop [] s = (let (c, s) = uartgetc s in if c = - 1 then Inr s else Inl Diverges)"
| "uartintr_loop (_ # rest) s =
     (let (c, s) = uartgetc s
      in if c = - 1 then Inr s else bnd (consoleintr c s) (\<lambda>s. uartintr_loop rest s))"

definition uartintr :: "'a ustate_scheme \<Rightarrow> fault + 'a ustate_scheme" where
  "uartintr s =
     bnd (uartintr_loop (uart_in s) s) (\<lambda>s.
     bnd (acquire UartTxLock s) (\<lambda>s.
     bnd (uartstart s) (\<lambda>s. release UartTxLock s)))"

end
