(* ===== verification/Pipe.thy ===== *)
theory Pipe
  imports Sleeplock Ring
begin

text \<open>
  Pipes: kernel/pipe.c, without \<open>pipealloc\<close>, which needs the file table.

  A \<open>struct pipe\<close> lies in a page of its own. Its first 24 bytes hold the lock, which the model keeps
  as \<open>PipeLock pi\<close>; the other fields are read and written in memory at the offsets of the struct. The
  loops of \<open>pipewrite\<close> and \<open>piperead\<close> end in \<open>Blocks\<close> where the code sleeps; \<open>pipewrite_loop\<close> then tells
  how many bytes it has written, where it goes on when it wakes up.
\<close>

definition PIPESIZE :: nat where [simp]: "PIPESIZE = 512"

definition pipe_data :: "u64 \<Rightarrow> u32 \<Rightarrow> u64" where
  "pipe_data pi n = pi + 24 + of_nat (unat n mod PIPESIZE)"

definition pipe_nread :: "'a mstate_scheme \<Rightarrow> u64 \<Rightarrow> u32" where "pipe_nread s pi = ld32 (pmem s) (pi + 536)"
definition pipe_nwrite :: "'a mstate_scheme \<Rightarrow> u64 \<Rightarrow> u32" where "pipe_nwrite s pi = ld32 (pmem s) (pi + 540)"
definition pipe_readopen :: "'a mstate_scheme \<Rightarrow> u64 \<Rightarrow> u32" where "pipe_readopen s pi = ld32 (pmem s) (pi + 544)"
definition pipe_writeopen :: "'a mstate_scheme \<Rightarrow> u64 \<Rightarrow> u32" where "pipe_writeopen s pi = ld32 (pmem s) (pi + 548)"

definition set_nread :: "u64 \<Rightarrow> u32 \<Rightarrow> 'a mstate_scheme \<Rightarrow> 'a mstate_scheme" where
  "set_nread pi v s = s\<lparr>pmem := st32 (pmem s) (pi + 536) v\<rparr>"
definition set_nwrite :: "u64 \<Rightarrow> u32 \<Rightarrow> 'a mstate_scheme \<Rightarrow> 'a mstate_scheme" where
  "set_nwrite pi v s = s\<lparr>pmem := st32 (pmem s) (pi + 540) v\<rparr>"
definition set_readopen :: "u64 \<Rightarrow> u32 \<Rightarrow> 'a mstate_scheme \<Rightarrow> 'a mstate_scheme" where
  "set_readopen pi v s = s\<lparr>pmem := st32 (pmem s) (pi + 544) v\<rparr>"
definition set_writeopen :: "u64 \<Rightarrow> u32 \<Rightarrow> 'a mstate_scheme \<Rightarrow> 'a mstate_scheme" where
  "set_writeopen pi v s = s\<lparr>pmem := st32 (pmem s) (pi + 548) v\<rparr>"

definition pipe_init :: "u64 \<Rightarrow> 'a mstate_scheme \<Rightarrow> 'a mstate_scheme" where
  "pipe_init pi s =
     (let s = set_readopen pi 1 s; s = set_writeopen pi 1 s; s = set_nwrite pi 0 s; s = set_nread pi 0 s
      in initlock (PipeLock pi) ''pipe'' s)"

definition pipeclose :: "u64 \<Rightarrow> bool \<Rightarrow> 'a pstate_scheme \<Rightarrow> fault + 'a pstate_scheme" where
  "pipeclose pi writable s =
     bnd (acquire (PipeLock pi) s) (\<lambda>s.
     bnd (if writable then wakeup (ChPipeRead pi) (set_writeopen pi 0 s)
          else wakeup (ChPipeWrite pi) (set_readopen pi 0 s)) (\<lambda>s.
     if pipe_readopen s pi = 0 \<and> pipe_writeopen s pi = 0
     then bnd (release (PipeLock pi) s) (\<lambda>s. kfree pi s)
     else release (PipeLock pi) s))"

definition pipe_put :: "u64 \<Rightarrow> u8 \<Rightarrow> 'a mstate_scheme \<Rightarrow> 'a mstate_scheme" where
  "pipe_put pi ch s =
     (let nwrite = pipe_nwrite s pi; s = set_nwrite pi (nwrite + 1) s
      in s\<lparr>pmem := (pmem s)(pipe_data pi nwrite := ch)\<rparr>)"

function pipewrite_loop ::
    "nat \<Rightarrow> u64 \<Rightarrow> u64 \<Rightarrow> int \<Rightarrow> int \<Rightarrow> 'a pstate_scheme \<Rightarrow> fault + (int \<times> int run) \<times> 'a pstate_scheme" where
  "pipewrite_loop pr pi addr n i s =
     (if i < n then
        bnd (if pipe_readopen s pi = 0 then Inr (True, s)
             else bnd (killed pr s) (\<lambda>(k, s). Inr (k \<noteq> 0, s))) (\<lambda>(stop, s).
        if stop then bnd (release (PipeLock pi) s) (\<lambda>s. Inr ((i, Done (- 1)), s))
        else if pipe_nwrite s pi = pipe_nread s pi + of_nat PIPESIZE
        then bnd (wakeup (ChPipeRead pi) s) (\<lambda>s. Inr ((i, Blocks (ChPipeWrite pi) (PipeLock pi)), s))
        else bnd (copyin (p_pagetable (proc s pr)) (addr + word_of_int i) 1 s) (\<lambda>(r, bs).
             if r = - 1
             then bnd (wakeup (ChPipeRead pi) s) (\<lambda>s.
                  bnd (release (PipeLock pi) s) (\<lambda>s. Inr ((i, Done i), s)))
             else pipewrite_loop pr pi addr n (i + 1) (pipe_put pi (hd bs) s)))
      else bnd (wakeup (ChPipeRead pi) s) (\<lambda>s.
           bnd (release (PipeLock pi) s) (\<lambda>s. Inr ((i, Done i), s))))"
  by pat_completeness auto
termination
  by (relation "measure (\<lambda>(pr, pi, addr, n, i, s). nat (n - i))") auto

declare pipewrite_loop.simps [simp del]

definition pipewrite_run ::
    "u64 \<Rightarrow> u64 \<Rightarrow> int \<Rightarrow> 'a pstate_scheme \<Rightarrow> fault + (int \<times> int run) \<times> 'a pstate_scheme" where
  "pipewrite_run pi addr n s =
     bnd (the_proc s) (\<lambda>(pr, s).
     bnd (acquire (PipeLock pi) s) (\<lambda>s. pipewrite_loop pr pi addr n 0 s))"

definition pipewrite :: "u64 \<Rightarrow> u64 \<Rightarrow> int \<Rightarrow> 'a pstate_scheme \<Rightarrow> fault + int \<times> 'a pstate_scheme" where
  "pipewrite pi addr n s =
     bnd (pipewrite_run pi addr n s) (\<lambda>((i, r), s).
     case r of Done v \<Rightarrow> Inr (v, s) | Blocks ch lk \<Rightarrow> Inl (Asleep ch))"

fun piperead_copy ::
    "nat \<Rightarrow> u64 \<Rightarrow> u64 \<Rightarrow> nat list \<Rightarrow> 'a pstate_scheme \<Rightarrow> fault + nat \<times> 'a pstate_scheme" where
  "piperead_copy pr pi addr [] s = Inr (0, s)"
| "piperead_copy pr pi addr (i # is) s =
     (if pipe_nread s pi = pipe_nwrite s pi then Inr (0, s)
      else let ch = pmem s (pipe_data pi (pipe_nread s pi)); s = set_nread pi (pipe_nread s pi + 1) s
           in bnd (copyout (p_pagetable (proc s pr)) (addr + of_nat i) [ch] s) (\<lambda>(r, s).
              if r = - 1 then Inr (0, s)
              else bnd (piperead_copy pr pi addr is s) (\<lambda>(m, s). Inr (Suc m, s))))"

definition piperead_check ::
    "nat \<Rightarrow> u64 \<Rightarrow> u64 \<Rightarrow> int \<Rightarrow> 'a pstate_scheme \<Rightarrow> fault + int run \<times> 'a pstate_scheme" where
  "piperead_check pr pi addr n s =
     (if pipe_nread s pi = pipe_nwrite s pi \<and> pipe_writeopen s pi \<noteq> 0
      then bnd (killed pr s) (\<lambda>(k, s).
           if k \<noteq> 0 then bnd (release (PipeLock pi) s) (\<lambda>s. Inr (Done (- 1), s))
           else Inr (Blocks (ChPipeRead pi) (PipeLock pi), s))
      else bnd (piperead_copy pr pi addr [0..<nat n] s) (\<lambda>(i, s).
           bnd (wakeup (ChPipeWrite pi) s) (\<lambda>s.
           bnd (release (PipeLock pi) s) (\<lambda>s. Inr (Done (int i), s)))))"

definition piperead :: "u64 \<Rightarrow> u64 \<Rightarrow> int \<Rightarrow> 'a pstate_scheme \<Rightarrow> fault + int \<times> 'a pstate_scheme" where
  "piperead pi addr n s =
     bnd (the_proc s) (\<lambda>(pr, s).
     bnd (acquire (PipeLock pi) s) (\<lambda>s.
     bnd (piperead_check pr pi addr n s) (\<lambda>(r, s).
     case r of Done v \<Rightarrow> Inr (v, s) | Blocks ch lk \<Rightarrow> Inl (Asleep ch))))"

section \<open>The queue in the page\<close>

text \<open>
  The fields of a pipe in memory do not overlap; offsets within the page are natural numbers here. The
  contents of the pipe are the ring of its data array between \<open>nread\<close> and \<open>nwrite\<close>.
\<close>

definition fld :: "u64 \<Rightarrow> nat \<Rightarrow> u64" where "fld a k = a + of_nat k"

lemma fld_inj: "i < 4096 \<Longrightarrow> j < 4096 \<Longrightarrow> fld a i = fld a j \<longleftrightarrow> i = j"
proof
  assume "i < 4096" "j < 4096" "fld a i = fld a j"
  then have "unat (of_nat i :: u64) = unat (of_nat j :: u64)" by (simp add: fld_def)
  then show "i = j" using \<open>i < 4096\<close> \<open>j < 4096\<close> by (simp add: unat_of_nat)
qed simp

lemma in_rng_fld: "n \<le> 4096 \<Longrightarrow> in_rng (fld a i) n x \<longleftrightarrow> (\<exists>j. i \<le> j \<and> j < i + n \<and> x = fld a j)"
proof -
  assume n: "n \<le> 4096"
  have "in_rng (fld a i) n x \<longleftrightarrow> (\<exists>k < n. x = fld a (i + k))"
    using n by (subst in_rng_iff) (auto simp: add.assoc fld_def)
  also have "\<dots> \<longleftrightarrow> (\<exists>j. i \<le> j \<and> j < i + n \<and> x = fld a j)"
  proof
    assume "\<exists>j. i \<le> j \<and> j < i + n \<and> x = fld a j"
    then obtain j where "i \<le> j" "j < i + n" "x = fld a j" by blast
    then show "\<exists>k < n. x = fld a (i + k)" by (intro exI [of _ "j - i"]) auto
  next
    assume "\<exists>k < n. x = fld a (i + k)"
    then obtain k where "k < n" "x = fld a (i + k)" by blast
    then show "\<exists>j. i \<le> j \<and> j < i + n \<and> x = fld a j" by (intro exI [of _ "i + k"]) auto
  qed
  finally show ?thesis .
qed

lemma not_in_rng_fld: "(\<And>j. j < 552 \<Longrightarrow> x \<noteq> fld a j) \<Longrightarrow> i + n \<le> 552 \<Longrightarrow> \<not> in_rng (fld a i) n x"
proof
  assume x: "\<And>j. j < 552 \<Longrightarrow> x \<noteq> fld a j" and n: "i + n \<le> 552" and r: "in_rng (fld a i) n x"
  from r n have "\<exists>j. i \<le> j \<and> j < i + n \<and> x = fld a j" by (simp add: in_rng_fld)
  then obtain j where "j < i + n" "x = fld a j" by blast
  then show False using x [of j] n by simp
qed

lemma st32_fld:
  assumes "i + 4 \<le> 4096" and "j < 4096" and "j < i \<or> i + 4 \<le> j"
  shows "st32 M (fld a i) v (fld a j) = M (fld a j)"
proof (rule st32_outside)
  show "\<not> in_rng (fld a i) 4 (fld a j)"
  proof
    assume "in_rng (fld a i) 4 (fld a j)"
    then obtain k where "i \<le> k" "k < i + 4" "fld a j = fld a k" by (auto simp: in_rng_fld)
    then show False using fld_inj [of j k a] assms by auto
  qed
qed

lemma ld32_fld_cong: "(\<And>j. i \<le> j \<Longrightarrow> j < i + 4 \<Longrightarrow> M (fld a j) = M' (fld a j)) \<Longrightarrow> ld32 M (fld a i) = ld32 M' (fld a i)"
  by (rule ld32_cong) (auto simp: in_rng_fld)

lemma ld32_st32_fld:
  "i + 4 \<le> j \<or> j + 4 \<le> i \<Longrightarrow> i + 4 \<le> 4096 \<Longrightarrow> j + 4 \<le> 4096 \<Longrightarrow> ld32 (st32 M (fld a i) v) (fld a j) = ld32 M (fld a j)"
  by (rule ld32_fld_cong) (auto intro!: st32_fld)

lemma pipe_flds:
  "pipe_nread s pi = ld32 (pmem s) (fld pi 536)" "pipe_nwrite s pi = ld32 (pmem s) (fld pi 540)"
  "pipe_readopen s pi = ld32 (pmem s) (fld pi 544)" "pipe_writeopen s pi = ld32 (pmem s) (fld pi 548)"
  "pipe_data pi n = fld pi (24 + unat n mod 512)"
  "set_nread pi v s = s\<lparr>pmem := st32 (pmem s) (fld pi 536) v\<rparr>"
  "set_nwrite pi v s = s\<lparr>pmem := st32 (pmem s) (fld pi 540) v\<rparr>"
  "set_readopen pi v s = s\<lparr>pmem := st32 (pmem s) (fld pi 544) v\<rparr>"
  "set_writeopen pi v s = s\<lparr>pmem := st32 (pmem s) (fld pi 548) v\<rparr>"
  by (simp_all add: fld_def pipe_nread_def pipe_nwrite_def pipe_readopen_def pipe_writeopen_def pipe_data_def
      set_nread_def set_nwrite_def set_readopen_def set_writeopen_def add.assoc)

definition pq :: "memory \<Rightarrow> u64 \<Rightarrow> u8 list" where
  "pq M pi = ring_list 512 (\<lambda>i. M (fld pi (24 + i))) (ld32 M (fld pi 536)) (ld32 M (fld pi 540))"

definition put_mem :: "u64 \<Rightarrow> u8 \<Rightarrow> memory \<Rightarrow> memory" where
  "put_mem pi ch M = (st32 M (fld pi 540) (ld32 M (fld pi 540) + 1))
     (fld pi (24 + unat (ld32 M (fld pi 540)) mod 512) := ch)"

definition get_mem :: "u64 \<Rightarrow> memory \<Rightarrow> memory" where
  "get_mem pi M = st32 M (fld pi 536) (ld32 M (fld pi 536) + 1)"

interpretation pipe_ring: ring 512 "TYPE(32)"
  by unfold_locales (auto simp: dvd_def intro: exI [of _ "8388608"])

lemma pipe_put_eq: "pipe_put pi ch s = s\<lparr>pmem := put_mem pi ch (pmem s)\<rparr>"
  by (simp add: pipe_put_def put_mem_def pipe_flds Let_def)

lemma put_mem_fields:
  "ld32 (put_mem pi ch M) (fld pi 540) = ld32 M (fld pi 540) + 1"
  "ld32 (put_mem pi ch M) (fld pi 536) = ld32 M (fld pi 536)"
  "ld32 (put_mem pi ch M) (fld pi 544) = ld32 M (fld pi 544)"
  "ld32 (put_mem pi ch M) (fld pi 548) = ld32 M (fld pi 548)"
  "j < 512 \<Longrightarrow> put_mem pi ch M (fld pi (24 + j)) = (if j = unat (ld32 M (fld pi 540)) mod 512 then ch else M (fld pi (24 + j)))"
  "(\<And>j. j < 552 \<Longrightarrow> x \<noteq> fld pi j) \<Longrightarrow> put_mem pi ch M x = M x"
proof -
  let ?nw = "ld32 M (fld pi 540)"
  have m: "unat ?nw mod 512 < 512" by simp
  have upd: "put_mem pi ch M (fld pi j) = st32 M (fld pi 540) (?nw + 1) (fld pi j)" if "536 \<le> j" "j < 4096" for j
    using that m by (auto simp: put_mem_def fld_inj)
  show "ld32 (put_mem pi ch M) (fld pi 540) = ?nw + 1"
    by (subst ld32_fld_cong [where M' = "st32 M (fld pi 540) (?nw + 1)"]) (auto intro: upd)
  have o: "ld32 (put_mem pi ch M) (fld pi i) = ld32 M (fld pi i)" if "536 \<le> i" "i + 4 \<le> 4096" "i + 4 \<le> 540 \<or> 544 \<le> i" for i
    using that by (intro ld32_fld_cong) (auto simp: upd st32_fld)
  show "ld32 (put_mem pi ch M) (fld pi 536) = ld32 M (fld pi 536)" "ld32 (put_mem pi ch M) (fld pi 544) = ld32 M (fld pi 544)"
    "ld32 (put_mem pi ch M) (fld pi 548) = ld32 M (fld pi 548)" by (auto intro!: o)
  show "put_mem pi ch M (fld pi (24 + j)) = (if j = unat ?nw mod 512 then ch else M (fld pi (24 + j)))" if "j < 512"
    using that m by (simp add: put_mem_def fld_inj st32_fld)
  show "put_mem pi ch M x = M x" if x: "\<And>j. j < 552 \<Longrightarrow> x \<noteq> fld pi j"
    using x [of "24 + unat ?nw mod 512"] m not_in_rng_fld [OF x, of 540 4] by (simp add: put_mem_def st32_outside)
qed

lemma get_mem_fields:
  "ld32 (get_mem pi M) (fld pi 536) = ld32 M (fld pi 536) + 1"
  "ld32 (get_mem pi M) (fld pi 540) = ld32 M (fld pi 540)"
  "ld32 (get_mem pi M) (fld pi 544) = ld32 M (fld pi 544)"
  "ld32 (get_mem pi M) (fld pi 548) = ld32 M (fld pi 548)"
  "j < 512 \<Longrightarrow> get_mem pi M (fld pi (24 + j)) = M (fld pi (24 + j))"
  "(\<And>j. j < 552 \<Longrightarrow> x \<noteq> fld pi j) \<Longrightarrow> get_mem pi M x = M x"
proof -
  show "ld32 (get_mem pi M) (fld pi 536) = ld32 M (fld pi 536) + 1" by (simp add: get_mem_def)
  show "ld32 (get_mem pi M) (fld pi 540) = ld32 M (fld pi 540)" "ld32 (get_mem pi M) (fld pi 544) = ld32 M (fld pi 544)"
    "ld32 (get_mem pi M) (fld pi 548) = ld32 M (fld pi 548)"
    unfolding get_mem_def by (auto intro!: ld32_fld_cong st32_fld)
  show "get_mem pi M (fld pi (24 + j)) = M (fld pi (24 + j))" if "j < 512"
    using that by (simp add: get_mem_def st32_fld)
  show "get_mem pi M x = M x" if "\<And>j. j < 552 \<Longrightarrow> x \<noteq> fld pi j"
    using not_in_rng_fld [OF that, of 536 4] by (simp add: get_mem_def st32_outside)
qed

lemma ring_list_cong: "(\<And>i. i < N \<Longrightarrow> f i = g i) \<Longrightarrow> 0 < N \<Longrightarrow> ring_list N f r w = ring_list N g r w"
  by (simp add: ring_list_def)

lemma pq_put: "length (pq M pi) < 512 \<Longrightarrow> pq (put_mem pi ch M) pi = pq M pi @ [ch]"
proof -
  assume "length (pq M pi) < 512"
  then have "unat (ld32 M (fld pi 540) - ld32 M (fld pi 536)) < 512" by (simp add: pq_def)
  note pipe_ring.ring_put [OF this, of "\<lambda>i. M (fld pi (24 + i))" ch]
  moreover have "ring_list 512 (\<lambda>i. put_mem pi ch M (fld pi (24 + i))) r w
      = ring_list 512 ((\<lambda>i. M (fld pi (24 + i)))(unat (ld32 M (fld pi 540)) mod 512 := ch)) r w" for r w :: u32
    by (rule ring_list_cong) (auto simp: put_mem_fields)
  ultimately show ?thesis by (simp add: pq_def put_mem_fields)
qed

lemma pq_get:
  assumes "pq M pi \<noteq> []"
  shows "pq M pi = M (fld pi (24 + unat (ld32 M (fld pi 536)) mod 512)) # pq (get_mem pi M) pi"
proof -
  have ne: "ld32 M (fld pi 536) \<noteq> ld32 M (fld pi 540)" using assms by (auto simp: pq_def ring_list_eq_Nil)
  have "ring_list 512 (\<lambda>i. get_mem pi M (fld pi (24 + i))) r w = ring_list 512 (\<lambda>i. M (fld pi (24 + i))) r w" for r w :: u32
    by (rule ring_list_cong) (auto simp: get_mem_fields)
  then show ?thesis
    using pipe_ring.ring_get [OF ne, of "\<lambda>i. M (fld pi (24 + i))"] by (simp add: pq_def get_mem_fields)
qed

lemma pq_empty: "ld32 M (fld pi 536) = ld32 M (fld pi 540) \<longleftrightarrow> pq M pi = []"
  by (simp add: pq_def ring_list_eq_Nil)

lemma pq_full: "ld32 M (fld pi 540) = ld32 M (fld pi 536) + 512 \<longleftrightarrow> length (pq M pi) = 512"
  using pipe_ring.full_iff [of "ld32 M (fld pi 540)" "ld32 M (fld pi 536)"] by (simp add: pq_def)


section \<open>Writing\<close>

text \<open>
  The bytes at \<open>va\<close> in the memory of a process, outside of the page \<open>pi\<close>: writes to that page change
  neither the mapping nor the bytes.
\<close>

definition user_bytes :: "memory \<Rightarrow> u64 \<Rightarrow> u64 \<Rightarrow> u8 list \<Rightarrow> u64 \<Rightarrow> bool" where
  "user_bytes M pt va bs pi \<longleftrightarrow> page_aligned pi \<and> wf_tbl M 2 pt \<and> pi \<notin> tpages M 2 pt
     \<and> (\<forall>k < length bs. \<exists>a. uva M pt (va + of_nat k) = Some a \<and> M a = bs ! k \<and> \<not> in_page pi a)"

definition outside :: "u64 \<Rightarrow> memory \<Rightarrow> memory \<Rightarrow> bool" where
  "outside pi M M' \<longleftrightarrow> (\<forall>x. \<not> in_page pi x \<longrightarrow> M' x = M x)"

lemma fld_in_page: "j < 4096 \<Longrightarrow> in_page pi (fld pi j)"
  by (simp add: fld_def in_rng_def unat_of_nat)

lemma put_outside: "outside pi M (put_mem pi ch M)"
  unfolding outside_def using fld_in_page by (auto intro!: put_mem_fields(6))

lemma get_outside: "outside pi M (get_mem pi M)"
  unfolding outside_def using fld_in_page by (auto intro!: get_mem_fields(6))

lemma outside_trans: "outside pi M M' \<Longrightarrow> outside pi M' M'' \<Longrightarrow> outside pi M M''"
  by (simp add: outside_def)

lemma outside_agree:
  assumes "outside pi M M'" and "page_aligned pi" and "wf_tbl M 2 pt" and "pi \<notin> tpages M 2 pt"
  shows "agree (tpages M 2 pt) M M'"
  using assms by (intro agree_write [of pi]) (auto simp: outside_def dest: wf_pages)

lemma user_bytes_outside:
  assumes "outside pi M M'" and "user_bytes M pt va bs pi"
  shows "user_bytes M' pt va bs pi"
proof -
  have "agree (tpages M 2 pt) M M'"
    using assms by (intro outside_agree) (auto simp: user_bytes_def)
  then show ?thesis using assms by (auto simp: user_bytes_def tbl_congs uva_cong outside_def)
qed

lemma user_bytes_copyin:
  assumes "user_bytes (pmem s) pt va (b # bs) pi"
  shows "copyin pt va 1 s = Inr (0, [b])" and "user_bytes (pmem s) pt (va + 1) bs pi"
proof -
  obtain a where a: "uva (pmem s) pt va = Some a" "pmem s a = b" "wf_tbl (pmem s) 2 pt"
    using assms by (auto simp: user_bytes_def dest: spec [of _ "0 :: nat"])
  show "copyin pt va 1 s = Inr (0, [b])" using copyin_ok [of s pt 1 va "\<lambda>_. a"] a by simp
  show "user_bytes (pmem s) pt (va + 1) bs pi"
    unfolding user_bytes_def
  proof (intro conjI allI impI)
    fix k assume "k < length bs"
    then show "\<exists>a. uva (pmem s) pt (va + 1 + of_nat k) = Some a \<and> pmem s a = bs ! k \<and> \<not> in_page pi a"
      using assms by (auto simp: user_bytes_def add.assoc dest: spec [of _ "Suc k"])
  qed (use assms in \<open>auto simp: user_bytes_def\<close>)
qed


text \<open>Inside the section of the pipe lock, with the memory \<open>M\<close>.\<close>

abbreviation psec :: "u64 \<Rightarrow> 'a pstate_scheme \<Rightarrow> memory \<Rightarrow> 'a pstate_scheme" where
  "psec pi s M \<equiv> (lk_on (PipeLock pi) s)\<lparr>pmem := M\<rparr>"

lemma psec_id: "psec pi s (pmem s) = lk_on (PipeLock pi) s"
proof -
  have "(lk_on (PipeLock pi) s)\<lparr>pmem := pmem (lk_on (PipeLock pi) s)\<rparr> = lk_on (PipeLock pi) s" by simp
  moreover have "pmem (lk_on (PipeLock pi) s) = pmem s" by (simp add: lk_comm)
  ultimately show ?thesis by (simp only:)
qed

lemma psec_killed:
  assumes "calm pr s"
  shows "killed pr (psec pi s M) = Inr (p_killed (proc s pr), psec pi s M)"
  using calmD [OF assms] by (simp add: killed_def lk_calc lk_comm Let_def)

lemma psec_wakeup:
  assumes "calm pr s"
  shows "wakeup ch (psec pi s M) = Inr ((psec pi s M)\<lparr>proc := wake ch (Some pr) (proc s)\<rparr>)"
proof -
  have "procs_free (psec pi s M)" "cpu_ok (psec pi s M)"
    using calmD [OF assms] by (simp_all add: procs_free_def lk_comm cpu_ok_lk_on)
  then show ?thesis using calmD [OF assms] by (simp add: wakeup_eq lk_calc lk_comm)
qed

lemma psec_release:
  assumes "calm pr s"
  shows "release (PipeLock pi) ((psec pi s M)\<lparr>proc := P\<rparr>) = Inr ((lk_cycle s)\<lparr>pmem := M, proc := P\<rparr>)"
  using calmD [OF assms] by (simp add: lk_calc lk_comm)

abbreviation wake_readers :: "nat \<Rightarrow> u64 \<Rightarrow> (nat \<Rightarrow> proc) \<Rightarrow> nat \<Rightarrow> proc" where
  "wake_readers pr pi \<equiv> wake (ChPipeRead pi) (Some pr)"

lemma pipewrite_loop_eq:
  assumes "calm pr s" and "p_killed (proc s pr) = 0" and "p_pagetable (proc s pr) = pt"
    and "user_bytes M pt (addr + word_of_int i) bs pi" and "ld32 M (fld pi 544) \<noteq> 0" and "length (pq M pi) \<le> 512"
  shows "pipewrite_loop pr pi addr (i + int (length bs)) i (psec pi s M)
    = (let k = min (length bs) (512 - length (pq M pi)); M' = fold (put_mem pi) (take k bs) M
       in if k = length bs
          then Inr ((i + int k, Done (i + int k)), (lk_cycle s)\<lparr>pmem := M', proc := wake_readers pr pi (proc s)\<rparr>)
          else Inr ((i + int k, Blocks (ChPipeWrite pi) (PipeLock pi)), (psec pi s M')\<lparr>proc := wake_readers pr pi (proc s)\<rparr>))"
  using assms(4-6)
proof (induction bs arbitrary: M i)
  case Nil
  then show ?case
    by (simp add: pipewrite_loop.simps [of _ _ _ "i"] psec_wakeup [OF assms(1)] psec_release [OF assms(1)])
next
  case (Cons b bs)
  have pt: "p_pagetable (proc (psec pi s M) pr) = pt" using assms(3) by (simp add: lk_comm)
  have ro: "pipe_readopen (psec pi s M) pi \<noteq> 0" using Cons.prems(2) by (simp add: pipe_flds)
  have full: "pipe_nwrite (psec pi s M) pi = pipe_nread (psec pi s M) pi + of_nat PIPESIZE \<longleftrightarrow> length (pq M pi) = 512"
    using pq_full [of M pi] by (simp add: pipe_flds)
  show ?case
  proof (cases "length (pq M pi) = 512")
    case True
    then show ?thesis using ro full assms(2)
      by (simp add: pipewrite_loop.simps [of _ _ _ _ i] psec_killed [OF assms(1)] psec_wakeup [OF assms(1)])
  next
    case False
    then have lt: "length (pq M pi) < 512" using Cons.prems(3) by simp
    have cp: "copyin pt (addr + word_of_int i) 1 (psec pi s M) = Inr (0, [b])"
      using user_bytes_copyin(1) [of "psec pi s M"] Cons.prems(1) by simp
    have "user_bytes M pt (addr + word_of_int i + 1) bs pi"
      using user_bytes_copyin(2) [of "psec pi s M"] Cons.prems(1) by simp
    then have ub: "user_bytes (put_mem pi b M) pt (addr + word_of_int (i + 1)) bs pi"
      using user_bytes_outside [OF put_outside] by (simp add: add.assoc)
    have put: "pipe_put pi b (psec pi s M) = psec pi s (put_mem pi b M)" by (simp add: pipe_put_eq)
    have "pipewrite_loop pr pi addr (i + int (length (b # bs))) i (psec pi s M)
      = pipewrite_loop pr pi addr (i + 1 + int (length bs)) (i + 1) (psec pi s (put_mem pi b M))"
      using ro full False assms(2) cp pt put
      by (simp add: pipewrite_loop.simps [of _ _ _ _ i] psec_killed [OF assms(1)] add_ac)
    also note Cons.IH [OF ub]
    finally have step: "pipewrite_loop pr pi addr (i + int (length (b # bs))) i (psec pi s M)
      = (let k = min (length bs) (512 - length (pq (put_mem pi b M) pi)); M' = fold (put_mem pi) (take k bs) (put_mem pi b M)
       in if k = length bs
          then Inr ((i + 1 + int k, Done (i + 1 + int k)), (lk_cycle s)\<lparr>pmem := M', proc := wake_readers pr pi (proc s)\<rparr>)
          else Inr ((i + 1 + int k, Blocks (ChPipeWrite pi) (PipeLock pi)), (psec pi s M')\<lparr>proc := wake_readers pr pi (proc s)\<rparr>))"
      using lt Cons.prems(2) pq_put [OF lt, of b] by (simp add: put_mem_fields)
    obtain j where j: "512 - length (pq M pi) = Suc j" using lt by (metis Suc_diff_Suc)
    then have j': "512 - length (pq (put_mem pi b M) pi) = j" using pq_put [OF lt, of b] by simp
    show ?thesis unfolding step j j' by (simp add: Let_def add_ac)
  qed
qed


lemma calm_pmem [simp]: "calm p (s\<lparr>pmem := M\<rparr>) = calm p s"
  by (simp add: calm_def lk_comm)

lemma pq_puts: "length (pq M pi) + length bs \<le> 512 \<Longrightarrow> pq (fold (put_mem pi) bs M) pi = pq M pi @ bs"
  by (induction bs arbitrary: M) (simp_all add: pq_put)

lemma puts_outside: "outside pi M (fold (put_mem pi) bs M)"
proof (induction bs arbitrary: M)
  case (Cons b bs)
  have "outside pi M (fold (put_mem pi) bs (put_mem pi b M))" by (rule outside_trans [OF put_outside Cons.IH])
  then show ?case by simp
qed (simp add: outside_def)

text \<open>
  C21: \<open>pipewrite\<close> appends to the queue. For a process that is not killed, a pipe whose read end is open and
  a readable buffer \<open>bs\<close>, the call appends as much of \<open>bs\<close> as there is room for in the 512 bytes, in order,
  changes no memory outside the page of the pipe and wakes the readers. It returns the length of \<open>bs\<close>
  if all of it went in, and otherwise sleeps on the write channel with the number of bytes written.
\<close>

theorem pipewrite_fifo:
  assumes "calm pr s" and "p_killed (proc s pr) = 0"
    and "user_bytes (pmem s) (p_pagetable (proc s pr)) addr bs pi"
    and "pipe_readopen s pi \<noteq> 0" and "length (pq (pmem s) pi) \<le> 512"
  shows "\<exists>s'. let k = min (length bs) (512 - length (pq (pmem s) pi)) in
    pipewrite_run pi addr (int (length bs)) s
      = Inr ((int k, if k = length bs then Done (int k) else Blocks (ChPipeWrite pi) (PipeLock pi)), s')
    \<and> pq (pmem s') pi = pq (pmem s) pi @ take k bs \<and> outside pi (pmem s) (pmem s')
    \<and> proc s' = wake (ChPipeRead pi) (Some pr) (proc s) \<and> (k = length bs \<longrightarrow> calm pr s')"
proof -
  let ?k = "min (length bs) (512 - length (pq (pmem s) pi))"
  have "pipewrite_run pi addr (int (length bs)) s
      = pipewrite_loop pr pi addr (0 + int (length bs)) 0 (psec pi s (pmem s))"
    using calmD [OF assms(1)] by (simp add: pipewrite_run_def psec_id lk_calc)
  also note pipewrite_loop_eq [of pr s "p_pagetable (proc s pr)" "pmem s" addr 0 bs pi]
  finally have eq: "pipewrite_run pi addr (int (length bs)) s = (let M' = fold (put_mem pi) (take ?k bs) (pmem s)
       in if ?k = length bs
          then Inr ((int ?k, Done (int ?k)), (lk_cycle s)\<lparr>pmem := M', proc := wake_readers pr pi (proc s)\<rparr>)
          else Inr ((int ?k, Blocks (ChPipeWrite pi) (PipeLock pi)), (psec pi s M')\<lparr>proc := wake_readers pr pi (proc s)\<rparr>))"
    using assms by (simp add: pipe_flds lk_comm lk_on_cycle Let_def)
  have q: "pq (fold (put_mem pi) (take ?k bs) (pmem s)) pi = pq (pmem s) pi @ take ?k bs"
    using assms(5) by (intro pq_puts) auto
  show ?thesis unfolding eq Let_def using q puts_outside [of pi "pmem s" "take ?k bs"] assms(1)
    by (cases "?k = length bs") auto
qed

section \<open>Reading\<close>

text \<open>The bytes at \<open>va\<close> can be written by a process, at \<open>f\<close>, outside of the page \<open>pi\<close> and of its page table.\<close>

definition user_dest :: "memory \<Rightarrow> u64 \<Rightarrow> u64 \<Rightarrow> nat \<Rightarrow> (nat \<Rightarrow> u64) \<Rightarrow> u64 \<Rightarrow> bool" where
  "user_dest M pt va n f pi \<longleftrightarrow> page_aligned pi \<and> wf_tbl M 2 pt \<and> pi \<notin> tpages M 2 pt
     \<and> (\<forall>k < n. uva M pt (va + of_nat k) = Some (f k) \<and> PGROUNDDOWN (f k) \<notin> tpages M 2 pt \<and> \<not> in_page pi (f k))"

lemma user_dest_agree: "user_dest M pt va n f pi \<Longrightarrow> agree (tpages M 2 pt) M M' \<Longrightarrow> user_dest M' pt va n f pi"
  by (auto simp: user_dest_def tbl_congs uva_cong)

lemma pq_page:
  assumes "\<And>x. in_page pi x \<Longrightarrow> M' x = M x"
  shows "pq M' pi = pq M pi" "ld32 M' (fld pi 544) = ld32 M (fld pi 544)" "ld32 M' (fld pi 548) = ld32 M (fld pi 548)"
proof -
  have f: "M' (fld pi j) = M (fld pi j)" if "j < 4096" for j by (rule assms [OF fld_in_page [OF that]])
  have l: "ld32 M' (fld pi i) = ld32 M (fld pi i)" if "i < 4000" for i by (rule ld32_fld_cong) (use f that in auto)
  show "pq M' pi = pq M pi" unfolding pq_def l [of 536, simplified] l [of 540, simplified]
    by (rule ring_list_cong) (auto intro: f)
  show "ld32 M' (fld pi 544) = ld32 M (fld pi 544)" "ld32 M' (fld pi 548) = ld32 M (fld pi 548)" by (auto intro: l)
qed

lemma user_dest_put:
  assumes "user_dest M pt va n f pi" and "k < n"
  shows "copyout pt (va + of_nat k) [ch] (t\<lparr>pmem := M\<rparr>) = Inr (0, t\<lparr>pmem := M(f k := ch)\<rparr>)"
    and "user_dest (M(f k := ch)) pt va n f pi" and "pq (M(f k := ch)) pi = pq M pi"
proof -
  have k: "uva M pt (va + of_nat k) = Some (f k)" "PGROUNDDOWN (f k) \<notin> tpages M 2 pt" "\<not> in_page pi (f k)" "wf_tbl M 2 pt"
    using assms by (auto simp: user_dest_def)
  show "copyout pt (va + of_nat k) [ch] (t\<lparr>pmem := M\<rparr>) = Inr (0, t\<lparr>pmem := M(f k := ch)\<rparr>)"
    using copyout_ok [of "t\<lparr>pmem := M\<rparr>" pt "[ch]" "va + of_nat k" "\<lambda>_. f k"] k by simp
  have "agree (tpages M 2 pt) M (M(f k := ch))"
    unfolding agree_def
  proof (intro ballI allI impI)
    fix p x assume "p \<in> tpages M 2 pt" "in_page p x"
    then have "x \<noteq> f k" using k(2) wf_pages [OF k(4)] in_page_iff [of p x] by auto
    then show "(M(f k := ch)) x = M x" by simp
  qed
  then show "user_dest (M(f k := ch)) pt va n f pi" by (rule user_dest_agree [OF assms(1)])
  show "pq (M(f k := ch)) pi = pq M pi" using k(3) by (intro pq_page) auto
qed


lemma user_dest_get:
  assumes "user_dest M pt va n f pi"
  shows "user_dest (get_mem pi M) pt va n f pi"
  using assms by (intro user_dest_agree [OF assms] outside_agree [OF get_outside]) (auto simp: user_dest_def)

lemma piperead_copy_ok:
  assumes "user_dest M pt va (i + m) f pi" and "inj_on f {..<i + m}" and "p_pagetable (proc s pr) = pt"
  shows "\<exists>M'. let k = min m (length (pq M pi)) in
    piperead_copy pr pi va [i..<i + m] (psec pi s M) = Inr (k, psec pi s M')
    \<and> pq M' pi = drop k (pq M pi) \<and> (\<forall>j < k. M' (f (i + j)) = pq M pi ! j)
    \<and> (\<forall>x. \<not> in_page pi x \<and> x \<notin> f ` {i..<i + k} \<longrightarrow> M' x = M x)"
  using assms(1,2)
proof (induction m arbitrary: i M)
  case (Suc m)
  have u: "[i..<i + Suc m] = i # [Suc i..<Suc i + m]" by (simp add: upt_conv_Cons)
  show ?case
  proof (cases "pq M pi = []")
    case True
    then have "piperead_copy pr pi va [i..<i + Suc m] (psec pi s M) = Inr (0, psec pi s M)"
      unfolding u by (simp add: pipe_flds pq_empty)
    then show ?thesis using True by (intro exI [of _ M]) simp
  next
    case False
    let ?ch = "M (fld pi (24 + unat (ld32 M (fld pi 536)) mod 512))"
    let ?M = "(get_mem pi M)(f i := ?ch)"
    note q = pq_get [OF False]
    have g: "user_dest (get_mem pi M) pt va (i + Suc m) f pi" by (rule user_dest_get [OF Suc.prems(1)])
    have i: "i < i + Suc m" by simp
    note P = user_dest_put [OF g i, of ?ch]
    have q1: "pq ?M pi = tl (pq M pi)" using P(3) q by (metis list.sel(3))
    have "user_dest ?M pt va (Suc i + m) f pi" using P(2) by simp
    from Suc.IH [OF this] Suc.prems(2) obtain M' where M':
      "piperead_copy pr pi va [Suc i..<Suc i + m] (psec pi s ?M) = Inr (min m (length (tl (pq M pi))), psec pi s M')"
      "pq M' pi = drop (min m (length (tl (pq M pi)))) (tl (pq M pi))"
      "\<forall>j < min m (length (tl (pq M pi))). M' (f (Suc i + j)) = tl (pq M pi) ! j"
      "\<forall>x. \<not> in_page pi x \<and> x \<notin> f ` {Suc i..<Suc i + min m (length (tl (pq M pi)))} \<longrightarrow> M' x = ?M x"
      unfolding q1 Let_def by auto
    let ?k = "min m (length (tl (pq M pi)))"
    have k: "min (Suc m) (length (pq M pi)) = Suc ?k" using False by (cases "pq M pi") auto
    have get: "set_nread pi (pipe_nread (psec pi s M) pi + 1) (psec pi s M) = psec pi s (get_mem pi M)"
      by (simp add: pipe_flds get_mem_def)
    have ne: "pipe_nread (psec pi s M) pi \<noteq> pipe_nwrite (psec pi s M) pi" using False by (simp add: pipe_flds pq_empty)
    have run: "piperead_copy pr pi va [i..<i + Suc m] (psec pi s M) = Inr (Suc ?k, psec pi s M')"
      unfolding u using ne M'(1) P(1) [of "lk_on (PipeLock pi) s"] assms(3)
      by (simp add: get Let_def lk_comm del: upt_Suc) (simp add: pipe_flds del: upt_Suc)
    have fi: "M' (f i) = ?ch"
    proof -
      have "f i \<notin> f ` {Suc i..<Suc i + ?k}"
        using Suc.prems(2) by (auto dest!: inj_onD [of f _ i])
      moreover have "\<not> in_page pi (f i)" using Suc.prems(1) by (simp add: user_dest_def)
      ultimately show ?thesis using M'(4) by simp
    qed
    have nth: "M' (f (i + j)) = pq M pi ! j" if "j < Suc ?k" for j
      using that fi M'(3) q by (cases j) (auto simp: nth_Cons' split: list.splits)
    have "M' x = M x" if "\<not> in_page pi x" "x \<notin> f ` {i..<i + Suc ?k}" for x
    proof -
      have "x \<notin> f ` {Suc i..<Suc i + ?k}" "x \<noteq> f i" using that(2) by auto
      then show ?thesis using M'(4) that(1) get_outside [of pi M] by (auto simp: outside_def)
    qed
    then show ?thesis unfolding k Let_def using run M'(2) nth
      by (intro exI [of _ M']) (auto simp: drop_Suc)
  qed
qed (auto intro: exI [of _ M])


lemma piperead_eq:
  assumes "calm pr s"
  shows "piperead pi addr n s = bnd (piperead_check pr pi addr n (psec pi s (pmem s))) (\<lambda>(r, s).
      case r of Done v \<Rightarrow> Inr (v, s) | Blocks ch lk \<Rightarrow> Inl (Asleep ch))"
  using calmD [OF assms] by (simp add: piperead_def psec_id lk_calc)

text \<open>
  C22: \<open>piperead\<close> takes from the front of the queue. If there are bytes in the pipe, or its write end is
  closed, and the buffer of the caller is writable, the call returns the number of bytes asked for or
  in the pipe, whichever is less; that many bytes from the front of the queue are in the buffer, in
  order, the rest stays in the queue, no other memory outside the page of the pipe changes, and the
  writers are woken. On an empty pipe that may still be written to the call sleeps, or returns -1 if
  the process is killed.
\<close>

theorem piperead_fifo:
  assumes "calm pr s" and "user_dest (pmem s) (p_pagetable (proc s pr)) addr n f pi" and "inj_on f {..<n}"
  shows "(pq (pmem s) pi \<noteq> [] \<or> pipe_writeopen s pi = 0 \<longrightarrow>
      (\<exists>s'. let k = min n (length (pq (pmem s) pi)) in
         piperead pi addr (int n) s = Inr (int k, s') \<and> calm pr s'
         \<and> map (pmem s') (map f [0..<k]) = take k (pq (pmem s) pi) \<and> pq (pmem s') pi = drop k (pq (pmem s) pi)
         \<and> (\<forall>x. \<not> in_page pi x \<and> x \<notin> f ` {0..<k} \<longrightarrow> pmem s' x = pmem s x)
         \<and> proc s' = wake (ChPipeWrite pi) (Some pr) (proc s)))
    \<and> (pq (pmem s) pi = [] \<and> pipe_writeopen s pi \<noteq> 0 \<longrightarrow>
      (if p_killed (proc s pr) \<noteq> 0 then piperead pi addr (int n) s = Inr (- 1, lk_cycle s)
       else piperead pi addr (int n) s = Inl (Asleep (ChPipeRead pi))))"
proof -
  note run = piperead_eq [OF assms(1), of pi addr "int n"]
  have flds: "pipe_nread (psec pi s (pmem s)) pi = pipe_nwrite (psec pi s (pmem s)) pi \<longleftrightarrow> pq (pmem s) pi = []"
    "pipe_writeopen (psec pi s (pmem s)) pi = pipe_writeopen s pi"
    by (simp_all add: pipe_flds pq_empty)
  show ?thesis
  proof (intro conjI impI)
    assume ne: "pq (pmem s) pi \<noteq> [] \<or> pipe_writeopen s pi = 0"
    obtain M' where M': "piperead_copy pr pi addr [0..<n] (psec pi s (pmem s)) = Inr (min n (length (pq (pmem s) pi)), psec pi s M')"
      "pq M' pi = drop (min n (length (pq (pmem s) pi))) (pq (pmem s) pi)"
      "\<forall>j < min n (length (pq (pmem s) pi)). M' (f j) = pq (pmem s) pi ! j"
      "\<forall>x. \<not> in_page pi x \<and> x \<notin> f ` {0..<min n (length (pq (pmem s) pi))} \<longrightarrow> M' x = pmem s x"
      using piperead_copy_ok [of "pmem s" "p_pagetable (proc s pr)" addr 0 n f pi s pr] assms(2,3) by (auto simp: Let_def)
    let ?k = "min n (length (pq (pmem s) pi))"
    let ?s = "(lk_cycle s)\<lparr>pmem := M', proc := wake (ChPipeWrite pi) (Some pr) (proc s)\<rparr>"
    have "piperead pi addr (int n) s = Inr (int ?k, ?s)"
      using ne M'(1) flds by (auto simp: run piperead_check_def psec_wakeup [OF assms(1)] psec_release [OF assms(1)])
    moreover have "map M' (map f [0..<?k]) = take ?k (pq (pmem s) pi)"
      by (rule nth_equalityI) (use M'(3) in auto)
    ultimately show "\<exists>s'. let k = ?k in
         piperead pi addr (int n) s = Inr (int k, s') \<and> calm pr s'
         \<and> map (pmem s') (map f [0..<k]) = take k (pq (pmem s) pi) \<and> pq (pmem s') pi = drop k (pq (pmem s) pi)
         \<and> (\<forall>x. \<not> in_page pi x \<and> x \<notin> f ` {0..<k} \<longrightarrow> pmem s' x = pmem s x)
         \<and> proc s' = wake (ChPipeWrite pi) (Some pr) (proc s)"
      using M'(2,4) assms(1) by (intro exI [of _ ?s]) (simp add: Let_def)
  next
    assume e: "pq (pmem s) pi = [] \<and> pipe_writeopen s pi \<noteq> 0"
    have rel: "release (PipeLock pi) (psec pi s (pmem s)) = Inr (lk_cycle s)"
      using calmD [OF assms(1)] by (simp add: psec_id lk_calc)
    show "if p_killed (proc s pr) \<noteq> 0 then piperead pi addr (int n) s = Inr (- 1, lk_cycle s)
       else piperead pi addr (int n) s = Inl (Asleep (ChPipeRead pi))"
      using e flds rel by (simp add: run piperead_check_def psec_killed [OF assms(1)])
  qed
qed


text \<open>A process with one user page, at 0x3000, and an empty pipe, open on both ends, in the page 0x80050000.\<close>

definition pipe_demo :: "memory \<Rightarrow> pstate" where
  "pipe_demo M = \<lparr>hart = 0, sie = (\<lambda>_. True), cpus = (\<lambda>_. \<lparr>cproc = Some 0, noff = 0, intena = False\<rparr>),
     locks = (\<lambda>_. \<lparr>locked = False, lname = [], lcpu = None\<rparr>),
     pmem = st32 (st32 (st32 (st32 M (fld 0x80050000 536) 0) (fld 0x80050000 540) 0) (fld 0x80050000 544) 1) (fld 0x80050000 548) 1,
     freelist = 0, kend = 0x80040000, kernel_pagetable = 0, trampoline = 0, etext = 0,
     proc = (\<lambda>_. proc0\<lparr>p_pagetable := 0x87FFC000\<rparr>),
     shmem = (\<lambda>n. \<lparr>sh_PHADDR = 0, sh_numberofusers = 0, sh_state = - 1, sh_using_top_pid = - 1\<rparr>),
     initproc = None, nextpid = 1, forkret_pc = 0, initcode = 0\<rparr>"

lemma pipe_demo_exists:
  obtains M bs where "calm 0 (pipe_demo M)" "length bs = 2" "p_killed (proc (pipe_demo M) 0) = 0"
    "user_bytes (pmem (pipe_demo M)) 0x87FFC000 0x3000 bs 0x80050000"
    "user_dest (pmem (pipe_demo M)) 0x87FFC000 0x3000 2 (\<lambda>k. 0x80042000 + of_nat k) 0x80050000"
    "pipe_readopen (pipe_demo M) 0x80050000 = 1" "pipe_writeopen (pipe_demo M) 0x80050000 = 1"
    "pq (pmem (pipe_demo M)) 0x80050000 = []"
proof -
  let ?pt = "0x87FFC000 :: u64" and ?pi = "0x80050000 :: u64"
  obtain s :: mstate where s: "wf_tbl (pmem s) 2 0x87FFC000"
      "\<And>i. i < 4096 \<Longrightarrow> uva (pmem s) 0x87FFC000 (0x3000 + of_nat i) = Some (0x80042000 + of_nat i)"
      "\<And>i. i < 4096 \<Longrightarrow> PGROUNDDOWN (0x80042000 + of_nat i) \<notin> tpages (pmem s) 2 0x87FFC000"
      "tpages (pmem s) 2 0x87FFC000 \<subseteq> {0x87FFC000, 0x87FFF000, 0x87FFE000, 0x87FFD000}"
    by (rule one_user_page_tbl) blast
  let ?M = "pmem s" and ?N = "pmem (pipe_demo (pmem s))"
  have al: "page_aligned ?pi" "page_aligned 0x80042000" by (simp_all add: page_aligned_unat)
  have out: "outside ?pi ?M ?N"
  proof -
    have "outside ?pi N (st32 N (fld ?pi i) v)" if "i < 4000" for N i v
      using that fld_in_page [of _ ?pi] by (auto simp: outside_def in_rng_fld intro!: st32_outside)
    then show ?thesis unfolding pipe_demo_def by (simp add: outside_def)
  qed
  have ag: "agree (tpages ?M 2 ?pt) ?M ?N" using out al s by (intro outside_agree) auto
  have pg: "PGROUNDDOWN (0x80042000 + of_nat k) = (0x80042000 :: u64)" if "k < 4096" for k
  proof -
    have "in_page 0x80042000 (0x80042000 + of_nat k)" using that by (simp add: in_rng_def unat_of_nat)
    then show ?thesis using in_page_iff [OF al(2)] by blast
  qed
  have np: "\<not> in_page ?pi (0x80042000 + of_nat k)" if "k < 4096" for k
    using in_page_iff [OF al(1)] pg [OF that] by simp
  show thesis
  proof (rule that [of ?M "[?N 0x80042000, ?N 0x80042001]"])
    show "calm 0 (pipe_demo ?M)" by (simp add: calm_def pipe_demo_def cpu_ok_def lk_free_def lock_defs)
    show "user_bytes ?N ?pt 0x3000 [?N 0x80042000, ?N 0x80042001] ?pi"
      using s(1,4) al(1) s(2) [of 0] s(2) [of 1] np [of 0] np [of 1]
      by (auto simp: user_bytes_def tbl_congs [OF ag] uva_cong [OF ag] less_Suc_eq)
    show "user_dest ?N ?pt 0x3000 2 (\<lambda>k. 0x80042000 + of_nat k) ?pi"
      using s(1,4) al(1) s(2,3) np by (auto simp: user_dest_def tbl_congs [OF ag] uva_cong [OF ag])
    have f: "ld32 ?N (fld ?pi 536) = 0" "ld32 ?N (fld ?pi 540) = 0" "ld32 ?N (fld ?pi 544) = 1" "ld32 ?N (fld ?pi 548) = 1"
      by (simp_all add: pipe_demo_def ld32_st32_fld)
    show "pq ?N ?pi = []" using f by (simp add: pq_empty [symmetric])
    show "pipe_readopen (pipe_demo ?M) ?pi = 1" "pipe_writeopen (pipe_demo ?M) ?pi = 1" using f by (simp_all add: pipe_flds)
  qed (simp_all add: pipe_demo_def proc0_def)
qed

theorem pipewrite_fifo_witness:
  "\<exists>M bs s'. length bs = 2 \<and> pipewrite_run 0x80050000 0x3000 2 (pipe_demo M) = Inr ((2, Done 2), s')
     \<and> pq (pmem s') 0x80050000 = bs"
proof -
  obtain M bs where d: "calm 0 (pipe_demo M)" "length bs = 2" "p_killed (proc (pipe_demo M) 0) = 0"
    "user_bytes (pmem (pipe_demo M)) 0x87FFC000 0x3000 bs 0x80050000" "pipe_readopen (pipe_demo M) 0x80050000 = 1"
    "pq (pmem (pipe_demo M)) 0x80050000 = []"
    by (rule pipe_demo_exists) blast
  have pt: "p_pagetable (proc (pipe_demo M) 0) = 0x87FFC000" by (simp add: pipe_demo_def)
  show ?thesis
    using pipewrite_fifo [of 0 "pipe_demo M" "0x3000" bs "0x80050000"] d pt by (auto simp: Let_def)
qed


theorem piperead_fifo_witness:
  "\<exists>M. piperead 0x80050000 0x3000 2 (pipe_demo M) = Inl (Asleep (ChPipeRead 0x80050000))"
proof -
  obtain M bs where d: "calm 0 (pipe_demo M)" "length (bs :: u8 list) = 2" "p_killed (proc (pipe_demo M) 0) = 0"
    "user_dest (pmem (pipe_demo M)) 0x87FFC000 0x3000 2 (\<lambda>k. 0x80042000 + of_nat k) 0x80050000"
    "pipe_writeopen (pipe_demo M) 0x80050000 = 1" "pq (pmem (pipe_demo M)) 0x80050000 = []"
    by (rule pipe_demo_exists) blast
  have pt: "p_pagetable (proc (pipe_demo M) 0) = 0x87FFC000" by (simp add: pipe_demo_def)
  have inj: "inj_on (\<lambda>k. 0x80042000 + of_nat k :: u64) {..<2}"
    using fld_inj [of _ _ "0x80042000"] by (intro inj_onI) (auto simp: fld_def)
  show ?thesis
    using piperead_fifo [of 0 "pipe_demo M" "0x3000" 2 "\<lambda>k. 0x80042000 + of_nat k" "0x80050000"] d pt inj by auto
qed


section \<open>A failing read\<close>

lemma copyout_unmapped:
  assumes "wf_tbl (pmem s) 2 pt" and "uva (pmem s) pt va = None" and "src \<noteq> []"
  shows "copyout pt va src s = Inr (- 1, s)"
  using assms walkaddr_uva [OF assms(1), of va] by (subst copyout.simps) simp

text \<open>
  C28: a read into a bad address loses a byte. The counter \<open>nread\<close> moves on before the byte is copied out; if
  the copy fails, the call returns 0, the value for the end of the file, and the first byte of the
  queue is gone.
\<close>

theorem piperead_loses_byte:
  assumes "calm pr s" and "pq (pmem s) pi = b # q" and "0 < n" and "page_aligned pi"
    and "wf_tbl (pmem s) 2 (p_pagetable (proc s pr))" and "pi \<notin> tpages (pmem s) 2 (p_pagetable (proc s pr))"
    and "uva (pmem s) (p_pagetable (proc s pr)) addr = None"
  shows "\<exists>s'. piperead pi addr n s = Inr (0, s') \<and> pq (pmem s') pi = q"
proof -
  let ?pt = "p_pagetable (proc s pr)"
  have n: "[0..<nat n] = 0 # [1..<nat n]" using assms(3) by (simp add: upt_conv_Cons)
  have q: "pq (get_mem pi (pmem s)) pi = q" using pq_get [of "pmem s" pi] assms(2) by simp
  have ag: "agree (tpages (pmem s) 2 ?pt) (pmem s) (get_mem pi (pmem s))"
    by (rule outside_agree [OF get_outside assms(4-6)])
  have bad: "copyout ?pt (addr + of_nat 0) [ch] (psec pi s (get_mem pi (pmem s))) = Inr (- 1, psec pi s (get_mem pi (pmem s)))" for ch
    using assms(5,7) by (intro copyout_unmapped) (simp_all add: tbl_congs [OF ag] uva_cong [OF ag])
  have ne: "pipe_nread (psec pi s (pmem s)) pi \<noteq> pipe_nwrite (psec pi s (pmem s)) pi"
    using assms(2) by (simp add: pipe_flds pq_empty)
  have get: "set_nread pi (pipe_nread (psec pi s (pmem s)) pi + 1) (psec pi s (pmem s)) = psec pi s (get_mem pi (pmem s))"
    by (simp add: pipe_flds get_mem_def)
  have "piperead_copy pr pi addr [0..<nat n] (psec pi s (pmem s)) = Inr (0, psec pi s (get_mem pi (pmem s)))"
    unfolding n using ne bad by (simp add: get Let_def lk_comm)
  then have "piperead pi addr n s = Inr (0, (lk_cycle s)\<lparr>pmem := get_mem pi (pmem s), proc := wake (ChPipeWrite pi) (Some pr) (proc s)\<rparr>)"
    using ne by (simp add: piperead_eq [OF assms(1)] piperead_check_def psec_wakeup [OF assms(1)] psec_release [OF assms(1)])
  then show ?thesis using q by simp
qed


theorem piperead_loses_byte_witness:
  "\<exists>M s'. let s = (pipe_demo M)\<lparr>pmem := put_mem 0x80050000 9 (pmem (pipe_demo M))\<rparr> in
     pq (pmem s) 0x80050000 = [9] \<and> piperead 0x80050000 MAXVA 1 s = Inr (0, s') \<and> pq (pmem s') 0x80050000 = []"
proof -
  let ?pi = "0x80050000 :: u64"
  obtain M bs where d: "calm 0 (pipe_demo M)" "length (bs :: u8 list) = 2"
    "user_dest (pmem (pipe_demo M)) 0x87FFC000 0x3000 2 (\<lambda>k. 0x80042000 + of_nat k) ?pi" "pq (pmem (pipe_demo M)) ?pi = []"
    by (rule pipe_demo_exists) blast
  let ?s = "(pipe_demo M)\<lparr>pmem := put_mem ?pi 9 (pmem (pipe_demo M))\<rparr>"
  have pt: "p_pagetable (proc ?s 0) = 0x87FFC000" by (simp add: pipe_demo_def)
  have w: "page_aligned ?pi" "wf_tbl (pmem (pipe_demo M)) 2 0x87FFC000" "?pi \<notin> tpages (pmem (pipe_demo M)) 2 0x87FFC000"
    using d(3) by (auto simp: user_dest_def)
  have ag: "agree (tpages (pmem (pipe_demo M)) 2 0x87FFC000) (pmem (pipe_demo M)) (pmem ?s)"
    using outside_agree [OF put_outside w, of 9] by simp
  have q: "pq (pmem ?s) ?pi = [9]" using pq_put [of "pmem (pipe_demo M)" ?pi 9] d(4) by simp
  have c: "calm 0 ?s" using d(1) by simp
  have z: "(0 :: int) < 1" by simp
  have u: "uva (pmem ?s) (p_pagetable (proc ?s 0)) MAXVA = None" by (simp add: uva_def)
  have w': "wf_tbl (pmem ?s) 2 (p_pagetable (proc ?s 0))" "?pi \<notin> tpages (pmem ?s) 2 (p_pagetable (proc ?s 0))"
    unfolding pt tbl_congs [OF ag] using w by auto
  show ?thesis
    using piperead_loses_byte [OF c q z w(1) w' u] q by (auto simp: Let_def intro!: exI [of _ M])
qed

end
