(* ===== verification/File.thy ===== *)
theory File
  imports Console Pipe
begin

text \<open>
  Open files: kernel/file.c, and \<open>pipealloc\<close> of kernel/pipe.c and \<open>consoleinit\<close> of kernel/console.c,
  which need the file table and the device table.

  A \<open>struct file *\<close> is the index of its entry. The only device is the console: \<open>devsw_read\<close> and
  \<open>devsw_write\<close> tell whether an entry of \<open>devsw\<close> points to \<open>consoleread\<close> and \<open>consolewrite\<close> or is null. The
  four bytes of padding of the \<open>struct stat\<close> that \<open>filestat\<close> copies out are whatever the stack holds,
  \<open>stat_pad\<close>.
\<close>

definition NDEV :: int where [simp]: "NDEV = 10"
definition CONSOLE :: nat where [simp]: "CONSOLE = 1"

datatype ftype = FD_NONE | FD_PIPE | FD_INODE | FD_DEVICE

record file_t =
  f_type :: ftype
  f_ref :: int
  f_readable :: bool
  f_writable :: bool
  f_pipe :: u64
  f_ip :: "nat option"
  f_off :: u32
  f_major :: u16

record fstate = ustate +
  files :: "nat \<Rightarrow> file_t"
  devsw_read :: "nat \<Rightarrow> bool"
  devsw_write :: "nat \<Rightarrow> bool"
  stat_pad :: "u8 list"

definition upd_file :: "nat \<Rightarrow> (file_t \<Rightarrow> file_t) \<Rightarrow> 'a fstate_scheme \<Rightarrow> 'a fstate_scheme" where
  "upd_file f g s = s\<lparr>files := (files s)(f := g (files s f))\<rparr>"

definition the_inode :: "nat option \<Rightarrow> fault + nat" where
  "the_inode ip = (case ip of None \<Rightarrow> Inl (Panic ''kerneltrap'') | Some i \<Rightarrow> Inr i)"

section \<open>The table\<close>

definition fileinit :: "'a fstate_scheme \<Rightarrow> 'a fstate_scheme" where
  "fileinit s = initlock FtableLock ''ftable'' s"

definition filealloc :: "'a fstate_scheme \<Rightarrow> fault + nat option \<times> 'a fstate_scheme" where
  "filealloc s =
     bnd (acquire FtableLock s) (\<lambda>s.
     case find (\<lambda>f. f_ref (files s f) = 0) [0..<NFILE] of
       Some f \<Rightarrow> bnd (release FtableLock (upd_file f (\<lambda>x. x\<lparr>f_ref := 1\<rparr>) s)) (\<lambda>s. Inr (Some f, s))
     | None \<Rightarrow> bnd (release FtableLock s) (\<lambda>s. Inr (None, s)))"

definition filedup :: "nat \<Rightarrow> 'a fstate_scheme \<Rightarrow> fault + nat \<times> 'a fstate_scheme" where
  "filedup f s =
     bnd (acquire FtableLock s) (\<lambda>s.
     if f_ref (files s f) < 1 then Inl (Panic ''filedup'')
     else bnd (release FtableLock (upd_file f (\<lambda>x. x\<lparr>f_ref := s32 (f_ref x + 1)\<rparr>) s)) (\<lambda>s. Inr (f, s)))"

definition fileclose :: "nat \<Rightarrow> 'a fstate_scheme \<Rightarrow> fault + 'a fstate_scheme" where
  "fileclose f s =
     bnd (acquire FtableLock s) (\<lambda>s.
     if f_ref (files s f) < 1 then Inl (Panic ''fileclose'')
     else let s = upd_file f (\<lambda>x. x\<lparr>f_ref := f_ref x - 1\<rparr>) s
          in if f_ref (files s f) > 0 then release FtableLock s
             else let ff = files s f; s = upd_file f (\<lambda>x. x\<lparr>f_ref := 0, f_type := FD_NONE\<rparr>) s
                  in bnd (release FtableLock s) (\<lambda>s.
                     if f_type ff = FD_PIPE then pipeclose (f_pipe ff) (f_writable ff) s
                     else if f_type ff = FD_INODE \<or> f_type ff = FD_DEVICE
                     then bnd (begin_op s) (\<lambda>s.
                          bnd (the_inode (f_ip ff)) (\<lambda>ip.
                          bnd (iput ip s) (\<lambda>s. end_op s)))
                     else Inr s))"

section \<open>Reading and writing\<close>

definition stat_bytes :: "u8 list \<Rightarrow> stat \<Rightarrow> u8 list" where
  "stat_bytes pad st =
     u32_bytes (st_dev st) @ u32_bytes (st_ino st) @ u16_bytes (st_type st) @ u16_bytes (st_nlink st)
       @ take 4 (pad @ replicate 4 0) @ u64_bytes (st_size st)"

definition filestat :: "nat \<Rightarrow> u64 \<Rightarrow> 'a fstate_scheme \<Rightarrow> fault + int \<times> 'a fstate_scheme" where
  "filestat f addr s =
     bnd (the_proc s) (\<lambda>(p, s).
     if f_type (files s f) = FD_INODE \<or> f_type (files s f) = FD_DEVICE
     then bnd (the_inode (f_ip (files s f))) (\<lambda>ip.
          bnd (ilock ip s) (\<lambda>s.
          let st = stati ip s
          in bnd (iunlock ip s) (\<lambda>s.
             bnd (copyout (p_pagetable (proc s p)) addr (stat_bytes (stat_pad s) st) s) (\<lambda>(r, s).
             if r < 0 then Inr (- 1, s) else Inr (0, s)))))
     else Inr (- 1, s))"

definition fileread :: "nat \<Rightarrow> u64 \<Rightarrow> int \<Rightarrow> 'a fstate_scheme \<Rightarrow> fault + int \<times> 'a fstate_scheme" where
  "fileread f addr n s =
     (let ff = files s f
      in if \<not> f_readable ff then Inr (- 1, s)
         else case f_type ff of
           FD_PIPE \<Rightarrow> piperead (f_pipe ff) addr n s
         | FD_DEVICE \<Rightarrow>
             if sint (f_major ff) < 0 \<or> sint (f_major ff) \<ge> NDEV \<or> \<not> devsw_read s (nat (sint (f_major ff)))
             then Inr (- 1, s)
             else consoleread True addr n s
         | FD_INODE \<Rightarrow>
             bnd (the_inode (f_ip ff)) (\<lambda>ip.
             bnd (ilock ip s) (\<lambda>s.
             bnd (readi ip (ToUser addr) (f_off (files s f)) (word_of_int n) s) (\<lambda>((r, _), s).
             let s = (if r > 0 then upd_file f (\<lambda>x. x\<lparr>f_off := f_off x + word_of_int r\<rparr>) s else s)
             in bnd (iunlock ip s) (\<lambda>s. Inr (r, s)))))
         | FD_NONE \<Rightarrow> Inl (Panic ''fileread''))"

text \<open>
  The loop of \<open>filewrite\<close> on an inode. A call of \<open>writei\<close> that returns \<open>n1\<close> has written at least one
  byte, so the loop ends.
\<close>

definition write_max :: int where
  "write_max = ((MAXOPBLOCKS - 1 - 1 - 2) div 2) * int BSIZE"

lemma write_max_eq: "write_max = 3072"
  by (simp add: write_max_def)

function filewrite_loop ::
    "nat \<Rightarrow> nat \<Rightarrow> u64 \<Rightarrow> int \<Rightarrow> int \<Rightarrow> 'a fstate_scheme \<Rightarrow> fault + int \<times> 'a fstate_scheme" where
  "filewrite_loop f ip addr n i s =
     (if i < n then
        let n1 = (if n - i > write_max then write_max else n - i)
        in bnd (begin_op s) (\<lambda>s.
           bnd (ilock ip s) (\<lambda>s.
           bnd (writei ip (FromUser (addr + word_of_int i)) (f_off (files s f)) (word_of_int n1) s) (\<lambda>(r, s).
           let s = (if r > 0 then upd_file f (\<lambda>x. x\<lparr>f_off := f_off x + word_of_int r\<rparr>) s else s)
           in bnd (iunlock ip s) (\<lambda>s.
              bnd (end_op s) (\<lambda>s.
              if r \<noteq> n1 then Inr (i, s) else filewrite_loop f ip addr n (i + r) s)))))
      else Inr (i, s))"
  by pat_completeness auto
termination
  by (relation "measure (\<lambda>(f, ip, addr, n, i, s). nat (n - i))") (auto simp: write_max_eq)

declare filewrite_loop.simps [simp del]

definition filewrite :: "nat \<Rightarrow> u64 \<Rightarrow> int \<Rightarrow> 'a fstate_scheme \<Rightarrow> fault + int \<times> 'a fstate_scheme" where
  "filewrite f addr n s =
     (let ff = files s f
      in if \<not> f_writable ff then Inr (- 1, s)
         else case f_type ff of
           FD_PIPE \<Rightarrow> pipewrite (f_pipe ff) addr n s
         | FD_DEVICE \<Rightarrow>
             if sint (f_major ff) < 0 \<or> sint (f_major ff) \<ge> NDEV \<or> \<not> devsw_write s (nat (sint (f_major ff)))
             then Inr (- 1, s)
             else consolewrite True addr n s
         | FD_INODE \<Rightarrow>
             bnd (the_inode (f_ip ff)) (\<lambda>ip.
             bnd (filewrite_loop f ip addr n 0 s) (\<lambda>(i, s). Inr (if i = n then n else - 1, s)))
         | FD_NONE \<Rightarrow> Inl (Panic ''filewrite''))"

section \<open>Pipes and the console as files\<close>

definition pipe_end :: "nat \<Rightarrow> u64 \<Rightarrow> bool \<Rightarrow> 'a fstate_scheme \<Rightarrow> 'a fstate_scheme" where
  "pipe_end f pi w s =
     upd_file f (\<lambda>x. x\<lparr>f_type := FD_PIPE, f_readable := \<not> w, f_writable := w, f_pipe := pi\<rparr>) s"

definition pipealloc :: "'a fstate_scheme \<Rightarrow> fault + (nat \<times> nat) option \<times> 'a fstate_scheme" where
  "pipealloc s =
     bnd (filealloc s) (\<lambda>(f0, s). case f0 of
       None \<Rightarrow> Inr (None, s)
     | Some f0 \<Rightarrow>
         bnd (filealloc s) (\<lambda>(f1, s). case f1 of
           None \<Rightarrow> bnd (fileclose f0 s) (\<lambda>s. Inr (None, s))
         | Some f1 \<Rightarrow>
             bnd (kalloc s) (\<lambda>(pi, s).
             if pi = 0 then bnd (fileclose f0 s) (\<lambda>s. bnd (fileclose f1 s) (\<lambda>s. Inr (None, s)))
             else let s = pipe_init pi s; s = pipe_end f0 pi False s; s = pipe_end f1 pi True s
                  in Inr (Some (f0, f1), s))))"

definition consoleinit :: "'a fstate_scheme \<Rightarrow> 'a fstate_scheme" where
  "consoleinit s =
     (let s = initlock ConsLock ''cons'' s; s = uartinit s
      in s\<lparr>devsw_read := (devsw_read s)(CONSOLE := True), devsw_write := (devsw_write s)(CONSOLE := True)\<rparr>)"

end
