(* ===== verification/Sysfile.thy ===== *)
theory Sysfile
  imports File
begin

text \<open>
  The file system calls of kernel/sysfile.c, apart from \<open>sys_exec\<close> (in \<open>Exec\<close>).

  A path or name is the list of its bytes without the terminating zero. Each call is one function:
  its early returns and its \<open>goto bad\<close> are the branches of the definition, each with the locks,
  references and log operation it gives back.
\<close>

unbundle bit_operations_syntax

definition MAXPATH :: nat where [simp]: "MAXPATH = 128"

definition O_RDONLY :: u32 where "O_RDONLY = 0"
definition O_WRONLY :: u32 where "O_WRONLY = 1"
definition O_RDWR :: u32 where "O_RDWR = 2"
definition O_CREATE :: u32 where "O_CREATE = 0x200"
definition O_TRUNC :: u32 where "O_TRUNC = 0x400"

abbreviation dot :: "u8 list" where "dot \<equiv> [46]"
abbreviation dotdot :: "u8 list" where "dotdot \<equiv> [46, 46]"

text \<open>Leaving a call: the log operation ends and the call returns \<open>r\<close>.\<close>

abbreviation end_with :: "u64 \<Rightarrow> 'a fstate_scheme \<Rightarrow> fault + u64 \<times> 'a fstate_scheme" where
  "end_with r s \<equiv> bnd (end_op s) (\<lambda>s. Inr (r, s))"

section \<open>File descriptors\<close>

definition argfd :: "int \<Rightarrow> 'a fstate_scheme \<Rightarrow> fault + (nat \<times> nat) option \<times> 'a fstate_scheme" where
  "argfd n s =
     bnd (argint n s) (\<lambda>(fd, s).
     if fd < 0 \<or> fd \<ge> int NOFILE then Inr (None, s)
     else bnd (the_proc s) (\<lambda>(p, s). case p_ofile (proc s p) (nat fd) of
            None \<Rightarrow> Inr (None, s) | Some f \<Rightarrow> Inr (Some (nat fd, f), s)))"

definition set_ofile :: "nat \<Rightarrow> nat \<Rightarrow> nat option \<Rightarrow> 'a pstate_scheme \<Rightarrow> 'a pstate_scheme" where
  "set_ofile p fd f s = upd_proc p (\<lambda>q. q\<lparr>p_ofile := (p_ofile q)(fd := f)\<rparr>) s"

definition fdalloc :: "nat \<Rightarrow> 'a fstate_scheme \<Rightarrow> fault + nat option \<times> 'a fstate_scheme" where
  "fdalloc f s =
     bnd (the_proc s) (\<lambda>(p, s). case find (\<lambda>fd. p_ofile (proc s p) fd = None) [0..<NOFILE] of
       Some fd \<Rightarrow> Inr (Some fd, set_ofile p fd (Some f) s) | None \<Rightarrow> Inr (None, s))"

definition sys_dup :: "'a fstate_scheme \<Rightarrow> fault + u64 \<times> 'a fstate_scheme" where
  "sys_dup s =
     bnd (argfd 0 s) (\<lambda>(r, s). case r of
       None \<Rightarrow> Inr (- 1, s)
     | Some (_, f) \<Rightarrow>
         bnd (fdalloc f s) (\<lambda>(fd, s). case fd of
           None \<Rightarrow> Inr (- 1, s)
         | Some fd \<Rightarrow> bnd (filedup f s) (\<lambda>(_, s). Inr (of_nat fd, s))))"

definition sys_read :: "'a fstate_scheme \<Rightarrow> fault + u64 \<times> 'a fstate_scheme" where
  "sys_read s =
     bnd (argaddr 1 s) (\<lambda>(p, s).
     bnd (argint 2 s) (\<lambda>(n, s).
     bnd (argfd 0 s) (\<lambda>(r, s). case r of
       None \<Rightarrow> Inr (- 1, s)
     | Some (_, f) \<Rightarrow> bnd (fileread f p n s) (\<lambda>(r, s). Inr (u64_of_int r, s)))))"

definition sys_write :: "'a fstate_scheme \<Rightarrow> fault + u64 \<times> 'a fstate_scheme" where
  "sys_write s =
     bnd (argaddr 1 s) (\<lambda>(p, s).
     bnd (argint 2 s) (\<lambda>(n, s).
     bnd (argfd 0 s) (\<lambda>(r, s). case r of
       None \<Rightarrow> Inr (- 1, s)
     | Some (_, f) \<Rightarrow> bnd (filewrite f p n s) (\<lambda>(r, s). Inr (u64_of_int r, s)))))"

definition sys_close :: "'a fstate_scheme \<Rightarrow> fault + u64 \<times> 'a fstate_scheme" where
  "sys_close s =
     bnd (argfd 0 s) (\<lambda>(r, s). case r of
       None \<Rightarrow> Inr (- 1, s)
     | Some (fd, f) \<Rightarrow>
         bnd (the_proc s) (\<lambda>(p, s).
         bnd (fileclose f (set_ofile p fd None s)) (\<lambda>s. Inr (0, s))))"

definition sys_fstat :: "'a fstate_scheme \<Rightarrow> fault + u64 \<times> 'a fstate_scheme" where
  "sys_fstat s =
     bnd (argaddr 1 s) (\<lambda>(st, s).
     bnd (argfd 0 s) (\<lambda>(r, s). case r of
       None \<Rightarrow> Inr (- 1, s)
     | Some (_, f) \<Rightarrow> bnd (filestat f st s) (\<lambda>(r, s). Inr (u64_of_int r, s))))"

definition sys_opendfd :: "'a fstate_scheme \<Rightarrow> fault + u64 \<times> 'a fstate_scheme" where
  "sys_opendfd s =
     bnd (the_proc s) (\<lambda>(p, s).
     Inr (fold (\<lambda>fd ret. if p_ofile (proc s p) fd \<noteq> None then ret OR push_bit fd 1 else ret) [0..<NOFILE] 0, s))"

section \<open>Links\<close>

definition set_nlink :: "nat \<Rightarrow> u16 \<Rightarrow> 'a fsstate_scheme \<Rightarrow> 'a fsstate_scheme" where
  "set_nlink ip v s = upd_inode ip (\<lambda>i. i\<lparr>i_nlink := v\<rparr>) s"

definition link_bad :: "nat \<Rightarrow> 'a fstate_scheme \<Rightarrow> fault + u64 \<times> 'a fstate_scheme" where
  "link_bad ip s =
     bnd (ilock ip s) (\<lambda>s.
     bnd (iupdate ip (set_nlink ip (i_nlink (inodes s ip) - 1) s)) (\<lambda>s.
     bnd (iunlockput ip s) (\<lambda>s. end_with (- 1) s)))"

definition link_to :: "nat \<Rightarrow> u8 list \<Rightarrow> 'a fstate_scheme \<Rightarrow> fault + u64 \<times> 'a fstate_scheme" where
  "link_to ip new s =
     bnd (nameiparent new s) (\<lambda>((dp, name), s). case dp of
       None \<Rightarrow> link_bad ip s
     | Some dp \<Rightarrow>
         bnd (ilock dp s) (\<lambda>s.
         bnd (if i_dev (inodes s dp) \<noteq> i_dev (inodes s ip) then Inr (- 1, s)
              else dirlink dp name (i_inum (inodes s ip)) s) (\<lambda>(r, s).
         if r < 0 then bnd (iunlockput dp s) (\<lambda>s. link_bad ip s)
         else bnd (iunlockput dp s) (\<lambda>s. bnd (iput ip s) (\<lambda>s. end_with 0 s)))))"

definition sys_link :: "'a fstate_scheme \<Rightarrow> fault + u64 \<times> 'a fstate_scheme" where
  "sys_link s =
     bnd (argstr 0 MAXPATH s) (\<lambda>(old, s). case old of None \<Rightarrow> Inr (- 1, s) | Some old \<Rightarrow>
     bnd (argstr 1 MAXPATH s) (\<lambda>(new, s). case new of None \<Rightarrow> Inr (- 1, s) | Some new \<Rightarrow>
     bnd (begin_op s) (\<lambda>s.
     bnd (namei old s) (\<lambda>(ip, s). case ip of
       None \<Rightarrow> end_with (- 1) s
     | Some ip \<Rightarrow>
         bnd (ilock ip s) (\<lambda>s.
         if i_type (inodes s ip) = T_DIR then bnd (iunlockput ip s) (\<lambda>s. end_with (- 1) s)
         else bnd (iupdate ip (set_nlink ip (i_nlink (inodes s ip) + 1) s)) (\<lambda>s.
              bnd (iunlock ip s) (\<lambda>s. link_to ip new s)))))))"

fun isdirempty_from :: "nat list \<Rightarrow> nat \<Rightarrow> 'a fsstate_scheme \<Rightarrow> fault + bool \<times> 'a fsstate_scheme" where
  "isdirempty_from [] dp s = Inr (True, s)"
| "isdirempty_from (off # offs) dp s =
     bnd (readi dp ToLocal (of_nat off) 16 s) (\<lambda>((r, de), s).
     if r \<noteq> 16 then Inl (Panic ''isdirempty: readi'')
     else if rd16 de 0 \<noteq> 0 then Inr (False, s)
     else isdirempty_from offs dp s)"

definition isdirempty :: "nat \<Rightarrow> 'a fsstate_scheme \<Rightarrow> fault + bool \<times> 'a fsstate_scheme" where
  "isdirempty dp s = isdirempty_from (drop 2 (dirent_offs (i_size (inodes s dp)))) dp s"

definition unlink_bad :: "nat \<Rightarrow> 'a fstate_scheme \<Rightarrow> fault + u64 \<times> 'a fstate_scheme" where
  "unlink_bad dp s = bnd (iunlockput dp s) (\<lambda>s. end_with (- 1) s)"

definition unlink_entry :: "nat \<Rightarrow> nat \<Rightarrow> u32 \<Rightarrow> 'a fstate_scheme \<Rightarrow> fault + u64 \<times> 'a fstate_scheme" where
  "unlink_entry dp ip off s =
     bnd (ilock ip s) (\<lambda>s.
     if sint (i_nlink (inodes s ip)) < 1 then Inl (Panic ''unlink: nlink < 1'')
     else bnd (if i_type (inodes s ip) = T_DIR then isdirempty ip s else Inr (True, s)) (\<lambda>(empty, s).
     if \<not> empty then bnd (iunlockput ip s) (\<lambda>s. unlink_bad dp s)
     else bnd (writei dp (FromLocal (replicate 16 0)) off 16 s) (\<lambda>(r, s).
     if r \<noteq> 16 then Inl (Panic ''unlink: writei'')
     else bnd (if i_type (inodes s ip) = T_DIR
               then iupdate dp (set_nlink dp (i_nlink (inodes s dp) - 1) s) else Inr s) (\<lambda>s.
     bnd (iunlockput dp s) (\<lambda>s.
     bnd (iupdate ip (set_nlink ip (i_nlink (inodes s ip) - 1) s)) (\<lambda>s.
     bnd (iunlockput ip s) (\<lambda>s. end_with 0 s)))))))"

definition sys_unlink :: "'a fstate_scheme \<Rightarrow> fault + u64 \<times> 'a fstate_scheme" where
  "sys_unlink s =
     bnd (argstr 0 MAXPATH s) (\<lambda>(path, s). case path of None \<Rightarrow> Inr (- 1, s) | Some path \<Rightarrow>
     bnd (begin_op s) (\<lambda>s.
     bnd (nameiparent path s) (\<lambda>((dp, name), s). case dp of
       None \<Rightarrow> end_with (- 1) s
     | Some dp \<Rightarrow>
         bnd (ilock dp s) (\<lambda>s.
         if namecmp name dot = 0 \<or> namecmp name dotdot = 0 then unlink_bad dp s
         else bnd (dirlookup dp name s) (\<lambda>(found, s). case found of
                None \<Rightarrow> unlink_bad dp s
              | Some (ip, off) \<Rightarrow> unlink_entry dp ip off s)))))"

section \<open>Creating and opening\<close>

definition create_fail :: "nat \<Rightarrow> nat \<Rightarrow> 'a fsstate_scheme \<Rightarrow> fault + nat option \<times> 'a fsstate_scheme" where
  "create_fail dp ip s =
     bnd (iupdate ip (set_nlink ip 0 s)) (\<lambda>s.
     bnd (iunlockput ip s) (\<lambda>s.
     bnd (iunlockput dp s) (\<lambda>s. Inr (None, s))))"

definition create_new ::
    "nat \<Rightarrow> nat \<Rightarrow> u8 list \<Rightarrow> u16 \<Rightarrow> u16 \<Rightarrow> u16 \<Rightarrow> 'a fsstate_scheme \<Rightarrow> fault + nat option \<times> 'a fsstate_scheme" where
  "create_new dp ip name type major minor s =
     bnd (ilock ip s) (\<lambda>s.
     bnd (iupdate ip (upd_inode ip (\<lambda>i. i\<lparr>i_major := major, i_minor := minor, i_nlink := 1\<rparr>) s)) (\<lambda>s.
     bnd (if type = T_DIR
          then bnd (dirlink ip dot (i_inum (inodes s ip)) s) (\<lambda>(r, s).
               if r < 0 then Inr (r, s) else dirlink ip dotdot (i_inum (inodes s dp)) s)
          else Inr (0, s)) (\<lambda>(r, s).
     if r < 0 then create_fail dp ip s
     else bnd (dirlink dp name (i_inum (inodes s ip)) s) (\<lambda>(r, s).
     if r < 0 then create_fail dp ip s
     else bnd (if type = T_DIR then iupdate dp (set_nlink dp (i_nlink (inodes s dp) + 1) s) else Inr s) (\<lambda>s.
     bnd (iunlockput dp s) (\<lambda>s. Inr (Some ip, s)))))))"

definition create ::
    "u8 list \<Rightarrow> u16 \<Rightarrow> u16 \<Rightarrow> u16 \<Rightarrow> 'a fsstate_scheme \<Rightarrow> fault + nat option \<times> 'a fsstate_scheme" where
  "create path type major minor s =
     bnd (nameiparent path s) (\<lambda>((dp, name), s). case dp of
       None \<Rightarrow> Inr (None, s)
     | Some dp \<Rightarrow>
         bnd (ilock dp s) (\<lambda>s.
         bnd (dirlookup dp name s) (\<lambda>(found, s). case found of
           Some (ip, _) \<Rightarrow>
             bnd (iunlockput dp s) (\<lambda>s.
             bnd (ilock ip s) (\<lambda>s.
             if type = T_FILE \<and> (i_type (inodes s ip) = T_FILE \<or> i_type (inodes s ip) = T_DEVICE)
             then Inr (Some ip, s)
             else bnd (iunlockput ip s) (\<lambda>s. Inr (None, s))))
         | None \<Rightarrow>
             bnd (ialloc (i_dev (inodes s dp)) type s) (\<lambda>(ip, s). case ip of
               None \<Rightarrow> bnd (iunlockput dp s) (\<lambda>s. Inr (None, s))
             | Some ip \<Rightarrow> create_new dp ip name type major minor s))))"

text \<open>The first half of \<open>sys_open\<close>: the locked inode, or \<open>None\<close> after \<open>end_op\<close>.\<close>

definition open_inode :: "u8 list \<Rightarrow> u32 \<Rightarrow> 'a fstate_scheme \<Rightarrow> fault + nat option \<times> 'a fstate_scheme" where
  "open_inode path omode s =
     bnd (if omode AND O_CREATE \<noteq> 0
          then bnd (create path T_FILE 0 0 s) (\<lambda>(ip, s). case ip of
                 None \<Rightarrow> bnd (end_op s) (\<lambda>s. Inr (None, s)) | Some ip \<Rightarrow> Inr (Some ip, s))
          else bnd (namei path s) (\<lambda>(ip, s). case ip of
                 None \<Rightarrow> bnd (end_op s) (\<lambda>s. Inr (None, s))
               | Some ip \<Rightarrow>
                   bnd (ilock ip s) (\<lambda>s.
                   if i_type (inodes s ip) = T_DIR \<and> omode \<noteq> O_RDONLY
                   then bnd (iunlockput ip s) (\<lambda>s. bnd (end_op s) (\<lambda>s. Inr (None, s)))
                   else Inr (Some ip, s)))) (\<lambda>(ip, s). case ip of
       None \<Rightarrow> Inr (None, s)
     | Some ip \<Rightarrow>
         if i_type (inodes s ip) = T_DEVICE
            \<and> (sint (i_major (inodes s ip)) < 0 \<or> sint (i_major (inodes s ip)) \<ge> NDEV)
         then bnd (iunlockput ip s) (\<lambda>s. bnd (end_op s) (\<lambda>s. Inr (None, s)))
         else Inr (Some ip, s))"

definition open_file :: "nat \<Rightarrow> nat \<Rightarrow> u32 \<Rightarrow> 'a fstate_scheme \<Rightarrow> 'a fstate_scheme" where
  "open_file f ip omode s =
     (let s = (if i_type (inodes s ip) = T_DEVICE
               then upd_file f (\<lambda>x. x\<lparr>f_type := FD_DEVICE, f_major := i_major (inodes s ip)\<rparr>) s
               else upd_file f (\<lambda>x. x\<lparr>f_type := FD_INODE, f_off := 0\<rparr>) s)
      in upd_file f (\<lambda>x. x\<lparr>f_ip := Some ip, f_readable := (omode AND O_WRONLY = 0),
                           f_writable := (omode AND O_WRONLY \<noteq> 0 \<or> omode AND O_RDWR \<noteq> 0)\<rparr>) s)"

definition sys_open :: "'a fstate_scheme \<Rightarrow> fault + u64 \<times> 'a fstate_scheme" where
  "sys_open s =
     bnd (argint 1 s) (\<lambda>(om, s).
     bnd (argstr 0 MAXPATH s) (\<lambda>(path, s). case path of None \<Rightarrow> Inr (- 1, s) | Some path \<Rightarrow>
     let omode = word_of_int om
     in bnd (begin_op s) (\<lambda>s.
        bnd (open_inode path omode s) (\<lambda>(ip, s). case ip of
          None \<Rightarrow> Inr (- 1, s)
        | Some ip \<Rightarrow>
            bnd (filealloc s) (\<lambda>(f, s). case f of
              None \<Rightarrow> bnd (iunlockput ip s) (\<lambda>s. end_with (- 1) s)
            | Some f \<Rightarrow>
                bnd (fdalloc f s) (\<lambda>(fd, s). case fd of
                  None \<Rightarrow>
                    bnd (fileclose f s) (\<lambda>s.
                    bnd (iunlockput ip s) (\<lambda>s. end_with (- 1) s))
                | Some fd \<Rightarrow>
                    bnd (let s = open_file f ip omode s
                         in if omode AND O_TRUNC \<noteq> 0 \<and> i_type (inodes s ip) = T_FILE
                            then itrunc ip s else Inr s) (\<lambda>s.
                    bnd (iunlock ip s) (\<lambda>s. end_with (of_nat fd) s))))))))"

definition sys_mkdir :: "'a fstate_scheme \<Rightarrow> fault + u64 \<times> 'a fstate_scheme" where
  "sys_mkdir s =
     bnd (begin_op s) (\<lambda>s.
     bnd (argstr 0 MAXPATH s) (\<lambda>(path, s). case path of
       None \<Rightarrow> end_with (- 1) s
     | Some path \<Rightarrow>
         bnd (create path T_DIR 0 0 s) (\<lambda>(ip, s). case ip of
           None \<Rightarrow> end_with (- 1) s
         | Some ip \<Rightarrow> bnd (iunlockput ip s) (\<lambda>s. end_with 0 s))))"

definition sys_mknod :: "'a fstate_scheme \<Rightarrow> fault + u64 \<times> 'a fstate_scheme" where
  "sys_mknod s =
     bnd (begin_op s) (\<lambda>s.
     bnd (argint 1 s) (\<lambda>(major, s).
     bnd (argint 2 s) (\<lambda>(minor, s).
     bnd (argstr 0 MAXPATH s) (\<lambda>(path, s). case path of
       None \<Rightarrow> end_with (- 1) s
     | Some path \<Rightarrow>
         bnd (create path T_DEVICE (word_of_int major) (word_of_int minor) s) (\<lambda>(ip, s). case ip of
           None \<Rightarrow> end_with (- 1) s
         | Some ip \<Rightarrow> bnd (iunlockput ip s) (\<lambda>s. end_with 0 s))))))"

definition sys_chdir :: "'a fstate_scheme \<Rightarrow> fault + u64 \<times> 'a fstate_scheme" where
  "sys_chdir s =
     bnd (the_proc s) (\<lambda>(p, s).
     bnd (begin_op s) (\<lambda>s.
     bnd (argstr 0 MAXPATH s) (\<lambda>(path, s). case path of
       None \<Rightarrow> end_with (- 1) s
     | Some path \<Rightarrow>
         bnd (namei path s) (\<lambda>(ip, s). case ip of
           None \<Rightarrow> end_with (- 1) s
         | Some ip \<Rightarrow>
             bnd (ilock ip s) (\<lambda>s.
             if i_type (inodes s ip) \<noteq> T_DIR then bnd (iunlockput ip s) (\<lambda>s. end_with (- 1) s)
             else bnd (iunlock ip s) (\<lambda>s.
                  bnd (the_inode (p_cwd (proc s p))) (\<lambda>cwd.
                  bnd (iput cwd s) (\<lambda>s.
                  bnd (end_op s) (\<lambda>s.
                  Inr (0, upd_proc p (\<lambda>q. q\<lparr>p_cwd := Some ip\<rparr>) s))))))))))"

section \<open>Pipes\<close>

definition pipe_bad :: "nat \<Rightarrow> nat list \<Rightarrow> nat \<Rightarrow> nat \<Rightarrow> 'a fstate_scheme \<Rightarrow> fault + u64 \<times> 'a fstate_scheme" where
  "pipe_bad p fds rdf wrf s =
     (let s = fold (\<lambda>fd s. set_ofile p fd None s) fds s
      in bnd (fileclose rdf s) (\<lambda>s. bnd (fileclose wrf s) (\<lambda>s. Inr (- 1, s))))"

definition sys_pipe :: "'a fstate_scheme \<Rightarrow> fault + u64 \<times> 'a fstate_scheme" where
  "sys_pipe s =
     bnd (the_proc s) (\<lambda>(p, s).
     bnd (argaddr 0 s) (\<lambda>(fdarray, s).
     bnd (pipealloc s) (\<lambda>(pa, s). case pa of
       None \<Rightarrow> Inr (- 1, s)
     | Some (rdf, wrf) \<Rightarrow>
         bnd (fdalloc rdf s) (\<lambda>(fd0, s). case fd0 of
           None \<Rightarrow> pipe_bad p [] rdf wrf s
         | Some fd0 \<Rightarrow>
             bnd (fdalloc wrf s) (\<lambda>(fd1, s). case fd1 of
               None \<Rightarrow> pipe_bad p [fd0] rdf wrf s
             | Some fd1 \<Rightarrow>
                 bnd (copyout (p_pagetable (proc s p)) fdarray (u32_bytes (of_nat fd0)) s) (\<lambda>(r, s).
                 if r < 0 then pipe_bad p [fd0, fd1] rdf wrf s
                 else bnd (copyout (p_pagetable (proc s p)) (fdarray + 4) (u32_bytes (of_nat fd1)) s) (\<lambda>(r, s).
                      if r < 0 then pipe_bad p [fd0, fd1] rdf wrf s
                      else Inr (0, s))))))))"

end
