(* ===== verification/Exec.thy ===== *)
theory Exec
  imports Sysfile
begin

text \<open>
  Loading a program: kernel/exec.c, kernel/elf.h, and \<open>sys_exec\<close> of kernel/sysfile.c.

  The headers are read into local variables, so they are byte lists here and their fields are read at
  the offsets of the structs. \<open>argv\<close> is the list of the pages that hold the argument strings.
\<close>

unbundle bit_operations_syntax

definition MAXARG :: nat where [simp]: "MAXARG = 32"
definition ELF_MAGIC :: u32 where "ELF_MAGIC = 0x464C457F"
definition ELF_PROG_LOAD :: u32 where "ELF_PROG_LOAD = 1"

definition rd64 :: "u8 list \<Rightarrow> nat \<Rightarrow> u64" where
  "rd64 bs off = u64_of_bytes (slice bs off 8)"

record elfhdr =
  elf_magic :: u32
  elf_entry :: u64
  elf_phoff :: u64
  elf_phnum :: u16

record proghdr =
  ph_type :: u32
  ph_flags :: u32
  ph_off :: u64
  ph_vaddr :: u64
  ph_filesz :: u64
  ph_memsz :: u64

definition elfhdr_of :: "u8 list \<Rightarrow> elfhdr" where
  "elfhdr_of bs = \<lparr>elf_magic = rd32 bs 0, elf_entry = rd64 bs 24, elf_phoff = rd64 bs 32, elf_phnum = rd16 bs 56\<rparr>"

definition proghdr_of :: "u8 list \<Rightarrow> proghdr" where
  "proghdr_of bs = \<lparr>ph_type = rd32 bs 0, ph_flags = rd32 bs 4, ph_off = rd64 bs 8, ph_vaddr = rd64 bs 16,
     ph_filesz = rd64 bs 32, ph_memsz = rd64 bs 40\<rparr>"

section \<open>Segments\<close>

definition flags2perm :: "u32 \<Rightarrow> u64" where
  "flags2perm flags =
     (let perm = (if flags AND 1 \<noteq> 0 then PTE_X else 0)
      in if flags AND 2 \<noteq> 0 then perm OR PTE_W else perm)"

text \<open>
  The loop of \<open>loadseg\<close> over \<open>i = 0, 4096, \<dots>\<close> below \<open>sz\<close>. The index is 32 bits wide: past the last page
  of the address space it is 0 again and the loop starts over.
\<close>

fun loadseg_from ::
    "nat list \<Rightarrow> u64 \<Rightarrow> u64 \<Rightarrow> nat \<Rightarrow> u32 \<Rightarrow> u32 \<Rightarrow> 'a fsstate_scheme \<Rightarrow> fault + int \<times> 'a fsstate_scheme" where
  "loadseg_from [] pagetable va ip offset sz s = (if unat sz > 0xFFFFF000 then Inl Diverges else Inr (0, s))"
| "loadseg_from (i # is) pagetable va ip offset sz s =
     bnd (walkaddr pagetable (va + of_nat i) s) (\<lambda>pa.
     if pa = 0 then Inl (Panic ''loadseg: address should exist'')
     else let n = (if sz - of_nat i < 4096 then sz - of_nat i else 4096)
          in bnd (readi ip (ToKernel pa) (offset + of_nat i) n s) (\<lambda>((r, _), s).
             if word_of_int r \<noteq> n then Inr (- 1, s)
             else loadseg_from is pagetable va ip offset sz s))"

definition loadseg ::
    "u64 \<Rightarrow> u64 \<Rightarrow> nat \<Rightarrow> u32 \<Rightarrow> u32 \<Rightarrow> 'a fsstate_scheme \<Rightarrow> fault + int \<times> 'a fsstate_scheme" where
  "loadseg pagetable va ip offset sz s =
     loadseg_from (map (\<lambda>k. 4096 * k) [0..<(unat sz + 4095) div 4096]) pagetable va ip offset sz s"

text \<open>
  The loop over the program headers, \<open>left\<close> of them: whether it succeeded, and \<open>sz\<close>.
\<close>

fun load_prog ::
    "nat \<Rightarrow> int \<Rightarrow> u64 \<Rightarrow> nat \<Rightarrow> u64 \<Rightarrow> 'a fsstate_scheme \<Rightarrow> fault + (bool \<times> u64) \<times> 'a fsstate_scheme" where
  "load_prog 0 off pagetable ip sz s = Inr ((True, sz), s)"
| "load_prog (Suc left) off pagetable ip sz s =
     bnd (readi ip ToLocal (word_of_int off) 56 s) (\<lambda>((r, bs), s).
     if r \<noteq> 56 then Inr ((False, sz), s)
     else let ph = proghdr_of bs
          in if ph_type ph \<noteq> ELF_PROG_LOAD then load_prog left (s32 (off + 56)) pagetable ip sz s
             else if ph_memsz ph < ph_filesz ph then Inr ((False, sz), s)
             else if ph_vaddr ph + ph_memsz ph < ph_vaddr ph then Inr ((False, sz), s)
             else if ph_vaddr ph mod PGSIZE \<noteq> 0 then Inr ((False, sz), s)
             else bnd (uvmalloc pagetable sz (ph_vaddr ph + ph_memsz ph) (flags2perm (ph_flags ph)) s) (\<lambda>(sz1, s).
                  if sz1 = 0 then Inr ((False, sz), s)
                  else bnd (loadseg pagetable (ph_vaddr ph) ip (ucast (ph_off ph)) (ucast (ph_filesz ph)) s) (\<lambda>(r, s).
                       if r < 0 then Inr ((False, sz1), s)
                       else load_prog left (s32 (off + 56)) pagetable ip sz1 s)))"

section \<open>The stack\<close>

text \<open>
  Pushing the argument strings: the stack pointer and the pointers pushed so far; \<open>None\<close> is \<open>goto bad\<close>.
  A string without a zero byte would make \<open>strlen\<close> run on forever.
\<close>

fun push_args ::
    "u64 list \<Rightarrow> nat \<Rightarrow> u64 \<Rightarrow> u64 \<Rightarrow> u64 \<Rightarrow> u64 list \<Rightarrow> 'a mstate_scheme
       \<Rightarrow> fault + (u64 \<times> u64 list) option \<times> 'a mstate_scheme" where
  "push_args [] argc pagetable stackbase sp ustack s = Inr (Some (sp, ustack), s)"
| "push_args (arg # args) argc pagetable stackbase sp ustack s =
     (if argc \<ge> MAXARG then Inr (None, s)
      else case strlen (pmem s) arg of
        None \<Rightarrow> Inl Diverges
      | Some n \<Rightarrow>
          let sp = sp - u64_of_int (n + 1); sp = sp - sp mod 16
          in if sp < stackbase then Inr (None, s)
             else bnd (copyout pagetable sp (bytes (pmem s) arg (nat (n + 1))) s) (\<lambda>(r, s).
                  if r < 0 then Inr (None, s)
                  else push_args args (Suc argc) pagetable stackbase sp (ustack @ [sp]) s))"

definition push_argv ::
    "u64 list \<Rightarrow> u64 \<Rightarrow> u64 \<Rightarrow> u64 \<Rightarrow> 'a mstate_scheme \<Rightarrow> fault + u64 option \<times> 'a mstate_scheme" where
  "push_argv ustack pagetable stackbase sp s =
     (let sp = sp - of_nat (8 * (length ustack + 1)); sp = sp - sp mod 16
      in if sp < stackbase then Inr (None, s)
         else bnd (copyout pagetable sp (concat (map u64_bytes (ustack @ [0]))) s) (\<lambda>(r, s).
              if r < 0 then Inr (None, s) else Inr (Some sp, s)))"

section \<open>exec\<close>

text \<open>\<open>bad:\<close> while the inode is still locked, and later.\<close>

definition exec_bad_ip :: "u64 \<Rightarrow> u64 \<Rightarrow> nat \<Rightarrow> 'a fstate_scheme \<Rightarrow> fault + int \<times> 'a fstate_scheme" where
  "exec_bad_ip pagetable sz ip s =
     bnd (if pagetable \<noteq> 0 then proc_freepagetable pagetable sz s else Inr s) (\<lambda>s.
     bnd (iunlockput ip s) (\<lambda>s. bnd (end_op s) (\<lambda>s. Inr (- 1, s))))"

definition exec_bad :: "u64 \<Rightarrow> u64 \<Rightarrow> 'a fstate_scheme \<Rightarrow> fault + int \<times> 'a fstate_scheme" where
  "exec_bad pagetable sz s = bnd (proc_freepagetable pagetable sz s) (\<lambda>s. Inr (- 1, s))"

definition last_elem :: "u8 list \<Rightarrow> u8 list" where
  "last_elem path = rev (takeWhile (\<lambda>c. c \<noteq> slash) (rev path))"

definition safestrcpy_list :: "u8 list \<Rightarrow> u8 list \<Rightarrow> nat \<Rightarrow> u8 list" where
  "safestrcpy_list dst src n = (if n = 0 then dst else splice dst 0 (take (n - 1) (cstring src) @ [0]))"

definition set_tf :: "nat \<Rightarrow> u64 \<Rightarrow> u64 \<Rightarrow> 'a pstate_scheme \<Rightarrow> 'a pstate_scheme" where
  "set_tf p off v s = set_mem (st64 (pmem s) (p_trapframe (proc s p) + off) v) s"

definition exec_commit ::
    "nat \<Rightarrow> u8 list \<Rightarrow> u64 \<Rightarrow> u64 \<Rightarrow> u64 \<Rightarrow> u64 \<Rightarrow> u64 \<Rightarrow> nat \<Rightarrow> 'a fstate_scheme \<Rightarrow> fault + int \<times> 'a fstate_scheme" where
  "exec_commit p path pagetable sz oldsz entry sp argc s =
     (let s = set_tf p (TF_a 1) sp s;
          s = upd_proc p (\<lambda>q. q\<lparr>p_name := safestrcpy_list (p_name q) (last_elem path) 16\<rparr>) s;
          oldpagetable = p_pagetable (proc s p);
          s = upd_proc p (\<lambda>q. q\<lparr>p_pagetable := pagetable, p_sz := sz\<rparr>) s;
          s = set_tf p TF_epc entry s;
          s = set_tf p TF_sp sp s
      in bnd (proc_freepagetable oldpagetable oldsz s) (\<lambda>s. Inr (int argc, s)))"

definition exec_stack ::
    "nat \<Rightarrow> u8 list \<Rightarrow> u64 list \<Rightarrow> u64 \<Rightarrow> u64 \<Rightarrow> u64 \<Rightarrow> 'a fstate_scheme \<Rightarrow> fault + int \<times> 'a fstate_scheme" where
  "exec_stack p path argv pagetable sz entry s =
     (let oldsz = p_sz (proc s p); sz = PGROUNDUP sz
      in bnd (uvmalloc pagetable sz (sz + 2 * PGSIZE) PTE_W s) (\<lambda>(sz1, s).
         if sz1 = 0 then exec_bad pagetable sz s
         else let sz = sz1
              in bnd (uvmclear pagetable (sz - 2 * PGSIZE) s) (\<lambda>s.
                 let sp = sz; stackbase = sp - PGSIZE
                 in bnd (push_args argv 0 pagetable stackbase sp [] s) (\<lambda>(r, s). case r of
                      None \<Rightarrow> exec_bad pagetable sz s
                    | Some (sp, ustack) \<Rightarrow>
                        bnd (push_argv ustack pagetable stackbase sp s) (\<lambda>(r, s). case r of
                          None \<Rightarrow> exec_bad pagetable sz s
                        | Some sp \<Rightarrow> exec_commit p path pagetable sz oldsz entry sp (length ustack) s)))))"

definition exec :: "u8 list \<Rightarrow> u64 list \<Rightarrow> 'a fstate_scheme \<Rightarrow> fault + int \<times> 'a fstate_scheme" where
  "exec path argv s =
     bnd (the_proc s) (\<lambda>(p, s).
     let s = upd_proc p (\<lambda>q. q\<lparr>p_top_pid := p_pid q\<rparr>) s
     in bnd (begin_op s) (\<lambda>s.
        bnd (namei path s) (\<lambda>(ip, s). case ip of
          None \<Rightarrow> bnd (end_op s) (\<lambda>s. Inr (- 1, s))
        | Some ip \<Rightarrow>
            bnd (ilock ip s) (\<lambda>s.
            bnd (readi ip ToLocal 0 64 s) (\<lambda>((r, bs), s).
            if r \<noteq> 64 then exec_bad_ip 0 0 ip s
            else let elf = elfhdr_of bs
                 in if elf_magic elf \<noteq> ELF_MAGIC then exec_bad_ip 0 0 ip s
                    else bnd (proc_pagetable p s) (\<lambda>(pagetable, s).
                    if pagetable = 0 then exec_bad_ip 0 0 ip s
                    else bnd (load_prog (unat (elf_phnum elf)) (int_of_u64 (elf_phoff elf)) pagetable ip 0 s) (\<lambda>((ok, sz), s).
                    if \<not> ok then exec_bad_ip pagetable sz ip s
                    else bnd (iunlockput ip s) (\<lambda>s.
                         bnd (end_op s) (\<lambda>s.
                         bnd (the_proc s) (\<lambda>(p, s).
                         exec_stack p path argv pagetable sz (elf_entry elf) s)))))))))) "

section \<open>The system call\<close>

text \<open>
  Fetching the arguments: the pages allocated so far and whether the list ended well.
\<close>

fun fetch_argv ::
    "nat list \<Rightarrow> u64 \<Rightarrow> u64 list \<Rightarrow> 'a fstate_scheme \<Rightarrow> fault + (bool \<times> u64 list) \<times> 'a fstate_scheme" where
  "fetch_argv [] uargv argv s = Inr ((False, argv), s)"
| "fetch_argv (i # is) uargv argv s =
     bnd (fetchaddr (uargv + of_nat (8 * i)) s) (\<lambda>(uarg, s). case uarg of
       None \<Rightarrow> Inr ((False, argv), s)
     | Some uarg \<Rightarrow>
         if uarg = 0 then Inr ((True, argv), s)
         else bnd (kalloc s) (\<lambda>(page, s).
              if page = 0 then Inr ((False, argv), s)
              else bnd (fetchstr uarg 4096 s) (\<lambda>(str, s). case str of
                     None \<Rightarrow> Inr ((False, argv @ [page]), s)
                   | Some str \<Rightarrow>
                       fetch_argv is uargv (argv @ [page]) (set_mem (store_bytes (pmem s) page (str @ [0])) s))))"

definition free_argv :: "u64 list \<Rightarrow> 'a fstate_scheme \<Rightarrow> fault + 'a fstate_scheme" where
  "free_argv argv s = for_each argv (\<lambda>page s. kfree page s) s"

definition sys_exec :: "'a fstate_scheme \<Rightarrow> fault + u64 \<times> 'a fstate_scheme" where
  "sys_exec s =
     bnd (argaddr 1 s) (\<lambda>(uargv, s).
     bnd (argstr 0 MAXPATH s) (\<lambda>(path, s). case path of None \<Rightarrow> Inr (- 1, s) | Some path \<Rightarrow>
     bnd (fetch_argv [0..<MAXARG] uargv [] s) (\<lambda>((ok, argv), s).
     if \<not> ok then bnd (free_argv argv s) (\<lambda>s. Inr (- 1, s))
     else bnd (exec path argv s) (\<lambda>(ret, s).
          bnd (free_argv argv s) (\<lambda>s. Inr (u64_of_int ret, s))))))"

end
