(* ===== verification/Proclife.thy ===== *)
theory Proclife
  imports Exec
begin

text \<open>
  The life of a process: \<open>userinit\<close>, \<open>fork\<close>, \<open>exit\<close>, \<open>wait\<close> and \<open>reparent\<close> of kernel/proc.c and their
  system calls of kernel/sysproc.c.

  \<open>exit\<close> does not return: the model is the code up to the switch to the scheduler (\<open>sched_enter\<close>). \<open>wait\<close>
  is the scan of the table between two sleeps.
\<close>

section \<open>Creation\<close>

definition userinit :: "'a fstate_scheme \<Rightarrow> fault + 'a fstate_scheme" where
  "userinit s =
     bnd (allocproc s) (\<lambda>(p, s).
     let s = s\<lparr>initproc := p\<rparr>
     in case p of
          None \<Rightarrow> Inl (Panic ''kerneltrap'')
        | Some p \<Rightarrow>
            bnd (uvmfirst (p_pagetable (proc s p)) (initcode s) 52 s) (\<lambda>s.
            let s = upd_proc p (\<lambda>q. q\<lparr>p_sz := PGSIZE\<rparr>) s;
                s = set_tf p TF_epc 0 s;
                s = set_tf p TF_sp PGSIZE s;
                s = upd_proc p (\<lambda>q. q\<lparr>p_name :=
                      safestrcpy_list (p_name q) (map (\<lambda>c. of_nat (of_char c)) ''initcode'') 16\<rparr>) s
            in bnd (namei [slash] s) (\<lambda>(cwd, s).
               let s = upd_proc p (\<lambda>q. q\<lparr>p_cwd := cwd, p_state := RUNNABLE\<rparr>) s
               in release (ProcLock p) s)))"

definition dup_ofile :: "nat \<Rightarrow> nat \<Rightarrow> nat \<Rightarrow> 'a fstate_scheme \<Rightarrow> fault + 'a fstate_scheme" where
  "dup_ofile np p i s =
     (case p_ofile (proc s p) i of
        None \<Rightarrow> Inr s
      | Some f \<Rightarrow> bnd (filedup f s) (\<lambda>(f, s). Inr (set_ofile np i (Some f) s)))"

definition fork :: "'a fstate_scheme \<Rightarrow> fault + int \<times> 'a fstate_scheme" where
  "fork s =
     bnd (the_proc s) (\<lambda>(p, s).
     bnd (allocproc s) (\<lambda>(np, s). case np of
       None \<Rightarrow> Inr (- 1, s)
     | Some np \<Rightarrow>
         bnd (uvmcopy (p_pagetable (proc s p)) (p_pagetable (proc s np)) (p_sz (proc s p)) s) (\<lambda>(r, s).
         if r < 0 then bnd (freeproc np s) (\<lambda>s. bnd (release (ProcLock np) s) (\<lambda>s. Inr (- 1, s)))
         else let s = upd_proc np (\<lambda>q. q\<lparr>p_sz := p_sz (proc s p)\<rparr>) s;
                  s = set_mem (store_bytes (pmem s) (p_trapframe (proc s np))
                        (bytes (pmem s) (p_trapframe (proc s p)) sizeof_trapframe)) s;
                  s = set_tf np (TF_a 0) 0 s
              in bnd (for_each [0..<NOFILE] (dup_ofile np p) s) (\<lambda>s.
                 bnd (the_inode (p_cwd (proc s p))) (\<lambda>cwd.
                 bnd (idup cwd s) (\<lambda>(cwd, s).
                 let s = upd_proc np (\<lambda>q. q\<lparr>p_cwd := Some cwd,
                           p_name := safestrcpy_list (p_name q) (p_name (proc s p)) 16\<rparr>) s;
                     pid = p_pid (proc s np)
                 in bnd (release (ProcLock np) s) (\<lambda>s.
                    bnd (fork_tail np p s) (\<lambda>s. Inr (pid, s)))))))))"

section \<open>Termination\<close>

text \<open>\<open>wakeup(0)\<close>: the channel is the null pointer.\<close>

definition wakeup_null :: "'a pstate_scheme \<Rightarrow> fault + 'a pstate_scheme" where
  "wakeup_null s =
     for_each [0..<NPROC] (\<lambda>p s.
       bnd (myproc s) (\<lambda>(me, s).
       if me = Some p then Inr s
       else bnd (acquire (ProcLock p) s) (\<lambda>s.
            let s = (if p_state (proc s p) = SLEEPING \<and> p_chan (proc s p) = None
                     then upd_proc p (\<lambda>q. q\<lparr>p_state := RUNNABLE\<rparr>) s else s)
            in release (ProcLock p) s))) s"

definition wakeup_proc :: "nat option \<Rightarrow> 'a pstate_scheme \<Rightarrow> fault + 'a pstate_scheme" where
  "wakeup_proc p s = (case p of None \<Rightarrow> wakeup_null s | Some p \<Rightarrow> wakeup (ChProc p) s)"

definition reparent :: "nat \<Rightarrow> 'a pstate_scheme \<Rightarrow> fault + 'a pstate_scheme" where
  "reparent p s =
     for_each [0..<NPROC] (\<lambda>pp s.
       if p_parent (proc s pp) = Some p
       then let s = upd_proc pp (\<lambda>q. q\<lparr>p_parent := initproc s\<rparr>) s in wakeup_proc (initproc s) s
       else Inr s) s"

definition close_ofile :: "nat \<Rightarrow> nat \<Rightarrow> 'a fstate_scheme \<Rightarrow> fault + 'a fstate_scheme" where
  "close_ofile p fd s =
     (case p_ofile (proc s p) fd of
        None \<Rightarrow> Inr s
      | Some f \<Rightarrow> bnd (fileclose f s) (\<lambda>s. Inr (set_ofile p fd None s)))"

definition exit :: "int \<Rightarrow> 'a fstate_scheme \<Rightarrow> fault + bool \<times> 'a fstate_scheme" where
  "exit status s =
     bnd (myproc s) (\<lambda>(me, s).
     if me = initproc s then Inl (Panic ''init exiting'')
     else case me of
       None \<Rightarrow> Inl (Panic ''kerneltrap'')
     | Some p \<Rightarrow>
         bnd (for_each [0..<NOFILE] (close_ofile p) s) (\<lambda>s.
         bnd (begin_op s) (\<lambda>s.
         bnd (the_inode (p_cwd (proc s p))) (\<lambda>cwd.
         bnd (iput cwd s) (\<lambda>s.
         bnd (end_op s) (\<lambda>s.
         let s = upd_proc p (\<lambda>q. q\<lparr>p_cwd := None\<rparr>) s
         in bnd (acquire WaitLock s) (\<lambda>s.
            bnd (reparent p s) (\<lambda>s.
            bnd (wakeup_proc (p_parent (proc s p)) s) (\<lambda>s.
            bnd (acquire (ProcLock p) s) (\<lambda>s.
            bnd (for_each [0..<SHMEM] (exit_share p) s) (\<lambda>s.
            let s = upd_proc p (\<lambda>q. q\<lparr>p_xstate := status, p_state := ZOMBIE\<rparr>) s
            in bnd (release WaitLock s) (\<lambda>s. sched_enter s))))))))))))"

section \<open>Waiting\<close>

text \<open>
  One scan of the table: \<open>Inl\<close> is the value \<open>wait\<close> returns, \<open>Inr havekids\<close> the end of the scan.
\<close>

fun wait_scan ::
    "nat list \<Rightarrow> nat \<Rightarrow> u64 \<Rightarrow> bool \<Rightarrow> 'a pstate_scheme \<Rightarrow> fault + (int + bool) \<times> 'a pstate_scheme" where
  "wait_scan [] p addr havekids s = Inr (Inr havekids, s)"
| "wait_scan (pp # pps) p addr havekids s =
     (if p_parent (proc s pp) = Some p
      then bnd (acquire (ProcLock pp) s) (\<lambda>s.
           if p_state (proc s pp) = ZOMBIE
           then let pid = p_pid (proc s pp)
                in bnd (if addr \<noteq> 0
                        then copyout (p_pagetable (proc s p)) addr (u32_bytes (word_of_int (p_xstate (proc s pp)))) s
                        else Inr (0, s)) (\<lambda>(r, s).
                   if addr \<noteq> 0 \<and> r < 0
                   then bnd (release (ProcLock pp) s) (\<lambda>s.
                        bnd (release WaitLock s) (\<lambda>s. Inr (Inl (- 1), s)))
                   else bnd (freeproc pp s) (\<lambda>s.
                        bnd (release (ProcLock pp) s) (\<lambda>s.
                        bnd (release WaitLock s) (\<lambda>s. Inr (Inl pid, s)))))
           else bnd (release (ProcLock pp) s) (\<lambda>s. wait_scan pps p addr True s))
      else wait_scan pps p addr havekids s)"

definition wait_check :: "nat \<Rightarrow> u64 \<Rightarrow> 'a pstate_scheme \<Rightarrow> fault + int run \<times> 'a pstate_scheme" where
  "wait_check p addr s =
     bnd (wait_scan [0..<NPROC] p addr False s) (\<lambda>(r, s). case r of
       Inl v \<Rightarrow> Inr (Done v, s)
     | Inr havekids \<Rightarrow>
         bnd (if \<not> havekids then Inr (True, s) else bnd (killed p s) (\<lambda>(k, s). Inr (k \<noteq> 0, s))) (\<lambda>(stop, s).
         if stop then bnd (release WaitLock s) (\<lambda>s. Inr (Done (- 1), s))
         else Inr (Blocks (ChProc p) WaitLock, s)))"

definition wait :: "u64 \<Rightarrow> 'a pstate_scheme \<Rightarrow> fault + int run \<times> 'a pstate_scheme" where
  "wait addr s =
     bnd (the_proc s) (\<lambda>(p, s).
     bnd (acquire WaitLock s) (\<lambda>s. wait_check p addr s))"

section \<open>System calls\<close>

definition sys_fork :: "'a fstate_scheme \<Rightarrow> fault + u64 \<times> 'a fstate_scheme" where
  "sys_fork s = bnd (fork s) (\<lambda>(r, s). Inr (u64_of_int r, s))"

definition sys_exit :: "'a fstate_scheme \<Rightarrow> fault + bool \<times> 'a fstate_scheme" where
  "sys_exit s = bnd (argint 0 s) (\<lambda>(n, s). exit n s)"

definition sys_wait :: "'a pstate_scheme \<Rightarrow> fault + u64 run \<times> 'a pstate_scheme" where
  "sys_wait s =
     bnd (argaddr 0 s) (\<lambda>(addr, s).
     bnd (wait addr s) (\<lambda>(r, s). case r of
       Done v \<Rightarrow> Inr (Done (u64_of_int v), s) | Blocks ch lk \<Rightarrow> Inr (Blocks ch lk, s)))"

end
