(* ===== verification/Virtio.thy ===== *)
theory Virtio
  imports File
begin

text \<open>
  The disk driver: kernel/virtio_disk.c and kernel/virtio.h.

  The three queue areas hold structs; they are kept as the values of their fields, and a DMA address is
  the object it points to (\<open>daddr\<close>). Device registers are read from \<open>vregs\<close>, and writes to them are
  recorded in \<open>vwrites\<close>. The waits of \<open>virtio_disk_rw\<close> end in \<open>Blocks\<close>: \<open>rw_submit\<close> is the call up to the
  notification of the device, \<open>rw_wait\<close> what follows each wake-up. The buffer cache uses the
  transfer \<open>disk_rw\<close> that such a call performs.
\<close>

unbundle bit_operations_syntax

definition NUM :: nat where [simp]: "NUM = 8"

definition VRING_DESC_F_NEXT :: u16 where "VRING_DESC_F_NEXT = 1"
definition VRING_DESC_F_WRITE :: u16 where "VRING_DESC_F_WRITE = 2"
definition VIRTIO_BLK_T_IN :: u32 where "VIRTIO_BLK_T_IN = 0"
definition VIRTIO_BLK_T_OUT :: u32 where "VIRTIO_BLK_T_OUT = 1"

datatype daddr = DNull | DReq nat | DData nat | DStatus nat

record virtq_desc =
  d_addr :: daddr
  d_len :: u32
  d_flags :: u16
  d_next :: u16

record virtio_blk_req =
  rq_type :: u32
  rq_reserved :: u32
  rq_sector :: u64

record vdisk =
  vd_desc_page :: u64
  vd_avail_page :: u64
  vd_used_page :: u64
  vd_desc :: "nat \<Rightarrow> virtq_desc"
  vd_avail_idx :: u16
  vd_avail_ring :: "nat \<Rightarrow> u16"
  vd_used_page_idx :: u16
  vd_used_ring :: "nat \<Rightarrow> u32"
  vd_free :: "nat \<Rightarrow> bool"
  vd_used_idx :: u16
  vd_info_b :: "nat \<Rightarrow> nat option"
  vd_info_status :: "nat \<Rightarrow> u8"
  vd_ops :: "nat \<Rightarrow> virtio_blk_req"

record vdstate = fstate +
  vd :: vdisk
  vregs :: "nat \<Rightarrow> u32"
  vwrites :: "(nat \<times> u32) list"

abbreviation upd_vd :: "(vdisk \<Rightarrow> vdisk) \<Rightarrow> 'a vdstate_scheme \<Rightarrow> 'a vdstate_scheme" where
  "upd_vd f s \<equiv> s\<lparr>vd := f (vd s)\<rparr>"

section \<open>Registers\<close>

definition VIRTIO_MMIO_MAGIC_VALUE :: nat where "VIRTIO_MMIO_MAGIC_VALUE = 0x000"
definition VIRTIO_MMIO_VERSION :: nat where "VIRTIO_MMIO_VERSION = 0x004"
definition VIRTIO_MMIO_DEVICE_ID :: nat where "VIRTIO_MMIO_DEVICE_ID = 0x008"
definition VIRTIO_MMIO_VENDOR_ID :: nat where "VIRTIO_MMIO_VENDOR_ID = 0x00c"
definition VIRTIO_MMIO_DEVICE_FEATURES :: nat where "VIRTIO_MMIO_DEVICE_FEATURES = 0x010"
definition VIRTIO_MMIO_DRIVER_FEATURES :: nat where "VIRTIO_MMIO_DRIVER_FEATURES = 0x020"
definition VIRTIO_MMIO_QUEUE_SEL :: nat where "VIRTIO_MMIO_QUEUE_SEL = 0x030"
definition VIRTIO_MMIO_QUEUE_NUM_MAX :: nat where "VIRTIO_MMIO_QUEUE_NUM_MAX = 0x034"
definition VIRTIO_MMIO_QUEUE_NUM :: nat where "VIRTIO_MMIO_QUEUE_NUM = 0x038"
definition VIRTIO_MMIO_QUEUE_READY :: nat where "VIRTIO_MMIO_QUEUE_READY = 0x044"
definition VIRTIO_MMIO_QUEUE_NOTIFY :: nat where "VIRTIO_MMIO_QUEUE_NOTIFY = 0x050"
definition VIRTIO_MMIO_INTERRUPT_STATUS :: nat where "VIRTIO_MMIO_INTERRUPT_STATUS = 0x060"
definition VIRTIO_MMIO_INTERRUPT_ACK :: nat where "VIRTIO_MMIO_INTERRUPT_ACK = 0x064"
definition VIRTIO_MMIO_STATUS :: nat where "VIRTIO_MMIO_STATUS = 0x070"
definition VIRTIO_MMIO_QUEUE_DESC_LOW :: nat where "VIRTIO_MMIO_QUEUE_DESC_LOW = 0x080"
definition VIRTIO_MMIO_QUEUE_DESC_HIGH :: nat where "VIRTIO_MMIO_QUEUE_DESC_HIGH = 0x084"
definition VIRTIO_MMIO_DRIVER_DESC_LOW :: nat where "VIRTIO_MMIO_DRIVER_DESC_LOW = 0x090"
definition VIRTIO_MMIO_DRIVER_DESC_HIGH :: nat where "VIRTIO_MMIO_DRIVER_DESC_HIGH = 0x094"
definition VIRTIO_MMIO_DEVICE_DESC_LOW :: nat where "VIRTIO_MMIO_DEVICE_DESC_LOW = 0x0a0"
definition VIRTIO_MMIO_DEVICE_DESC_HIGH :: nat where "VIRTIO_MMIO_DEVICE_DESC_HIGH = 0x0a4"

definition set_R :: "nat \<Rightarrow> u32 \<Rightarrow> 'a vdstate_scheme \<Rightarrow> 'a vdstate_scheme" where
  "set_R r v s = s\<lparr>vwrites := vwrites s @ [(r, v)]\<rparr>"

section \<open>Initialisation\<close>

definition driver_features :: "u32 \<Rightarrow> u32" where
  "driver_features features =
     fold (\<lambda>k f. f AND NOT (push_bit k 1)) [5, 7, 11, 12, 27, 29, 28] features"

definition virtio_disk_init :: "'a vdstate_scheme \<Rightarrow> fault + 'a vdstate_scheme" where
  "virtio_disk_init s =
     (let s = initlock VdiskLock ''virtio_disk'' s
      in if vregs s VIRTIO_MMIO_MAGIC_VALUE \<noteq> 0x74726976 \<or> vregs s VIRTIO_MMIO_VERSION \<noteq> 2
            \<or> vregs s VIRTIO_MMIO_DEVICE_ID \<noteq> 2 \<or> vregs s VIRTIO_MMIO_VENDOR_ID \<noteq> 0x554d4551
         then Inl (Panic ''could not find virtio disk'')
         else let s = set_R VIRTIO_MMIO_STATUS 0 s;
                  s = set_R VIRTIO_MMIO_STATUS 1 s;
                  s = set_R VIRTIO_MMIO_STATUS (1 OR 2) s;
                  s = set_R VIRTIO_MMIO_DRIVER_FEATURES (driver_features (vregs s VIRTIO_MMIO_DEVICE_FEATURES)) s;
                  s = set_R VIRTIO_MMIO_STATUS (1 OR 2 OR 8) s;
                  status = vregs s VIRTIO_MMIO_STATUS
              in if status AND 8 = 0 then Inl (Panic ''virtio disk FEATURES_OK unset'')
                 else let s = set_R VIRTIO_MMIO_QUEUE_SEL 0 s
                      in if vregs s VIRTIO_MMIO_QUEUE_READY \<noteq> 0 then Inl (Panic ''virtio disk should not be ready'')
                         else if vregs s VIRTIO_MMIO_QUEUE_NUM_MAX = 0 then Inl (Panic ''virtio disk has no queue 0'')
                         else if vregs s VIRTIO_MMIO_QUEUE_NUM_MAX < of_nat NUM
                         then Inl (Panic ''virtio disk max queue too short'')
                         else bnd (kalloc s) (\<lambda>(desc, s).
                              bnd (kalloc s) (\<lambda>(avail, s).
                              bnd (kalloc s) (\<lambda>(used, s).
                              if desc = 0 \<or> avail = 0 \<or> used = 0 then Inl (Panic ''virtio disk kalloc'')
                              else let s = set_mem (memset (pmem s) desc 0 4096) s;
                                       s = set_mem (memset (pmem s) avail 0 4096) s;
                                       s = set_mem (memset (pmem s) used 0 4096) s;
                                       s = upd_vd (\<lambda>d. d\<lparr>vd_desc_page := desc, vd_avail_page := avail, vd_used_page := used,
                                             vd_desc := (\<lambda>_. \<lparr>d_addr = DNull, d_len = 0, d_flags = 0, d_next = 0\<rparr>),
                                             vd_avail_idx := 0, vd_avail_ring := (\<lambda>_. 0),
                                             vd_used_page_idx := 0, vd_used_ring := (\<lambda>_. 0)\<rparr>) s;
                                       s = set_R VIRTIO_MMIO_QUEUE_NUM (of_nat NUM) s;
                                       s = set_R VIRTIO_MMIO_QUEUE_DESC_LOW (ucast desc) s;
                                       s = set_R VIRTIO_MMIO_QUEUE_DESC_HIGH (ucast (drop_bit 32 desc)) s;
                                       s = set_R VIRTIO_MMIO_DRIVER_DESC_LOW (ucast avail) s;
                                       s = set_R VIRTIO_MMIO_DRIVER_DESC_HIGH (ucast (drop_bit 32 avail)) s;
                                       s = set_R VIRTIO_MMIO_DEVICE_DESC_LOW (ucast used) s;
                                       s = set_R VIRTIO_MMIO_DEVICE_DESC_HIGH (ucast (drop_bit 32 used)) s;
                                       s = set_R VIRTIO_MMIO_QUEUE_READY 1 s;
                                       s = upd_vd (\<lambda>d. d\<lparr>vd_free := (\<lambda>i. i < NUM \<or> vd_free d i)\<rparr>) s
                                   in Inr (set_R VIRTIO_MMIO_STATUS (status OR 4) s)))))"

section \<open>Descriptors\<close>

definition alloc_desc :: "vdisk \<Rightarrow> (nat \<times> vdisk) option" where
  "alloc_desc d =
     (case find (vd_free d) [0..<NUM] of
        Some i \<Rightarrow> Some (i, d\<lparr>vd_free := (vd_free d)(i := False)\<rparr>) | None \<Rightarrow> None)"

definition free_desc :: "nat \<Rightarrow> 'a vdstate_scheme \<Rightarrow> fault + 'a vdstate_scheme" where
  "free_desc i s =
     (if i \<ge> NUM then Inl (Panic ''free_desc 1'')
      else if vd_free (vd s) i then Inl (Panic ''free_desc 2'')
      else let s = upd_vd (\<lambda>d. d\<lparr>vd_desc := (vd_desc d)(i := \<lparr>d_addr = DNull, d_len = 0, d_flags = 0, d_next = 0\<rparr>),
                                  vd_free := (vd_free d)(i := True)\<rparr>) s
           in wakeup ChVdiskFree s)"

text \<open>
  Every round of \<open>free_chain\<close> frees a descriptor that was in use, or panics: \<open>NUM + 1\<close> rounds are enough.
\<close>

fun free_chain_fuel :: "nat \<Rightarrow> nat \<Rightarrow> 'a vdstate_scheme \<Rightarrow> fault + 'a vdstate_scheme" where
  "free_chain_fuel 0 i s = Inl Diverges"
| "free_chain_fuel (Suc k) i s =
     (let flag = d_flags (vd_desc (vd s) i); nxt = unat (d_next (vd_desc (vd s) i))
      in bnd (free_desc i s) (\<lambda>s.
         if flag AND VRING_DESC_F_NEXT \<noteq> 0 then free_chain_fuel k nxt s else Inr s))"

definition free_chain :: "nat \<Rightarrow> 'a vdstate_scheme \<Rightarrow> fault + 'a vdstate_scheme" where
  "free_chain i s = free_chain_fuel (NUM + 1) i s"

fun alloc_descs :: "nat \<Rightarrow> nat list \<Rightarrow> 'a vdstate_scheme \<Rightarrow> fault + nat list option \<times> 'a vdstate_scheme" where
  "alloc_descs 0 idx s = Inr (Some idx, s)"
| "alloc_descs (Suc k) idx s =
     (case alloc_desc (vd s) of
        None \<Rightarrow> bnd (for_each idx (\<lambda>j s. free_desc j s) s) (\<lambda>s. Inr (None, s))
      | Some (i, d) \<Rightarrow> alloc_descs k (idx @ [i]) (s\<lparr>vd := d\<rparr>))"

definition alloc3_desc :: "'a vdstate_scheme \<Rightarrow> fault + nat list option \<times> 'a vdstate_scheme" where
  "alloc3_desc s = alloc_descs 3 [] s"

section \<open>Requests\<close>

definition set_desc :: "nat \<Rightarrow> daddr \<Rightarrow> u32 \<Rightarrow> u16 \<Rightarrow> u16 \<Rightarrow> vdisk \<Rightarrow> vdisk" where
  "set_desc i a n fl nx d =
     d\<lparr>vd_desc := (vd_desc d)(i := \<lparr>d_addr = a, d_len = n, d_flags = fl, d_next = nx\<rparr>)\<rparr>"

definition format_req :: "nat \<Rightarrow> nat \<Rightarrow> nat \<Rightarrow> nat \<Rightarrow> bool \<Rightarrow> u64 \<Rightarrow> vdisk \<Rightarrow> vdisk" where
  "format_req i0 i1 i2 b write sector d =
     (let d = d\<lparr>vd_ops := (vd_ops d)(i0 := \<lparr>rq_type = if write then VIRTIO_BLK_T_OUT else VIRTIO_BLK_T_IN,
                                             rq_reserved = 0, rq_sector = sector\<rparr>)\<rparr>;
          d = set_desc i0 (DReq i0) 16 VRING_DESC_F_NEXT (of_nat i1) d;
          d = set_desc i1 (DData b) (of_nat BSIZE)
                ((if write then 0 else VRING_DESC_F_WRITE) OR VRING_DESC_F_NEXT) (of_nat i2) d;
          d = d\<lparr>vd_info_status := (vd_info_status d)(i0 := 0xff)\<rparr>
      in set_desc i2 (DStatus i0) 1 VRING_DESC_F_WRITE 0 d)"

definition submit_req :: "nat \<Rightarrow> nat \<Rightarrow> 'a vdstate_scheme \<Rightarrow> 'a vdstate_scheme" where
  "submit_req i0 b s =
     (let s = upd_buf b (\<lambda>x. x\<lparr>b_disk := True\<rparr>) s;
          s = upd_vd (\<lambda>d. d\<lparr>vd_info_b := (vd_info_b d)(i0 := Some b)\<rparr>) s;
          s = upd_vd (\<lambda>d. d\<lparr>vd_avail_ring := (vd_avail_ring d)(unat (vd_avail_idx d) mod NUM := of_nat i0)\<rparr>) s;
          s = upd_vd (\<lambda>d. d\<lparr>vd_avail_idx := vd_avail_idx d + 1\<rparr>) s
      in set_R VIRTIO_MMIO_QUEUE_NOTIFY 0 s)"

definition rw_submit :: "nat \<Rightarrow> bool \<Rightarrow> 'a vdstate_scheme \<Rightarrow> fault + nat run \<times> 'a vdstate_scheme" where
  "rw_submit b write s =
     (let sector = ucast (b_blockno (bufs s b) * 2)
      in bnd (alloc3_desc s) (\<lambda>(idx, s). case idx of
           None \<Rightarrow> Inr (Blocks ChVdiskFree VdiskLock, s)
         | Some idx \<Rightarrow>
             let s = upd_vd (format_req (idx ! 0) (idx ! 1) (idx ! 2) b write sector) s
             in Inr (Done (idx ! 0), submit_req (idx ! 0) b s)))"

definition rw_wait :: "nat \<Rightarrow> nat \<Rightarrow> 'a vdstate_scheme \<Rightarrow> fault + unit run \<times> 'a vdstate_scheme" where
  "rw_wait b i0 s =
     (if b_disk (bufs s b) then Inr (Blocks (ChBuf b) VdiskLock, s)
      else let s = upd_vd (\<lambda>d. d\<lparr>vd_info_b := (vd_info_b d)(i0 := None)\<rparr>) s
           in bnd (free_chain i0 s) (\<lambda>s.
              bnd (release VdiskLock s) (\<lambda>s. Inr (Done (), s))))"

text \<open>\<open>virtio_disk_rw\<close> up to its first wait.\<close>

definition virtio_disk_rw :: "nat \<Rightarrow> bool \<Rightarrow> 'a vdstate_scheme \<Rightarrow> fault + unit run \<times> 'a vdstate_scheme" where
  "virtio_disk_rw b write s =
     bnd (acquire VdiskLock s) (\<lambda>s.
     bnd (rw_submit b write s) (\<lambda>(r, s). case r of
       Blocks ch lk \<Rightarrow> Inr (Blocks ch lk, s)
     | Done i0 \<Rightarrow> rw_wait b i0 s))"

definition intr_one :: "'a vdstate_scheme \<Rightarrow> fault + 'a vdstate_scheme" where
  "intr_one s =
     (let id = unat (vd_used_ring (vd s) (unat (vd_used_idx (vd s)) mod NUM))
      in if vd_info_status (vd s) id \<noteq> 0 then Inl (Panic ''virtio_disk_intr status'')
         else case vd_info_b (vd s) id of
           None \<Rightarrow> Inl (Panic ''kerneltrap'')
         | Some b \<Rightarrow>
             bnd (wakeup (ChBuf b) (upd_buf b (\<lambda>x. x\<lparr>b_disk := False\<rparr>) s)) (\<lambda>s.
             Inr (upd_vd (\<lambda>d. d\<lparr>vd_used_idx := vd_used_idx d + 1\<rparr>) s)))"

definition virtio_disk_intr :: "'a vdstate_scheme \<Rightarrow> fault + 'a vdstate_scheme" where
  "virtio_disk_intr s =
     bnd (acquire VdiskLock s) (\<lambda>s.
     let s = set_R VIRTIO_MMIO_INTERRUPT_ACK (vregs s VIRTIO_MMIO_INTERRUPT_STATUS AND 3) s
     in bnd (for_each [0..<unat (vd_used_page_idx (vd s) - vd_used_idx (vd s))] (\<lambda>_ s. intr_one s) s) (\<lambda>s.
        release VdiskLock s))"

section \<open>Freeing a chain ends\<close>

lemma vdstate_comm [lk_comm]:
  "acquire l (s\<lparr>vd := x0\<rparr>) = bnd (acquire l s) (\<lambda>s. Inr (s\<lparr>vd := x0\<rparr>))"
  "release l (s\<lparr>vd := x0\<rparr>) = bnd (release l s) (\<lambda>s. Inr (s\<lparr>vd := x0\<rparr>))"
  "holding l (s\<lparr>vd := x0\<rparr>) = holding l s" "mycpu (s\<lparr>vd := x0\<rparr>) = mycpu s" "intr_get (s\<lparr>vd := x0\<rparr>) = intr_get s"
  "lk_free l (s\<lparr>vd := x0\<rparr>) = lk_free l s" "cpu_ok (s\<lparr>vd := x0\<rparr>) = cpu_ok s"
  "lk_on l (s\<lparr>vd := x0\<rparr>) = (lk_on l s)\<lparr>vd := x0\<rparr>"
  "lk_cycle (s\<lparr>vd := x0\<rparr>) = (lk_cycle s)\<lparr>vd := x0\<rparr>"
  "set_lname k nm (s\<lparr>vd := x0\<rparr>) = (set_lname k nm s)\<lparr>vd := x0\<rparr>"
  "vd (lk_on l s) = vd s" "vd (lk_cycle s) = vd s" "vd (set_lname k nm s) = vd s"
  "acquire l (s\<lparr>vwrites := x1\<rparr>) = bnd (acquire l s) (\<lambda>s. Inr (s\<lparr>vwrites := x1\<rparr>))"
  "release l (s\<lparr>vwrites := x1\<rparr>) = bnd (release l s) (\<lambda>s. Inr (s\<lparr>vwrites := x1\<rparr>))"
  "holding l (s\<lparr>vwrites := x1\<rparr>) = holding l s" "mycpu (s\<lparr>vwrites := x1\<rparr>) = mycpu s" "intr_get (s\<lparr>vwrites := x1\<rparr>) = intr_get s"
  "lk_free l (s\<lparr>vwrites := x1\<rparr>) = lk_free l s" "cpu_ok (s\<lparr>vwrites := x1\<rparr>) = cpu_ok s"
  "lk_on l (s\<lparr>vwrites := x1\<rparr>) = (lk_on l s)\<lparr>vwrites := x1\<rparr>"
  "lk_cycle (s\<lparr>vwrites := x1\<rparr>) = (lk_cycle s)\<lparr>vwrites := x1\<rparr>"
  "set_lname k nm (s\<lparr>vwrites := x1\<rparr>) = (set_lname k nm s)\<lparr>vwrites := x1\<rparr>"
  "vwrites (lk_on l s) = vwrites s" "vwrites (lk_cycle s) = vwrites s" "vwrites (set_lname k nm s) = vwrites s"
  "vregs (lk_on l s) = vregs s" "vregs (lk_cycle s) = vregs s" "vregs (set_lname k nm s) = vregs s"
  by (simp_all add: lk_free_def cpu_ok_def lk_cycle_def lk_on_def set_lname_def lock_defs Let_def)


lemma section_vd [simp]:
  "section_ok (s\<lparr>vd := d\<rparr>) = section_ok s" "section_ok (s\<lparr>vwrites := w\<rparr>) = section_ok s" "section_ok (t\<lparr>bufs := B\<rparr>) = section_ok t"
  by (simp_all add: section_ok_def procs_free_def lk_comm)

lemma calm_vd [simp]: "calm p (s\<lparr>vd := d\<rparr>) = calm p s" "calm p (s\<lparr>vwrites := w\<rparr>) = calm p s"
  by (simp_all add: calm_def lk_comm)

definition desc_freed :: "nat \<Rightarrow> vdisk \<Rightarrow> vdisk" where
  "desc_freed i d = d\<lparr>vd_desc := (vd_desc d)(i := \<lparr>d_addr = DNull, d_len = 0, d_flags = 0, d_next = 0\<rparr>), vd_free := (vd_free d)(i := True)\<rparr>"

lemma free_desc_eq:
  assumes "section_ok s"
  shows "free_desc i s = (if i \<ge> NUM then Inl (Panic ''free_desc 1'') else if vd_free (vd s) i then Inl (Panic ''free_desc 2'')
    else Inr (s\<lparr>vd := desc_freed i (vd s), proc := wake ChVdiskFree (cproc (mycpu s)) (proc s)\<rparr>))"
  using assms section_wakeup [of "s\<lparr>vd := desc_freed i (vd s)\<rparr>" ChVdiskFree]
  by (simp add: free_desc_def desc_freed_def Let_def lk_comm)

definition in_use :: "vdisk \<Rightarrow> nat set" where
  "in_use d = {i. i < NUM \<and> \<not> vd_free d i}"

lemma free_chain_fuel_enough:
  assumes "section_ok s" "card (in_use (vd s)) < k"
  shows "free_chain_fuel k i s \<noteq> Inl Diverges \<and> free_chain_fuel (k + m) i s = free_chain_fuel k i s"
  using assms
proof (induction k arbitrary: i s)
  case (Suc k)
  show ?case
  proof (cases "i < NUM \<and> \<not> vd_free (vd s) i")
    case False
    then show ?thesis using Suc.prems(1) by (auto simp: Let_def free_desc_eq)
  next
    case True
    let ?t = "s\<lparr>vd := desc_freed i (vd s), proc := wake ChVdiskFree (cproc (mycpu s)) (proc s)\<rparr>"
    have e: "in_use (vd ?t) = in_use (vd s) - {i}" by (auto simp: desc_freed_def in_use_def)
    have "finite (in_use (vd s))" "i \<in> in_use (vd s)" using True by (simp_all add: in_use_def)
    from card_Diff1_less [OF this] have "card (in_use (vd ?t)) < k" unfolding e using Suc.prems(2) by linarith
    then have ih: "free_chain_fuel k j ?t \<noteq> Inl Diverges \<and> free_chain_fuel (k + m) j ?t = free_chain_fuel k j ?t" for j
      using Suc.IH [of ?t j] Suc.prems(1) by simp
    show ?thesis using True Suc.prems(1) ih by (simp add: Let_def free_desc_eq)
  qed
qed simp

text \<open>
  C34: freeing a chain of descriptors always ends, whatever the descriptors contain, also when they form a
  cycle: each round frees a descriptor in use, or panics. The nine rounds of the model are enough: more
  give the same result.
\<close>

theorem free_chain_terminates:
  assumes "section_ok s"
  shows "free_chain i s \<noteq> Inl Diverges \<and> (\<forall>m. free_chain_fuel (NUM + 1 + m) i s = free_chain i s)"
proof -
  have "card (in_use (vd s)) \<le> card {..<NUM}" by (intro card_mono) (auto simp: in_use_def)
  then have "card (in_use (vd s)) < NUM + 1" by simp
  from free_chain_fuel_enough [OF assms this] show ?thesis by (simp add: free_chain_def)
qed

section \<open>A request carries out the transfer\<close>

text \<open>
  The device is a parameter. What the driver relies on is the behaviour of a block device in the virtio
  specification: a request is the chain of three descriptors that starts at the newest entry of the
  available ring: a header that the device reads, a data buffer of a block, which the device writes for
  a read request only, and a status byte that it writes. The device transfers the sectors, sets the
  status to 0 and puts the head of the chain into the used ring.
\<close>

definition request :: "vdisk \<Rightarrow> (nat \<times> virtio_blk_req \<times> nat \<times> nat) option" where
  "request d =
     (let i0 = unat (vd_avail_ring d (unat (vd_avail_idx d - 1) mod NUM)); x = vd_desc d i0; y = vd_desc d (unat (d_next x));
          z = vd_desc d (unat (d_next y))
      in case (d_addr x, d_addr y, d_addr z) of
           (DReq r, DData b, DStatus j) \<Rightarrow>
             if d_len x = 16 \<and> d_flags x = VRING_DESC_F_NEXT \<and> d_len y = of_nat BSIZE
                \<and> d_flags y = (if rq_type (vd_ops d r) = VIRTIO_BLK_T_OUT then VRING_DESC_F_NEXT else VRING_DESC_F_WRITE OR VRING_DESC_F_NEXT)
                \<and> d_len z = 1 \<and> d_flags z = VRING_DESC_F_WRITE
                \<and> (rq_type (vd_ops d r) = VIRTIO_BLK_T_OUT \<or> rq_type (vd_ops d r) = VIRTIO_BLK_T_IN)
             then Some (i0, vd_ops d r, b, j) else None
         | _ \<Rightarrow> None)"

definition serve :: "nat \<Rightarrow> virtio_blk_req \<Rightarrow> nat \<Rightarrow> nat \<Rightarrow> 'a vdstate_scheme \<Rightarrow> 'a vdstate_scheme" where
  "serve i0 rq b j s =
     (let bn = ucast (rq_sector rq div 2);
          s = (if rq_type rq = VIRTIO_BLK_T_OUT
               then s\<lparr>disk := (disk s)(bn := b_data (bufs s b)), dwrites := dwrites s @ [(bn, b_data (bufs s b))]\<rparr>
               else upd_buf b (\<lambda>x. x\<lparr>b_data := disk s bn\<rparr>) s)
      in upd_vd (\<lambda>d. d\<lparr>vd_info_status := (vd_info_status d)(j := 0),
           vd_used_ring := (vd_used_ring d)(unat (vd_used_page_idx d) mod NUM := of_nat i0),
           vd_used_page_idx := vd_used_page_idx d + 1\<rparr>) s)"

definition virtio_device :: "('a vdstate_scheme \<Rightarrow> 'a vdstate_scheme) \<Rightarrow> bool" where
  "virtio_device dev \<longleftrightarrow> (\<forall>s i0 rq b j. request (vd s) = Some (i0, rq, b, j) \<longrightarrow> dev s = serve i0 rq b j s)"

text \<open>No request is in progress.\<close>

definition vd_quiet :: "vdisk \<Rightarrow> bool" where
  "vd_quiet d \<longleftrightarrow> (\<forall>i < NUM. vd_free d i) \<and> vd_used_page_idx d = vd_used_idx d"

lemma alloc3_quiet:
  assumes "vd_quiet (vd s)"
  shows "alloc3_desc s = Inr (Some [0, 1, 2], upd_vd (\<lambda>d. d\<lparr>vd_free := (vd_free d)(0 := False, 1 := False, 2 := False)\<rparr>) s)"
proof -
  have u: "[0..<NUM] = [0, 1, 2, 3, 4, 5, 6, 7]" by (simp add: upt_rec)
  have f: "vd_free (vd s) 0" "vd_free (vd s) 1" "vd_free (vd s) 2" using assms by (auto simp: vd_quiet_def)
  show ?thesis using f by (simp add: alloc3_desc_def numeral_3_eq_3 alloc_desc_def u fun_upd_twist del: NUM_def)
qed

text \<open>The driver's data after a request for the buffer \<open>b\<close>.\<close>

definition asked :: "nat \<Rightarrow> bool \<Rightarrow> u32 \<Rightarrow> vdisk \<Rightarrow> vdisk" where
  "asked b w bn d =
     (let d = format_req 0 1 2 b w (ucast (bn * 2)) (d\<lparr>vd_free := (vd_free d)(0 := False, 1 := False, 2 := False)\<rparr>);
          d = d\<lparr>vd_info_b := (vd_info_b d)(0 := Some b)\<rparr>;
          d = d\<lparr>vd_avail_ring := (vd_avail_ring d)(unat (vd_avail_idx d) mod NUM := 0)\<rparr>
      in d\<lparr>vd_avail_idx := vd_avail_idx d + 1\<rparr>)"

definition asking :: "nat \<Rightarrow> bool \<Rightarrow> 'a vdstate_scheme \<Rightarrow> 'a vdstate_scheme" where
  "asking b w s = s\<lparr>bufs := (bufs s)(b := (bufs s b)\<lparr>b_disk := True\<rparr>), vd := asked b w (b_blockno (bufs s b)) (vd s),
     vwrites := vwrites s @ [(VIRTIO_MMIO_QUEUE_NOTIFY, 0)]\<rparr>"

lemma rw_submit_quiet:
  assumes "vd_quiet (vd s)"
  shows "rw_submit b w s = Inr (Done 0, asking b w s)"
  using alloc3_quiet [OF assms]
  by (simp add: rw_submit_def submit_req_def asking_def asked_def Let_def upd_buf_def set_R_def del: NUM_def)

lemma asking_comm:
  "asking b w (lk_on l s) = lk_on l (asking b w s)" "asking b w (lk_cycle s) = lk_cycle (asking b w s)"
  by (simp_all add: asking_def lk_comm)

lemma calm_asking [simp]: "calm p (asking b w s) = calm p s"
  by (simp add: asking_def)

lemma request_asked:
  "request (asked b w bn d) = Some (0, \<lparr>rq_type = if w then VIRTIO_BLK_T_OUT else VIRTIO_BLK_T_IN, rq_reserved = 0, rq_sector = ucast (bn * 2)\<rparr>, b, 0)"
  by (simp add: request_def asked_def format_req_def set_desc_def Let_def VIRTIO_BLK_T_OUT_def VIRTIO_BLK_T_IN_def)

lemma sector_block:
  assumes "unat (bn :: u32) < 2 ^ 31"
  shows "ucast ((ucast (bn * 2) :: u64) div 2) = bn"
proof -
  have "unat (bn * 2) = 2 * unat bn" using assms by (simp add: unat_word_ariths)
  then have "unat (ucast (bn * 2) :: u64) = 2 * unat bn"
    using assms by (simp add: unsigned_ucast_eq take_bit_nat_eq_self)
  then have d: "unat ((ucast (bn * 2) :: u64) div 2) = unat bn" by (simp add: unat_div)
  have "unat (ucast ((ucast (bn * 2) :: u64) div 2) :: u32) = unat bn"
    using assms unfolding unsigned_ucast_eq d by (simp add: take_bit_nat_eq_self)
  then show ?thesis by (simp add: word_unat_eq_iff)
qed

lemma virtio_disk_intr_one:
  assumes "calm p s" and "vd_used_page_idx (vd s) = vd_used_idx (vd s) + 1"
    and "unat (vd_used_ring (vd s) (unat (vd_used_idx (vd s)) mod NUM)) = i" and "vd_info_status (vd s) i = 0" and "vd_info_b (vd s) i = Some b"
  shows "\<exists>w. virtio_disk_intr s = Inr ((lk_cycle s)\<lparr>vwrites := w, bufs := (bufs s)(b := (bufs s b)\<lparr>b_disk := False\<rparr>),
    proc := wake (ChBuf b) (Some p) (proc s), vd := (vd s)\<lparr>vd_used_idx := vd_used_idx (vd s) + 1\<rparr>\<rparr>)"
proof -
  note c = calmD [OF assms(1)]
  let ?w = "vwrites s @ [(VIRTIO_MMIO_INTERRUPT_ACK, vregs s VIRTIO_MMIO_INTERRUPT_STATUS AND 3)]"
  let ?t = "(lk_on VdiskLock s)\<lparr>vwrites := ?w\<rparr>"
  let ?B = "(bufs s)(b := (bufs s b)\<lparr>b_disk := False\<rparr>)"
  have "section_ok (?t\<lparr>bufs := ?B\<rparr>)" using calm_section [OF assms(1)] by simp
  from section_wakeup [OF this, of "ChBuf b"] have "intr_one ?t = Inr (?t\<lparr>bufs := ?B, proc := wake (ChBuf b) (Some p) (proc s),
      vd := (vd s)\<lparr>vd_used_idx := vd_used_idx (vd s) + 1\<rparr>\<rparr>)"
    using assms(3-5) c by (simp add: intr_one_def upd_buf_def lk_comm Let_def)
  moreover have "unat (vd_used_page_idx (vd s) - vd_used_idx (vd s)) = 1" using assms(2) by simp
  ultimately show ?thesis
    using c by (intro exI [of _ ?w]) (simp add: virtio_disk_intr_def set_R_def acquire_free Let_def lk_calc lk_comm)
qed

lemma free_chain_three:
  assumes "section_ok s" and "\<not> vd_free (vd s) 0" "\<not> vd_free (vd s) 1" "\<not> vd_free (vd s) 2"
    and "d_flags (vd_desc (vd s) 0) AND VRING_DESC_F_NEXT \<noteq> 0" "unat (d_next (vd_desc (vd s) 0)) = 1"
    and "d_flags (vd_desc (vd s) 1) AND VRING_DESC_F_NEXT \<noteq> 0" "unat (d_next (vd_desc (vd s) 1)) = 2"
    and "d_flags (vd_desc (vd s) 2) AND VRING_DESC_F_NEXT = 0"
  shows "\<exists>P. free_chain 0 s = Inr (s\<lparr>vd := desc_freed 2 (desc_freed 1 (desc_freed 0 (vd s))), proc := P\<rparr>)"
proof -
  let ?W = "\<lambda>s. wake ChVdiskFree (cproc (mycpu s)) (proc s)"
  let ?f = "\<lambda>i s. s\<lparr>vd := desc_freed i (vd s), proc := ?W s\<rparr>"
  have step: "free_chain_fuel (Suc k) i t = (if d_flags (vd_desc (vd t) i) AND VRING_DESC_F_NEXT \<noteq> 0
      then free_chain_fuel k (unat (d_next (vd_desc (vd t) i))) (?f i t) else Inr (?f i t))"
    if "section_ok t" "i < 8" "\<not> vd_free (vd t) i" for t :: "'a vdstate_scheme" and i k
    using that by (simp add: free_desc_eq Let_def)
  have n: "NUM + 1 = Suc (Suc (Suc 6))" by simp
  have d: "vd_desc (desc_freed i x) j = vd_desc x j" "vd_free (desc_freed i x) j = vd_free x j" if "i \<noteq> j" for i j x
    using that by (simp_all add: desc_freed_def)
  have "free_chain 0 s = free_chain_fuel (Suc (Suc 6)) 1 (?f 0 s)"
    unfolding free_chain_def n using assms by (subst step) simp_all
  also have "\<dots> = free_chain_fuel (Suc 6) 2 (?f 1 (?f 0 s))" using assms by (subst step) (simp_all add: d)
  also have "\<dots> = Inr (?f 2 (?f 1 (?f 0 s)))" using assms by (subst step) (simp_all add: d)
  finally show ?thesis by auto
qed

lemma asked_keeps:
  "vd_used_ring (asked b w bn d) = vd_used_ring d" "vd_used_page_idx (asked b w bn d) = vd_used_page_idx d"
  "vd_used_idx (asked b w bn d) = vd_used_idx d" "vd_info_b (asked b w bn d) 0 = Some b"
  by (simp_all add: asked_def format_req_def set_desc_def Let_def)

lemma asked_desc:
  "vd_free (asked b w bn d) = (vd_free d)(0 := False, 1 := False, 2 := False)"
  "vd_desc (asked b w bn d) 0 = \<lparr>d_addr = DReq 0, d_len = 16, d_flags = VRING_DESC_F_NEXT, d_next = 1\<rparr>"
  "vd_desc (asked b w bn d) (Suc 0) = \<lparr>d_addr = DData b, d_len = of_nat BSIZE,
     d_flags = (if w then 0 else VRING_DESC_F_WRITE) OR VRING_DESC_F_NEXT, d_next = 2\<rparr>"
  "vd_desc (asked b w bn d) 2 = \<lparr>d_addr = DStatus 0, d_len = 1, d_flags = VRING_DESC_F_WRITE, d_next = 0\<rparr>"
  by (simp_all add: asked_def format_req_def set_desc_def Let_def)

lemma asking_fields:
  "bufs (asking b w s) = (bufs s)(b := (bufs s b)\<lparr>b_disk := True\<rparr>)" "disk (asking b w s) = disk s" "dwrites (asking b w s) = dwrites s"
  "vd (asking b w s) = asked b w (b_blockno (bufs s b)) (vd s)" "proc (asking b w s) = proc s"
  by (simp_all add: asking_def)

lemma calm_disk' [simp]: "calm p (s\<lparr>dwrites := x\<rparr>) = calm p s"
  by (simp add: calm_def lk_comm)

lemma serve_fields:
  "vd (serve i0 rq b j s) = (vd s)\<lparr>vd_info_status := (vd_info_status (vd s))(j := 0),
     vd_used_ring := (vd_used_ring (vd s))(unat (vd_used_page_idx (vd s)) mod NUM := of_nat i0), vd_used_page_idx := vd_used_page_idx (vd s) + 1\<rparr>"
  "bufs (serve i0 rq b j s) = (if rq_type rq = VIRTIO_BLK_T_OUT then bufs s else (bufs s)(b := (bufs s b)\<lparr>b_data := disk s (ucast (rq_sector rq div 2))\<rparr>))"
  "disk (serve i0 rq b j s) = (if rq_type rq = VIRTIO_BLK_T_OUT then (disk s)(ucast (rq_sector rq div 2) := b_data (bufs s b)) else disk s)"
  "dwrites (serve i0 rq b j s) = (if rq_type rq = VIRTIO_BLK_T_OUT then dwrites s @ [(ucast (rq_sector rq div 2), b_data (bufs s b))] else dwrites s)"
  "proc (serve i0 rq b j s) = proc s" "calm p (serve i0 rq b j s) = calm p s"
  by (simp_all add: serve_def Let_def upd_buf_def)

lemma rw_wait_done:
  assumes "calm p s" "\<not> b_disk (bufs s b)"
    and "free_chain i ((lk_on VdiskLock s)\<lparr>vd := (vd s)\<lparr>vd_info_b := (vd_info_b (vd s))(i := None)\<rparr>\<rparr>)
      = Inr ((lk_on VdiskLock s)\<lparr>vd := D, proc := P\<rparr>)"
  shows "bnd (acquire VdiskLock s) (rw_wait b i) = Inr (Done (), (lk_cycle s)\<lparr>vd := D, proc := P\<rparr>)"
  using calmD [OF assms(1)] assms(2,3) by (simp add: acquire_free rw_wait_def Let_def lk_comm release_lk_on)


text \<open>A machine with an idle driver, and a device that serves each request.\<close>

definition vdisk0 :: vdisk where
  "vdisk0 = \<lparr>vd_desc_page = 0, vd_avail_page = 0, vd_used_page = 0,
     vd_desc = (\<lambda>_. \<lparr>d_addr = DNull, d_len = 0, d_flags = 0, d_next = 0\<rparr>), vd_avail_idx = 0, vd_avail_ring = (\<lambda>_. 0),
     vd_used_page_idx = 0, vd_used_ring = (\<lambda>_. 0), vd_free = (\<lambda>i. i < NUM), vd_used_idx = 0, vd_info_b = (\<lambda>_. None),
     vd_info_status = (\<lambda>_. 0), vd_ops = (\<lambda>_. \<lparr>rq_type = 0, rq_reserved = 0, rq_sector = 0\<rparr>)\<rparr>"

definition file0 :: file_t where
  "file0 = \<lparr>f_type = FD_NONE, f_ref = 0, f_readable = False, f_writable = False, f_pipe = 0, f_ip = None, f_off = 0, f_major = 0\<rparr>"

definition vd_demo :: vdstate where
  "vd_demo = bio_zero \<lparr>log = log0, sb = superblock0, inodes = (\<lambda>_. inode0), uart_tx_buf = (\<lambda>_. 0), uart_tx_w = 0, uart_tx_r = 0,
     uart_in = [], uart_out = [], uart_room = 1, uart_cfg = [], panicked = False, pr_locking = True, cons_buf = (\<lambda>_. 0),
     cons_r = 0, cons_w = 0, cons_e = 0, files = (\<lambda>_. file0), devsw_read = (\<lambda>_. False), devsw_write = (\<lambda>_. False), stat_pad = [0, 0, 0, 0],
     vd = vdisk0, vregs = (\<lambda>_. 0), vwrites = []\<rparr>"

definition demo_device :: "'a vdstate_scheme \<Rightarrow> 'a vdstate_scheme" where
  "demo_device s = (case request (vd s) of Some (i0, rq, b, j) \<Rightarrow> serve i0 rq b j s | None \<Rightarrow> s)"

lemma vd_demo_ok: "calm 0 vd_demo" "vd_quiet (vd vd_demo)" "virtio_device demo_device" "section_ok (lk_on VdiskLock vd_demo)"
proof -
  show c: "calm 0 vd_demo" by (simp add: vd_demo_def bio_zero_def calm_def cpu_ok_def lk_free_def lock_defs)
  show "vd_quiet (vd vd_demo)" by (simp add: vd_demo_def bio_zero_def vdisk0_def vd_quiet_def)
  show "virtio_device demo_device" by (simp add: virtio_device_def demo_device_def)
  show "section_ok (lk_on VdiskLock vd_demo)" using calm_section [OF c] by simp
qed

theorem free_chain_terminates_witness: "free_chain 3 (lk_on VdiskLock vd_demo) \<noteq> Inl Diverges"
  using free_chain_terminates [OF vd_demo_ok(4)] by blast


end
