(* ===== verification/Trap.thy ===== *)
theory Trap
  imports Proclife Virtio
begin

text \<open>
  Traps: kernel/trap.c, kernel/plic.c, the dispatch of system calls (kernel/syscall.c) and \<open>forkret\<close>
  (kernel/proc.c).

  The supervisor registers of a hart are the fields of \<open>csrs\<close>; the bits SPP and SPIE of \<open>sstatus\<close> are
  flags, its bit SIE is the flag \<open>sie\<close> of the locking layer. The interrupt controller offers the
  interrupts of \<open>plic_pending\<close>; the registers written in it are recorded. Code addresses of the image are
  constants of the state. The functions that return \<open>void\<close> but are called through the table of
  functions returning \<open>uint64\<close> leave \<open>ret_junk\<close> in the result register.

  A handler ends by jumping to \<open>userret\<close> (\<open>Userret\<close>, with the page table register), or gives up
  the hart: asleep in a system call, as a zombie, or in \<open>yield\<close>; what it does after a yield is
  \<open>usertrap_resume\<close>, \<open>kerneltrap_resume\<close>.
\<close>

unbundle bit_operations_syntax

record csrs =
  r_scause :: u64
  r_sepc :: u64
  r_stval :: u64
  r_spp :: bool
  r_spie :: bool
  r_stvec :: u64
  r_satp :: u64
  r_sip :: u64

record tstate = vdstate +
  csr :: "nat \<Rightarrow> csrs"
  plic_pending :: "int list"
  plic_regs :: "(u64 \<times> u32) list"
  forkret_first :: bool
  ret_junk :: u64
  kernelvec_pc :: u64
  usertrap_pc :: u64
  uservec_off :: u64
  userret_off :: u64

definition mycsr :: "'a tstate_scheme \<Rightarrow> csrs" where
  "mycsr s = csr s (hart s)"

definition upd_csr :: "(csrs \<Rightarrow> csrs) \<Rightarrow> 'a tstate_scheme \<Rightarrow> 'a tstate_scheme" where
  "upd_csr f s = s\<lparr>csr := (csr s)(hart s := f (csr s (hart s)))\<rparr>"

section \<open>The interrupt controller\<close>

definition UART0_IRQ :: nat where [simp]: "UART0_IRQ = 10"
definition VIRTIO0_IRQ :: nat where [simp]: "VIRTIO0_IRQ = 1"

definition PLIC_SENABLE :: "nat \<Rightarrow> u64" where "PLIC_SENABLE h = PLIC + 0x2080 + of_nat h * 0x100"
definition PLIC_SPRIORITY :: "nat \<Rightarrow> u64" where "PLIC_SPRIORITY h = PLIC + 0x201000 + of_nat h * 0x2000"
definition PLIC_SCLAIM :: "nat \<Rightarrow> u64" where "PLIC_SCLAIM h = PLIC + 0x201004 + of_nat h * 0x2000"

definition plic_write :: "u64 \<Rightarrow> u32 \<Rightarrow> 'a tstate_scheme \<Rightarrow> 'a tstate_scheme" where
  "plic_write a v s = s\<lparr>plic_regs := plic_regs s @ [(a, v)]\<rparr>"

definition plicinit :: "'a tstate_scheme \<Rightarrow> 'a tstate_scheme" where
  "plicinit s = plic_write (PLIC + of_nat VIRTIO0_IRQ * 4) 1 (plic_write (PLIC + of_nat UART0_IRQ * 4) 1 s)"

definition plicinithart :: "'a tstate_scheme \<Rightarrow> 'a tstate_scheme" where
  "plicinithart s =
     (let h = cpuid s;
          s = plic_write (PLIC_SENABLE h) (push_bit UART0_IRQ 1 OR push_bit VIRTIO0_IRQ 1) s
      in plic_write (PLIC_SPRIORITY h) 0 s)"

definition plic_claim :: "'a tstate_scheme \<Rightarrow> int \<times> 'a tstate_scheme" where
  "plic_claim s = (case plic_pending s of [] \<Rightarrow> (0, s) | irq # irqs \<Rightarrow> (irq, s\<lparr>plic_pending := irqs\<rparr>))"

definition plic_complete :: "int \<Rightarrow> 'a tstate_scheme \<Rightarrow> 'a tstate_scheme" where
  "plic_complete irq s = plic_write (PLIC_SCLAIM (cpuid s)) (word_of_int irq) s"

section \<open>Interrupts\<close>

definition trapinit :: "'a lstate_scheme \<Rightarrow> 'a lstate_scheme" where
  "trapinit s = initlock TicksLock ''time'' s"

definition trapinithart :: "'a tstate_scheme \<Rightarrow> 'a tstate_scheme" where
  "trapinithart s = upd_csr (\<lambda>c. c\<lparr>r_stvec := kernelvec_pc s\<rparr>) s"

definition clockintr :: "'a kstate_scheme \<Rightarrow> fault + 'a kstate_scheme" where
  "clockintr s =
     bnd (acquire TicksLock s) (\<lambda>s.
     bnd (wakeup ChTicks (s\<lparr>ticks := ticks s + 1\<rparr>)) (\<lambda>s. release TicksLock s))"

definition line :: "string \<Rightarrow> string" where "line str = str @ [char_of (10::nat)]"

definition devintr :: "'a tstate_scheme \<Rightarrow> fault + int \<times> 'a tstate_scheme" where
  "devintr s =
     (let scause = r_scause (mycsr s)
      in if scause AND 0x8000000000000000 \<noteq> 0 \<and> scause AND 0xff = 9
         then let (irq, s) = plic_claim s
              in bnd (if irq = int UART0_IRQ then uartintr s
                      else if irq = int VIRTIO0_IRQ then virtio_disk_intr s
                      else if irq \<noteq> 0 then printf (line ''unexpected interrupt irq=%d'') [PInt irq] s
                      else Inr s) (\<lambda>s.
                 Inr (1, if irq \<noteq> 0 then plic_complete irq s else s))
         else if scause = 0x8000000000000001
         then bnd (if cpuid s = 0 then clockintr s else Inr s) (\<lambda>s.
              Inr (2, upd_csr (\<lambda>c. c\<lparr>r_sip := r_sip c AND NOT 2\<rparr>) s))
         else Inr (0, s))"

section \<open>System calls\<close>

datatype sysout = Ret u64 | RetVoid | Waits chan lockid | Exits

definition ret_of :: "fault + u64 \<times> 's \<Rightarrow> fault + sysout \<times> 's" where
  "ret_of m = bnd m (\<lambda>(r, s). Inr (Ret r, s))"

definition void_of :: "fault + 's \<Rightarrow> fault + sysout \<times> 's" where
  "void_of m = bnd m (\<lambda>s. Inr (RetVoid, s))"

fun run_out :: "u64 run \<Rightarrow> sysout" where
  "run_out (Done v) = Ret v"
| "run_out (Blocks ch lk) = Waits ch lk"

definition syscalls :: "nat \<Rightarrow> ('a tstate_scheme \<Rightarrow> fault + sysout \<times> 'a tstate_scheme) option" where
  "syscalls num = map_of [
     (1, \<lambda>s. ret_of (sys_fork s)),
     (2, \<lambda>s. bnd (sys_exit s) (\<lambda>(_, s). Inr (Exits, s))),
     (3, \<lambda>s. bnd (sys_wait s) (\<lambda>(r, s). Inr (run_out r, s))),
     (4, \<lambda>s. ret_of (sys_pipe s)),
     (5, \<lambda>s. ret_of (sys_read s)),
     (6, \<lambda>s. ret_of (sys_kill s)),
     (7, \<lambda>s. ret_of (sys_exec s)),
     (8, \<lambda>s. ret_of (sys_fstat s)),
     (9, \<lambda>s. ret_of (sys_chdir s)),
     (10, \<lambda>s. ret_of (sys_dup s)),
     (11, \<lambda>s. ret_of (sys_getpid s)),
     (12, \<lambda>s. ret_of (sys_sbrk s)),
     (13, \<lambda>s. bnd (sys_sleep s) (\<lambda>((_, _, r), s). Inr (run_out r, s))),
     (14, \<lambda>s. ret_of (sys_uptime s)),
     (15, \<lambda>s. ret_of (sys_open s)),
     (16, \<lambda>s. ret_of (sys_write s)),
     (17, \<lambda>s. ret_of (sys_mknod s)),
     (18, \<lambda>s. ret_of (sys_unlink s)),
     (19, \<lambda>s. ret_of (sys_link s)),
     (20, \<lambda>s. ret_of (sys_mkdir s)),
     (21, \<lambda>s. ret_of (sys_close s)),
     (22, \<lambda>s. ret_of (sys_opendfd s)),
     (23, \<lambda>s. ret_of (sys_shmem_access s)),
     (24, \<lambda>s. ret_of (sys_shmem_count s)),
     (25, \<lambda>s. ret_of (sys_is_top_parent_process s)),
     (26, \<lambda>s. ret_of (sys_shmem_state s)),
     (27, \<lambda>s. void_of (sys_shmem_set_writable s)),
     (28, \<lambda>s. void_of (sys_shmem_set_unwritable s)),
     (29, \<lambda>s. void_of (sys_shmem_set_init_int s)),
     (30, \<lambda>s. void_of (sys_shmem_write_int s)),
     (31, \<lambda>s. ret_of (sys_shmem_read_int s)),
     (32, \<lambda>s. ret_of (sys_shmem_acquire_access s)),
     (33, \<lambda>s. void_of (sys_shmem_release_access s))] num"

text \<open>
  The call number is the register a7 of the trap frame, cut to an \<open>int\<close>. A call that waits or exits has
  no result yet.
\<close>

definition syscall :: "'a tstate_scheme \<Rightarrow> fault + sysout \<times> 'a tstate_scheme" where
  "syscall s =
     bnd (the_proc s) (\<lambda>(p, s).
     let num = int_of_u64 (ld64 (pmem s) (p_trapframe (proc s p) + TF_a 7))
     in case (if num > 0 then syscalls (nat num) else None) of
          Some f \<Rightarrow>
            bnd (f s) (\<lambda>(r, s). case r of
              Ret v \<Rightarrow> Inr (Ret v, set_tf p (TF_a 0) v s)
            | RetVoid \<Rightarrow> Inr (RetVoid, set_tf p (TF_a 0) (ret_junk s) s)
            | _ \<Rightarrow> Inr (r, s))
        | None \<Rightarrow>
            bnd (printf (line ''%d %s: unknown sys call %d'')
                   [PInt (p_pid (proc s p)), PStr (Some (chars_of (p_name (proc s p)))), PInt num] s) (\<lambda>s.
            Inr (Ret (- 1), set_tf p (TF_a 0) (- 1) s)))"

section \<open>Traps\<close>

datatype trapout = Userret u64 | Asleep_in chan lockid | Dead | Yielded bool | Resumed

definition usertrapret :: "'a tstate_scheme \<Rightarrow> fault + trapout \<times> 'a tstate_scheme" where
  "usertrapret s =
     bnd (the_proc s) (\<lambda>(p, s).
     let s = intr_off s;
         s = upd_csr (\<lambda>c. c\<lparr>r_stvec := TRAMPOLINE + uservec_off s\<rparr>) s;
         s = set_tf p TF_kernel_satp (r_satp (mycsr s)) s;
         s = set_tf p TF_kernel_sp (p_kstack (proc s p) + PGSIZE) s;
         s = set_tf p TF_kernel_trap (usertrap_pc s) s;
         s = set_tf p TF_kernel_hartid (of_nat (hart s)) s;
         s = upd_csr (\<lambda>c. c\<lparr>r_spp := False, r_spie := True\<rparr>) s;
         s = upd_csr (\<lambda>c. c\<lparr>r_sepc := ld64 (pmem s) (p_trapframe (proc s p) + TF_epc)\<rparr>) s
     in Inr (Userret (MAKE_SATP (p_pagetable (proc s p))), s))"

definition exit_trap :: "'a tstate_scheme \<Rightarrow> fault + trapout \<times> 'a tstate_scheme" where
  "exit_trap s = bnd (exit (- 1) s) (\<lambda>(_, s). Inr (Dead, s))"

text \<open>From the second test of \<open>killed\<close> on.\<close>

definition usertrap_end :: "nat \<Rightarrow> int \<Rightarrow> 'a tstate_scheme \<Rightarrow> fault + trapout \<times> 'a tstate_scheme" where
  "usertrap_end p which_dev s =
     bnd (killed p s) (\<lambda>(k, s).
     if k \<noteq> 0 then exit_trap s
     else if which_dev = 2 then bnd (yield_enter s) (\<lambda>(ie, s). Inr (Yielded ie, s))
     else usertrapret s)"

definition usertrap_syscall :: "nat \<Rightarrow> 'a tstate_scheme \<Rightarrow> fault + trapout \<times> 'a tstate_scheme" where
  "usertrap_syscall p s =
     bnd (killed p s) (\<lambda>(k, s).
     if k \<noteq> 0 then exit_trap s
     else let s = set_tf p TF_epc (ld64 (pmem s) (p_trapframe (proc s p) + TF_epc) + 4) s
          in bnd (syscall (intr_on s)) (\<lambda>(r, s). case r of
               Waits ch lk \<Rightarrow> Inr (Asleep_in ch lk, s)
             | Exits \<Rightarrow> Inr (Dead, s)
             | _ \<Rightarrow> usertrap_end p 0 s))"

definition usertrap :: "'a tstate_scheme \<Rightarrow> fault + trapout \<times> 'a tstate_scheme" where
  "usertrap s =
     (if r_spp (mycsr s) then Inl (Panic ''usertrap: not from user mode'')
      else let s = upd_csr (\<lambda>c. c\<lparr>r_stvec := kernelvec_pc s\<rparr>) s
           in bnd (the_proc s) (\<lambda>(p, s).
              let s = set_tf p TF_epc (r_sepc (mycsr s)) s
              in if r_scause (mycsr s) = 8 then usertrap_syscall p s
                 else bnd (devintr s) (\<lambda>(which_dev, s).
                      if which_dev \<noteq> 0 then usertrap_end p which_dev s
                      else bnd (printf (line ''usertrap(): unexpected scause %p pid=%d'')
                                  [PPtr (r_scause (mycsr s)), PInt (p_pid (proc s p))] s) (\<lambda>s.
                           bnd (printf (line ''            sepc=%p stval=%p'')
                                  [PPtr (r_sepc (mycsr s)), PPtr (r_stval (mycsr s))] s) (\<lambda>s.
                           bnd (setkilled p s) (\<lambda>s. usertrap_end p which_dev s))))))"

text \<open>After \<open>yield\<close> returns.\<close>

definition usertrap_resume :: "nat \<Rightarrow> bool \<Rightarrow> 'a tstate_scheme \<Rightarrow> fault + trapout \<times> 'a tstate_scheme" where
  "usertrap_resume p ie s = bnd (yield_resume p ie s) (\<lambda>s. usertrapret s)"

definition forkret :: "'a tstate_scheme \<Rightarrow> fault + trapout \<times> 'a tstate_scheme" where
  "forkret s =
     bnd (the_proc s) (\<lambda>(p, s).
     bnd (release (ProcLock p) s) (\<lambda>s.
     bnd (if forkret_first s then fsinit (uint ROOTDEV) (s\<lparr>forkret_first := False\<rparr>) else Inr s) (\<lambda>s.
     usertrapret s)))"

text \<open>\<open>kerneltrap\<close>: the interrupted \<open>sepc\<close> and \<open>sstatus\<close> are put back at the end.\<close>

definition restore_trap :: "csrs \<Rightarrow> 'a tstate_scheme \<Rightarrow> 'a tstate_scheme" where
  "restore_trap old s =
     intr_off (upd_csr (\<lambda>c. c\<lparr>r_sepc := r_sepc old, r_spp := r_spp old, r_spie := r_spie old\<rparr>) s)"

definition kerneltrap :: "'a tstate_scheme \<Rightarrow> fault + trapout \<times> 'a tstate_scheme" where
  "kerneltrap s =
     (let old = mycsr s
      in if \<not> r_spp old then Inl (Panic ''kerneltrap: not from supervisor mode'')
         else if intr_get s then Inl (Panic ''kerneltrap: interrupts enabled'')
         else bnd (devintr s) (\<lambda>(which_dev, s).
              if which_dev = 0
              then bnd (printf (line ''scause %p'') [PPtr (r_scause old)] s) (\<lambda>s.
                   bnd (printf (line ''sepc=%p stval=%p'') [PPtr (r_sepc (mycsr s)), PPtr (r_stval (mycsr s))] s) (\<lambda>s.
                   Inl (Panic ''kerneltrap'')))
              else bnd (if which_dev = 2 then myproc s else Inr (None, s)) (\<lambda>(p, s).
                   if which_dev = 2 \<and> (case p of None \<Rightarrow> False | Some p \<Rightarrow> p_state (proc s p) = RUNNING)
                   then bnd (yield_enter s) (\<lambda>(ie, s). Inr (Yielded ie, s))
                   else Inr (Resumed, restore_trap old s))))"

definition kerneltrap_resume :: "nat \<Rightarrow> bool \<Rightarrow> csrs \<Rightarrow> 'a tstate_scheme \<Rightarrow> fault + trapout \<times> 'a tstate_scheme" where
  "kerneltrap_resume p ie old s = bnd (yield_resume p ie s) (\<lambda>s. Inr (Resumed, restore_trap old s))"

end
