(* ===== verification/Boot.thy ===== *)
theory Boot
  imports Trap
begin

text \<open>
  Booting: kernel/start.c (machine mode, once per hart), \<open>kvminithart\<close> of kernel/vm.c and kernel/main.c.

  \<open>start\<close> works on the machine-mode registers of its hart and on the words it writes to the timer and
  to \<open>timer_scratch\<close>. \<open>main\<close> runs on hart 0 up to \<open>started = 1\<close>, on the others after it; both end in
  the scheduler.
\<close>

unbundle bit_operations_syntax

section \<open>start.c\<close>

record mregs =
  m_mstatus :: u64
  m_mepc :: u64
  m_satp :: u64
  m_medeleg :: u64
  m_mideleg :: u64
  m_sie :: u64
  m_pmpaddr0 :: u64
  m_pmpcfg0 :: u64
  m_mscratch :: u64
  m_mtvec :: u64
  m_mie :: u64
  m_mhartid :: u64
  m_tp :: u64
  m_mtime :: u64
  m_mtimecmp :: "nat \<Rightarrow> u64"
  m_scratch :: "nat \<Rightarrow> nat \<Rightarrow> u64"

definition CLINT :: u64 where "CLINT = 0x2000000"
definition CLINT_MTIMECMP :: "nat \<Rightarrow> u64" where "CLINT_MTIMECMP h = CLINT + 0x4000 + 8 * of_nat h"

definition MSTATUS_MPP_MASK :: u64 where "MSTATUS_MPP_MASK = push_bit 11 3"
definition MSTATUS_MPP_S :: u64 where "MSTATUS_MPP_S = push_bit 11 1"
definition MSTATUS_MIE :: u64 where "MSTATUS_MIE = push_bit 3 1"
definition SIE_SEIE :: u64 where "SIE_SEIE = push_bit 9 1"
definition SIE_STIE :: u64 where "SIE_STIE = push_bit 5 1"
definition SIE_SSIE :: u64 where "SIE_SSIE = push_bit 1 1"
definition MIE_MTIE :: u64 where "MIE_MTIE = push_bit 7 1"

definition timerinit :: "u64 \<Rightarrow> u64 \<Rightarrow> mregs \<Rightarrow> mregs" where
  "timerinit timervec_pc timer_scratch m =
     (let h = unat (m_mhartid m); interval = 1000000;
          m = m\<lparr>m_mtimecmp := (m_mtimecmp m)(h := m_mtime m + interval)\<rparr>;
          m = m\<lparr>m_scratch := (m_scratch m)(h := (m_scratch m h)(3 := CLINT_MTIMECMP h, 4 := interval))\<rparr>;
          m = m\<lparr>m_mscratch := timer_scratch + of_nat (40 * h)\<rparr>;
          m = m\<lparr>m_mtvec := timervec_pc\<rparr>;
          m = m\<lparr>m_mstatus := m_mstatus m OR MSTATUS_MIE\<rparr>
      in m\<lparr>m_mie := m_mie m OR MIE_MTIE\<rparr>)"

definition start :: "u64 \<Rightarrow> u64 \<Rightarrow> u64 \<Rightarrow> mregs \<Rightarrow> mregs" where
  "start main_pc timervec_pc timer_scratch m =
     (let x = m_mstatus m; x = x AND NOT MSTATUS_MPP_MASK; x = x OR MSTATUS_MPP_S;
          m = m\<lparr>m_mstatus := x\<rparr>;
          m = m\<lparr>m_mepc := main_pc\<rparr>;
          m = m\<lparr>m_satp := 0\<rparr>;
          m = m\<lparr>m_medeleg := 0xffff, m_mideleg := 0xffff\<rparr>;
          m = m\<lparr>m_sie := m_sie m OR SIE_SEIE OR SIE_STIE OR SIE_SSIE\<rparr>;
          m = m\<lparr>m_pmpaddr0 := 0x3fffffffffffff, m_pmpcfg0 := 0xf\<rparr>;
          m = timerinit timervec_pc timer_scratch m
      in m\<lparr>m_tp := scast (ucast (m_mhartid m) :: u32)\<rparr>)"

section \<open>main.c\<close>

definition kvminithart :: "'a tstate_scheme \<Rightarrow> 'a tstate_scheme" where
  "kvminithart s = upd_csr (\<lambda>c. c\<lparr>r_satp := MAKE_SATP (kernel_pagetable s)\<rparr>) s"

definition shmem_pages :: "'a pstate_scheme \<Rightarrow> fault + 'a pstate_scheme" where
  "shmem_pages s =
     for_each [0..<SHMEM] (\<lambda>i s. bnd (kalloc s) (\<lambda>(pa, s). Inr (safe_physical_address pa i s))) s"

text \<open>Hart 0, up to \<open>started = 1\<close>.\<close>

definition main_boot :: "'a tstate_scheme \<Rightarrow> fault + 'a tstate_scheme" where
  "main_boot s =
     (let s = consoleinit s; s = printfinit s
      in bnd (printf (line '''') [] s) (\<lambda>s.
         bnd (printf (line ''xv6 kernel is booting'') [] s) (\<lambda>s.
         bnd (printf (line '''') [] s) (\<lambda>s.
         bnd (kinit s) (\<lambda>s.
         bnd (kvminit s) (\<lambda>s.
         let s = kvminithart s;
             s = procinit s;
             s = trapinit s;
             s = trapinithart s;
             s = plicinit s;
             s = plicinithart s;
             s = binit s;
             s = iinit s;
             s = fileinit s
         in bnd (virtio_disk_init s) (\<lambda>s.
            bnd (shmem_pages s) (\<lambda>s. userinit s))))))))"

text \<open>The other harts, after \<open>started\<close>.\<close>

definition main_other :: "'a tstate_scheme \<Rightarrow> fault + 'a tstate_scheme" where
  "main_other s =
     bnd (printf (line ''hart %d starting'') [PInt (int (cpuid s))] s) (\<lambda>s.
     Inr (plicinithart (trapinithart (kvminithart s))))"

definition main :: "bool \<Rightarrow> 'a tstate_scheme \<Rightarrow> fault + bool \<times> (nat \<times> nat list) option \<times> 'a tstate_scheme" where
  "main started s =
     (if cpuid s = 0
      then bnd (main_boot s) (\<lambda>s. bnd (scheduler s) (\<lambda>(r, s). Inr (True, r, s)))
      else if started then bnd (main_other s) (\<lambda>s. bnd (scheduler s) (\<lambda>(r, s). Inr (started, r, s)))
      else Inl Diverges)"

end
