(* ===== verification/Asm.thy ===== *)
theory Asm
  imports Proc
begin

text \<open>
  The assembly code of the kernel: kernel/trampoline.S (\<open>uservec\<close>, \<open>userret\<close>), kernel/swtch.S,
  kernel/kernelvec.S (\<open>kernelvec\<close>, \<open>timervec\<close>) and kernel/entry.S, instruction by instruction, with the
  semantics of the instructions they use.

  The code is straight-line. A load or store goes through the page table that \<open>satp\<close> names: \<open>tr\<close> is
  the translation of the machine, from the value of \<open>satp\<close> and a virtual address to a physical one. An
  access is 8 bytes at an aligned address, so it lies in one page.
\<close>

datatype reg = RA | SP | GP | TP | T0 | T1 | T2 | S0 | S1 | A0 | A1 | A2 | A3 | A4 | A5 | A6 | A7
  | S2 | S3 | S4 | S5 | S6 | S7 | S8 | S9 | S10 | S11 | T3 | T4 | T5 | T6

datatype csrname = Satp | Sscratch | Mscratch | Sip | Mhartid | Sepc | Mepc

datatype instr = SD reg u64 reg | LD reg u64 reg | LI reg u64 | ADD reg reg reg | ADDI reg reg u64
  | MUL reg reg reg | CSRR reg csrname | CSRW csrname reg | CSRRW reg csrname reg | SFENCE_VMA
  | JR reg | RET | SRET | MRET | CALL string

datatype target = Next | Addr u64 | Symbol string

record machine =
  regs :: "reg \<Rightarrow> u64"
  scsr :: "csrname \<Rightarrow> u64"
  amem :: memory
  jump :: target

type_synonym translation = "u64 \<Rightarrow> u64 \<Rightarrow> u64"

definition set_reg :: "reg \<Rightarrow> u64 \<Rightarrow> machine \<Rightarrow> machine" where
  "set_reg r v m = m\<lparr>regs := (regs m)(r := v)\<rparr>"

definition set_csr :: "csrname \<Rightarrow> u64 \<Rightarrow> machine \<Rightarrow> machine" where
  "set_csr c v m = m\<lparr>scsr := (scsr m)(c := v)\<rparr>"

fun step :: "translation \<Rightarrow> instr \<Rightarrow> machine \<Rightarrow> machine" where
  "step tr (SD r off b) m = m\<lparr>amem := st64 (amem m) (tr (scsr m Satp) (regs m b + off)) (regs m r)\<rparr>"
| "step tr (LD r off b) m = set_reg r (ld64 (amem m) (tr (scsr m Satp) (regs m b + off))) m"
| "step tr (LI r v) m = set_reg r v m"
| "step tr (ADD r a b) m = set_reg r (regs m a + regs m b) m"
| "step tr (ADDI r a v) m = set_reg r (regs m a + v) m"
| "step tr (MUL r a b) m = set_reg r (regs m a * regs m b) m"
| "step tr (CSRR r c) m = set_reg r (scsr m c) m"
| "step tr (CSRW c r) m = set_csr c (regs m r) m"
| "step tr (CSRRW rd c rs) m = set_reg rd (scsr m c) (set_csr c (regs m rs) m)"
| "step tr SFENCE_VMA m = m"
| "step tr (JR r) m = m\<lparr>jump := Addr (regs m r)\<rparr>"
| "step tr RET m = m\<lparr>jump := Addr (regs m RA)\<rparr>"
| "step tr SRET m = m\<lparr>jump := Addr (scsr m Sepc)\<rparr>"
| "step tr MRET m = m\<lparr>jump := Addr (scsr m Mepc)\<rparr>"
| "step tr (CALL f) m = m\<lparr>jump := Symbol f\<rparr>"

definition run_code :: "translation \<Rightarrow> instr list \<Rightarrow> machine \<Rightarrow> machine" where
  "run_code tr code m = fold (step tr) code m"

section \<open>trampoline.S\<close>

definition uservec :: "instr list" where
  "uservec = [
     CSRW Sscratch A0, LI A0 TRAPFRAME,
     SD RA 40 A0, SD SP 48 A0, SD GP 56 A0, SD TP 64 A0,
     SD T0 72 A0, SD T1 80 A0, SD T2 88 A0, SD S0 96 A0, SD S1 104 A0, SD A1 120 A0, SD A2 128 A0,
     SD A3 136 A0, SD A4 144 A0, SD A5 152 A0, SD A6 160 A0, SD A7 168 A0, SD S2 176 A0, SD S3 184 A0,
     SD S4 192 A0, SD S5 200 A0, SD S6 208 A0, SD S7 216 A0, SD S8 224 A0, SD S9 232 A0, SD S10 240 A0,
     SD S11 248 A0, SD T3 256 A0, SD T4 264 A0, SD T5 272 A0, SD T6 280 A0,
     CSRR T0 Sscratch, SD T0 112 A0,
     LD SP 8 A0, LD TP 32 A0, LD T0 16 A0, LD T1 0 A0,
     SFENCE_VMA, CSRW Satp T1, SFENCE_VMA, JR T0]"

definition userret :: "instr list" where
  "userret = [
     SFENCE_VMA, CSRW Satp A0, SFENCE_VMA, LI A0 TRAPFRAME,
     LD RA 40 A0, LD SP 48 A0, LD GP 56 A0, LD TP 64 A0, LD T0 72 A0, LD T1 80 A0, LD T2 88 A0,
     LD S0 96 A0, LD S1 104 A0, LD A1 120 A0, LD A2 128 A0, LD A3 136 A0, LD A4 144 A0, LD A5 152 A0,
     LD A6 160 A0, LD A7 168 A0, LD S2 176 A0, LD S3 184 A0, LD S4 192 A0, LD S5 200 A0, LD S6 208 A0,
     LD S7 216 A0, LD S8 224 A0, LD S9 232 A0, LD S10 240 A0, LD S11 248 A0, LD T3 256 A0, LD T4 264 A0,
     LD T5 272 A0, LD T6 280 A0, LD A0 112 A0, SRET]"

section \<open>swtch.S\<close>

definition swtch :: "instr list" where
  "swtch = [
     SD RA 0 A0, SD SP 8 A0, SD S0 16 A0, SD S1 24 A0, SD S2 32 A0, SD S3 40 A0, SD S4 48 A0,
     SD S5 56 A0, SD S6 64 A0, SD S7 72 A0, SD S8 80 A0, SD S9 88 A0, SD S10 96 A0, SD S11 104 A0,
     LD RA 0 A1, LD SP 8 A1, LD S0 16 A1, LD S1 24 A1, LD S2 32 A1, LD S3 40 A1, LD S4 48 A1,
     LD S5 56 A1, LD S6 64 A1, LD S7 72 A1, LD S8 80 A1, LD S9 88 A1, LD S10 96 A1, LD S11 104 A1,
     RET]"

section \<open>kernelvec.S\<close>

text \<open>The part before the call of \<open>kerneltrap\<close> and the part after it.\<close>

definition kernelvec_save :: "instr list" where
  "kernelvec_save = [
     ADDI SP SP (- 256),
     SD RA 0 SP, SD SP 8 SP, SD GP 16 SP, SD TP 24 SP, SD T0 32 SP, SD T1 40 SP,
     SD T2 48 SP, SD S0 56 SP, SD S1 64 SP, SD A0 72 SP, SD A1 80 SP, SD A2 88 SP, SD A3 96 SP,
     SD A4 104 SP, SD A5 112 SP, SD A6 120 SP, SD A7 128 SP, SD S2 136 SP, SD S3 144 SP, SD S4 152 SP,
     SD S5 160 SP, SD S6 168 SP, SD S7 176 SP, SD S8 184 SP, SD S9 192 SP, SD S10 200 SP, SD S11 208 SP,
     SD T3 216 SP, SD T4 224 SP, SD T5 232 SP, SD T6 240 SP, CALL ''kerneltrap'']"

definition kernelvec_restore :: "instr list" where
  "kernelvec_restore = [
     LD RA 0 SP, LD SP 8 SP,
     LD GP 16 SP, LD T0 32 SP, LD T1 40 SP, LD T2 48 SP, LD S0 56 SP, LD S1 64 SP, LD A0 72 SP,
     LD A1 80 SP, LD A2 88 SP, LD A3 96 SP, LD A4 104 SP, LD A5 112 SP, LD A6 120 SP, LD A7 128 SP,
     LD S2 136 SP, LD S3 144 SP, LD S4 152 SP, LD S5 160 SP, LD S6 168 SP, LD S7 176 SP, LD S8 184 SP,
     LD S9 192 SP, LD S10 200 SP, LD S11 208 SP, LD T3 216 SP, LD T4 224 SP, LD T5 232 SP, LD T6 240 SP,
     ADDI SP SP 256, SRET]"

definition timervec :: "instr list" where
  "timervec = [
     CSRRW A0 Mscratch A0, SD A1 0 A0, SD A2 8 A0, SD A3 16 A0,
     LD A1 24 A0, LD A2 32 A0, LD A3 0 A1, ADD A3 A3 A2, SD A3 0 A1,
     LI A1 2, CSRW Sip A1,
     LD A3 16 A0, LD A2 8 A0, LD A1 0 A0, CSRRW A0 Mscratch A0, MRET]"

section \<open>entry.S\<close>

definition entry :: "u64 \<Rightarrow> instr list" where
  "entry stack0 = [
     LI SP stack0, LI A0 4096, CSRR A1 Mhartid, ADDI A1 A1 1, MUL A0 A0 A1, ADD SP SP A0, CALL ''start'']"

section \<open>Saving and restoring registers\<close>

text \<open>
  Both the trap code and \<open>swtch\<close> store registers at fixed offsets from a base register and load them
  back later. \<open>slots\<close> are well placed if the offsets are different multiples of 8.
\<close>

definition SDs :: "(reg \<times> nat) list \<Rightarrow> reg \<Rightarrow> instr list" where
  "SDs ps b = map (\<lambda>(r, off). SD r (of_nat off) b) ps"

definition LDs :: "(reg \<times> nat) list \<Rightarrow> reg \<Rightarrow> instr list" where
  "LDs ps b = map (\<lambda>(r, off). LD r (of_nat off) b) ps"

definition slots :: "(reg \<times> nat) list \<Rightarrow> bool" where
  "slots ps \<longleftrightarrow> distinct (map snd ps) \<and> (\<forall>off \<in> set (map snd ps). off mod 8 = 0 \<and> off < 4096)"

definition saves :: "u64 \<Rightarrow> (reg \<Rightarrow> u64) \<Rightarrow> (reg \<times> nat) list \<Rightarrow> memory \<Rightarrow> memory" where
  "saves base v ps M = fold (\<lambda>(r, off) M. st64 M (base + of_nat off) (v r)) ps M"

definition loads :: "u64 \<Rightarrow> memory \<Rightarrow> (reg \<times> nat) list \<Rightarrow> (reg \<Rightarrow> u64) \<Rightarrow> (reg \<Rightarrow> u64)" where
  "loads base M ps R = fold (\<lambda>(r, off) R. R(r := ld64 M (base + of_nat off))) ps R"

text \<open>The page the code accesses through \<open>va\<close> is the one at \<open>pa\<close>.\<close>

definition maps_page :: "translation \<Rightarrow> u64 \<Rightarrow> u64 \<Rightarrow> u64 \<Rightarrow> bool" where
  "maps_page tr satp va pa \<longleftrightarrow> (\<forall>off < 4096. tr satp (va + of_nat off) = pa + of_nat off)"

lemma run_code_simps [simp]:
  "run_code tr [] m = m"
  "run_code tr (i # is) m = run_code tr is (step tr i m)"
  "run_code tr (is @ js) m = run_code tr js (run_code tr is m)"
  by (simp_all add: run_code_def)

lemma run_SDs:
  assumes "maps_page tr (scsr m Satp) (regs m b) pa" and "slots ps"
  shows "run_code tr (SDs ps b) m = m\<lparr>amem := saves pa (regs m) ps (amem m)\<rparr>"
  using assms
proof (induction ps arbitrary: m)
  case (Cons p ps)
  obtain r off where p: "p = (r, off)" by (cases p)
  have off: "off < 4096" using Cons.prems(2) p by (simp add: slots_def)
  have "slots ps" using Cons.prems(2) by (simp add: slots_def)
  then show ?case using Cons.IH [of "step tr (SD r (of_nat off) b) m"] Cons.prems(1) off
    by (simp add: p SDs_def saves_def maps_page_def)
qed (simp add: SDs_def saves_def)

lemma run_LDs:
  assumes "maps_page tr (scsr m Satp) (regs m b) pa" and "slots ps" and "b \<notin> fst ` set ps"
  shows "run_code tr (LDs ps b) m = m\<lparr>regs := loads pa (amem m) ps (regs m)\<rparr>"
  using assms
proof (induction ps arbitrary: m)
  case (Cons p ps)
  obtain r off where p: "p = (r, off)" by (cases p)
  have off: "off < 4096" using Cons.prems(2) p by (simp add: slots_def)
  have at: "tr (scsr m Satp) (regs m b + of_nat off) = pa + of_nat off"
    using Cons.prems(1) off by (simp add: maps_page_def)
  let ?m = "step tr (LD r (of_nat off) b) m"
  have m: "regs ?m = (regs m)(r := ld64 (amem m) (pa + of_nat off))" "amem ?m = amem m" "scsr ?m = scsr m"
    by (simp_all add: set_reg_def at)
  have "run_code tr (LDs (p # ps) b) m = run_code tr (LDs ps b) ?m" by (simp add: LDs_def p)
  also have "\<dots> = ?m\<lparr>regs := loads pa (amem ?m) ps (regs ?m)\<rparr>"
    using Cons.prems m by (intro Cons.IH) (auto simp: slots_def p)
  also have "\<dots> = m\<lparr>regs := loads pa (amem m) (p # ps) (regs m)\<rparr>"
    unfolding m by (simp add: set_reg_def loads_def p)
  finally show ?case .
qed (simp add: LDs_def loads_def)

lemma disj_rngI:
  assumes "\<And>x y. x < n \<Longrightarrow> y < k \<Longrightarrow> a + of_nat x \<noteq> b + of_nat y" and "n \<le> 2 ^ 64" and "k \<le> 2 ^ 64"
  shows "disj_rng a n b k"
  unfolding disj_rng_def in_rng_iff [OF assms(2)] in_rng_iff [OF assms(3)] using assms(1) by metis

lemma slots_disj:
  assumes "i mod 8 = 0" "j mod 8 = 0" "i < 4096" "j < 4096" "i \<noteq> (j :: nat)"
  shows "disj_rng (base + of_nat i) 8 (base + of_nat j) 8"
proof -
  obtain a c where ac: "i = 8 * a" "j = 8 * c" using assms(1,2) by (auto elim!: dvdE simp: mod_0_imp_dvd)
  have ne: "base + of_nat i + of_nat x \<noteq> base + of_nat j + (of_nat y :: u64)" if "x < 8" "y < 8" for x y :: nat
  proof
    assume "base + of_nat i + of_nat x = base + of_nat j + (of_nat y :: u64)"
    then have "(of_nat (i + x) :: u64) = of_nat (j + y)" by (simp add: add.assoc)
    then have "unat (of_nat (i + x) :: u64) = unat (of_nat (j + y) :: u64)" by (rule arg_cong)
    then have "(i + x) mod 2 ^ LENGTH(64) = (j + y) mod 2 ^ LENGTH(64)" by (simp only: unat_of_nat)
    then have "i + x = j + y" using that assms(3,4) by simp
    then show False using that ac assms(5) by arith
  qed
  show ?thesis by (rule disj_rngI [OF ne]) auto
qed

lemma saves_outside: "(\<forall>(r, off) \<in> set ps. \<not> in_rng (base + of_nat off) 8 x) \<Longrightarrow> saves base v ps M x = M x"
  by (induction ps arbitrary: M) (auto simp: saves_def st64_outside)

lemma ld_saves_other:
  assumes "slots ps" and "off \<notin> set (map snd ps)" and "off mod 8 = 0" and "off < 4096"
  shows "ld64 (saves base v ps M) (base + of_nat off) = ld64 M (base + of_nat off)"
  using assms
proof (induction ps arbitrary: M)
  case (Cons p ps)
  obtain r o' where p: "p = (r, o')" by (cases p)
  have "disj_rng (base + of_nat o') 8 (base + of_nat off) 8"
    using Cons.prems p by (intro slots_disj) (auto simp: slots_def)
  then have "ld64 (st64 M (base + of_nat o') (v r)) (base + of_nat off) = ld64 M (base + of_nat off)"
    by (rule ld64_st64_other)
  moreover have "slots ps" using Cons.prems(1) by (simp add: slots_def)
  ultimately show ?case
    using Cons.IH [of "st64 M (base + of_nat o') (v r)"] Cons.prems p by (simp add: saves_def)
qed (simp add: saves_def)

lemma ld_saves:
  assumes "slots ps" and "(r, off) \<in> set ps"
  shows "ld64 (saves base v ps M) (base + of_nat off) = v r"
  using assms
proof (induction ps arbitrary: M)
  case (Cons p ps)
  have ps: "slots ps" using Cons.prems(1) by (simp add: slots_def)
  show ?case
  proof (cases "(r, off) \<in> set ps")
    case True
    then show ?thesis using Cons.IH [of "(\<lambda>(r, off) M. st64 M (base + of_nat off) (v r)) p M"] ps
      by (simp add: saves_def)
  next
    case False
    then have p: "p = (r, off)" using Cons.prems(2) by auto
    then have "off \<notin> set (map snd ps)" "off mod 8 = 0" "off < 4096"
      using Cons.prems(1) by (auto simp: slots_def)
    then show ?thesis using ld_saves_other [OF ps, of off base v "st64 M (base + of_nat off) (v r)"] p
      by (simp add: saves_def)
  qed
qed simp

lemma loads_other: "r \<notin> fst ` set ps \<Longrightarrow> loads base M ps R r = R r"
  by (induction ps arbitrary: R) (auto simp: loads_def)

lemma loads_at:
  assumes "distinct (map fst ps)" and "(r, off) \<in> set ps"
  shows "loads base M ps R r = ld64 M (base + of_nat off)"
  using assms
proof (induction ps arbitrary: R)
  case (Cons p ps)
  show ?case
  proof (cases "(r, off) \<in> set ps")
    case True
    then show ?thesis using Cons by (simp add: loads_def)
  next
    case False
    then have p: "p = (r, off)" "r \<notin> fst ` set ps" using Cons.prems by force+
    then show ?thesis using loads_other [OF p(2), of base M "R(r := ld64 M (base + of_nat off))"]
      by (simp add: loads_def)
  qed
qed simp

section \<open>The trampoline\<close>

text \<open>The slot of each register in the trap frame, apart from \<open>a0\<close>, and with it.\<close>

definition tf_slots :: "(reg \<times> nat) list" where
  "tf_slots = [(RA, 40), (SP, 48), (GP, 56), (TP, 64), (T0, 72), (T1, 80), (T2, 88), (S0, 96), (S1, 104),
     (A1, 120), (A2, 128), (A3, 136), (A4, 144), (A5, 152), (A6, 160), (A7, 168), (S2, 176), (S3, 184),
     (S4, 192), (S5, 200), (S6, 208), (S7, 216), (S8, 224), (S9, 232), (S10, 240), (S11, 248), (T3, 256),
     (T4, 264), (T5, 272), (T6, 280)]"

definition tf_off :: "reg \<Rightarrow> nat" where
  "tf_off r = the (map_of ((A0, 112) # tf_slots) r)"

lemma uservec_split:
  "uservec = [CSRW Sscratch A0, LI A0 TRAPFRAME] @ SDs tf_slots A0 @ [CSRR T0 Sscratch] @ SDs [(T0, 112)] A0
     @ LDs [(SP, 8), (TP, 32), (T0, 16), (T1, 0)] A0 @ [SFENCE_VMA, CSRW Satp T1, SFENCE_VMA, JR T0]"
  by (simp add: uservec_def SDs_def LDs_def tf_slots_def)

lemma userret_split:
  "userret = [SFENCE_VMA, CSRW Satp A0, SFENCE_VMA, LI A0 TRAPFRAME] @ LDs tf_slots A0 @ [LD A0 112 A0, SRET]"
  by (simp add: userret_def LDs_def tf_slots_def)

lemma tf_slots_ok: "slots tf_slots" "distinct (map fst tf_slots)" "A0 \<notin> fst ` set tf_slots"
  "(112 :: nat) \<notin> set (map snd tf_slots)"
  by (simp_all add: slots_def tf_slots_def)

lemma tf_slots_all: "r \<noteq> A0 \<Longrightarrow> (r, tf_off r) \<in> set tf_slots"
  by (cases r) (simp_all add: tf_off_def tf_slots_def)

lemma tf_off_A0: "tf_off A0 = 112"
  by (simp add: tf_off_def)

lemma uservec_eq:
  assumes mp: "maps_page tr (scsr m Satp) TRAPFRAME tf"
  defines "M \<equiv> st64 (saves tf (regs m) tf_slots (amem m)) (tf + 112) (regs m A0)"
  shows "run_code tr uservec m = m\<lparr>
     regs := (regs m)(A0 := TRAPFRAME, SP := ld64 M (tf + 8), TP := ld64 M (tf + 32), T0 := ld64 M (tf + 16), T1 := ld64 M tf),
     scsr := (scsr m)(Sscratch := regs m A0, Satp := ld64 M tf), amem := M, jump := Addr (ld64 M (tf + 16))\<rparr>"
proof -
  let ?m0 = "set_reg A0 TRAPFRAME (set_csr Sscratch (regs m A0) m)"
  have v: "saves tf (regs ?m0) tf_slots (amem m) = saves tf (regs m) tf_slots (amem m)"
    using tf_slots_ok(3) unfolding saves_def set_reg_def set_csr_def by (intro fold_cong) force+
  have 1: "run_code tr (SDs tf_slots A0) ?m0 = ?m0\<lparr>amem := saves tf (regs m) tf_slots (amem m)\<rparr>"
    using run_SDs [of tr ?m0 A0 tf tf_slots] mp tf_slots_ok(1) v by (simp add: set_reg_def set_csr_def)
  let ?m1 = "set_reg T0 (regs m A0) (?m0\<lparr>amem := saves tf (regs m) tf_slots (amem m)\<rparr>)"
  have 2: "run_code tr (SDs [(T0, 112)] A0) ?m1 = ?m1\<lparr>amem := M\<rparr>"
    using run_SDs [of tr ?m1 A0 tf "[(T0, 112)]"] mp
    by (simp add: set_reg_def set_csr_def slots_def saves_def M_def)
  have 3: "run_code tr (LDs [(SP, 8), (TP, 32), (T0, 16), (T1, 0)] A0) (?m1\<lparr>amem := M\<rparr>)
      = ?m1\<lparr>amem := M, regs := loads tf M [(SP, 8), (TP, 32), (T0, 16), (T1, 0)] (regs ?m1)\<rparr>"
    using run_LDs [of tr "?m1\<lparr>amem := M\<rparr>" A0 tf "[(SP, 8), (TP, 32), (T0, 16), (T1, 0)]"] mp
    by (simp add: set_reg_def set_csr_def slots_def)
  have "run_code tr uservec m = run_code tr [SFENCE_VMA, CSRW Satp T1, SFENCE_VMA, JR T0]
      (run_code tr (LDs [(SP, 8), (TP, 32), (T0, 16), (T1, 0)] A0) (run_code tr (SDs [(T0, 112)] A0)
        (step tr (CSRR T0 Sscratch) (run_code tr (SDs tf_slots A0) ?m0))))"
    by (simp add: uservec_split)
  also have "step tr (CSRR T0 Sscratch) (run_code tr (SDs tf_slots A0) ?m0) = ?m1"
    unfolding 1 by (simp add: set_reg_def set_csr_def)
  finally show ?thesis unfolding 2 3 by (simp add: set_reg_def set_csr_def loads_def fun_upd_twist)
qed

lemma userret_eq:
  assumes "maps_page tr (regs m A0) TRAPFRAME tf"
  shows "run_code tr userret m = m\<lparr>regs := (\<lambda>r. ld64 (amem m) (tf + of_nat (tf_off r))),
     scsr := (scsr m)(Satp := regs m A0), jump := Addr (scsr m Sepc)\<rparr>"
proof -
  let ?m0 = "set_reg A0 TRAPFRAME (set_csr Satp (regs m A0) m)"
  let ?m1 = "?m0\<lparr>regs := loads tf (amem m) tf_slots (regs ?m0)\<rparr>"
  have 1: "run_code tr (LDs tf_slots A0) ?m0 = ?m1"
    using run_LDs [of tr ?m0 A0 tf tf_slots] assms tf_slots_ok by (simp add: set_reg_def set_csr_def)
  have A0: "regs ?m1 A0 = TRAPFRAME" using tf_slots_ok(3) by (simp add: loads_other set_reg_def)
  have at: "tr (scsr ?m1 Satp) (TRAPFRAME + 112) = tf + 112"
    using assms unfolding maps_page_def set_reg_def set_csr_def by (auto dest: spec [of _ "112 :: nat"])
  have "regs (step tr (LD A0 112 A0) ?m1) = (\<lambda>r. ld64 (amem m) (tf + of_nat (tf_off r)))"
  proof
    fix r
    show "regs (step tr (LD A0 112 A0) ?m1) r = ld64 (amem m) (tf + of_nat (tf_off r))"
      using A0 at tf_slots_all [of r] loads_at [OF tf_slots_ok(2)]
      by (cases "r = A0") (simp_all add: set_reg_def set_csr_def tf_off_A0)
  qed
  moreover have "run_code tr userret m = step tr SRET (step tr (LD A0 112 A0) (run_code tr (LDs tf_slots A0) ?m0))"
    by (simp add: userret_split)
  ultimately show ?thesis unfolding 1 by (simp add: set_reg_def set_csr_def)
qed

text \<open>
  C20: the trampoline keeps the registers of a user process. If the user page table maps \<open>TRAPFRAME\<close> to the
  page \<open>tf\<close>, \<open>uservec\<close> leaves every user register in its slot of the trap frame (the slots that the C
  code uses for the stack pointer and the argument registers), and continues at the address, with the
  stack, hart number and page table that the kernel put in the trap frame. Whatever the kernel does
  then: if the slots other than that of \<open>a0\<close> are the same when it calls \<open>userret\<close> with the page
  table, the process goes on at \<open>sepc\<close> with every register as it was, and with the slot of \<open>a0\<close> in \<open>a0\<close>.
\<close>

theorem trampoline_roundtrip:
  assumes "maps_page tr (scsr m Satp) TRAPFRAME tf"
  shows "let m1 = run_code tr uservec m in
      (\<forall>r. ld64 (amem m1) (tf + of_nat (tf_off r)) = regs m r)
    \<and> of_nat (tf_off SP) = TF_sp
    \<and> map (\<lambda>r. of_nat (tf_off r)) [A0, A1, A2, A3, A4, A5, A6, A7] = map TF_a [0..<8]
    \<and> jump m1 = Addr (ld64 (amem m) (tf + TF_kernel_trap)) \<and> regs m1 SP = ld64 (amem m) (tf + TF_kernel_sp)
    \<and> regs m1 TP = ld64 (amem m) (tf + TF_kernel_hartid) \<and> scsr m1 Satp = ld64 (amem m) (tf + TF_kernel_satp)
    \<and> (\<forall>m2. regs m2 A0 = scsr m Satp
           \<and> (\<forall>r. r \<noteq> A0 \<longrightarrow> ld64 (amem m2) (tf + of_nat (tf_off r)) = ld64 (amem m1) (tf + of_nat (tf_off r)))
         \<longrightarrow> (let m3 = run_code tr userret m2 in
               regs m3 = (regs m)(A0 := ld64 (amem m2) (tf + TF_a 0)) \<and> scsr m3 Satp = scsr m Satp
               \<and> amem m3 = amem m2 \<and> jump m3 = Addr (scsr m2 Sepc)))"
proof -
  define m1 where "m1 = run_code tr uservec m"
  let ?S = "saves tf (regs m) tf_slots (amem m)" and ?M = "st64 (saves tf (regs m) tf_slots (amem m)) (tf + 112) (regs m A0)"
  have m1: "amem m1 = ?M" "regs m1 SP = ld64 ?M (tf + 8)" "regs m1 TP = ld64 ?M (tf + 32)"
    "scsr m1 Satp = ld64 ?M tf" "jump m1 = Addr (ld64 ?M (tf + 16))"
    unfolding m1_def uservec_eq [OF assms(1)] by simp_all
  have M: "ld64 ?M (tf + of_nat off) = ld64 ?S (tf + of_nat off)" if "off mod 8 = 0" "off < 4096" "off \<noteq> 112" for off
    using ld64_st64_other [OF slots_disj [of 112 off tf]] that by simp
  have low: "ld64 ?M (tf + of_nat off) = ld64 (amem m) (tf + of_nat off)" if "off mod 8 = 0" "off < 40" for off
  proof -
    have "off \<notin> set (map snd tf_slots)" using that by (auto simp: tf_slots_def)
    then show ?thesis using M [of off] that ld_saves_other [OF tf_slots_ok(1), of off tf "regs m" "amem m"] by simp
  qed
  have all: "ld64 ?M (tf + of_nat (tf_off r)) = regs m r" for r
  proof (cases "r = A0")
    case False
    then have r: "(r, tf_off r) \<in> set tf_slots" by (rule tf_slots_all)
    then have "tf_off r mod 8 = 0" "tf_off r < 4096" "tf_off r \<noteq> 112"
      using tf_slots_ok(1,4) by (auto simp: slots_def image_iff)
    then show ?thesis using M ld_saves [OF tf_slots_ok(1) r] by simp
  qed (simp add: tf_off_A0)
  have ret: "regs (run_code tr userret m2) = (regs m)(A0 := ld64 (amem m2) (tf + TF_a 0))"
    if "regs m2 A0 = scsr m Satp" "\<forall>r. r \<noteq> A0 \<longrightarrow> ld64 (amem m2) (tf + of_nat (tf_off r)) = ld64 ?M (tf + of_nat (tf_off r))" for m2
    using that assms(1) all by (subst userret_eq) (auto simp: fun_eq_iff tf_off_A0 TF_a_def)
  have rest: "scsr (run_code tr userret m2) Satp = scsr m Satp \<and> amem (run_code tr userret m2) = amem m2
      \<and> jump (run_code tr userret m2) = Addr (scsr m2 Sepc)" if "regs m2 A0 = scsr m Satp" for m2
    using that assms(1) userret_eq [of tr m2 tf] by simp
  show ?thesis unfolding m1_def [symmetric]
    using all low [of 8] low [of 32] low [of 16] low [of 0] ret rest
    by (simp add: m1 TF_sp_def TF_kernel_trap_def TF_kernel_sp_def TF_kernel_hartid_def TF_kernel_satp_def Let_def)
       (simp add: tf_off_def tf_slots_def TF_a_def upt_rec)
qed

definition asm_demo :: machine where
  "asm_demo = \<lparr>regs = (\<lambda>_. 7), scsr = (\<lambda>_. 0), amem = (\<lambda>_. 0), jump = Next\<rparr>"

theorem trampoline_roundtrip_witness:
  "\<exists>tr. maps_page tr (scsr asm_demo Satp) TRAPFRAME 0x87000000
     \<and> (let m1 = run_code tr uservec asm_demo in ld64 (amem m1) (0x87000000 + TF_sp) = 7)"
proof -
  let ?tr = "\<lambda>satp va. va - TRAPFRAME + 0x87000000"
  have mp: "maps_page ?tr (scsr asm_demo Satp) TRAPFRAME 0x87000000" by (simp add: maps_page_def)
  note T = trampoline_roundtrip [OF mp, unfolded Let_def]
  have "ld64 (amem (run_code ?tr uservec asm_demo)) (0x87000000 + of_nat (tf_off SP)) = regs asm_demo SP"
    using T by blast
  moreover have "of_nat (tf_off SP) = TF_sp" using T by blast
  ultimately show ?thesis using mp by (auto simp: Let_def asm_demo_def)
qed

section \<open>Switching between kernel threads\<close>

text \<open>\<open>struct context\<close> in memory and the registers it holds.\<close>

definition cx_slots :: "(reg \<times> nat) list" where
  "cx_slots = [(RA, 0), (SP, 8), (S0, 16), (S1, 24), (S2, 32), (S3, 40), (S4, 48), (S5, 56), (S6, 64),
     (S7, 72), (S8, 80), (S9, 88), (S10, 96), (S11, 104)]"

definition callee_saved :: "reg set" where "callee_saved = fst ` set cx_slots"

lemma swtch_split: "swtch = SDs cx_slots A0 @ LDs cx_slots A1 @ [RET]"
  by (simp add: swtch_def SDs_def LDs_def cx_slots_def)

lemma cx_slots_ok: "slots cx_slots" "distinct (map fst cx_slots)" "A0 \<notin> fst ` set cx_slots" "A1 \<notin> fst ` set cx_slots"
  by (simp_all add: slots_def cx_slots_def)

lemma swtch_eq:
  assumes "maps_page tr (scsr m Satp) (regs m A0) a" and "maps_page tr (scsr m Satp) (regs m A1) b"
  defines "M \<equiv> saves a (regs m) cx_slots (amem m)"
  shows "run_code tr swtch m
    = m\<lparr>amem := M, regs := loads b M cx_slots (regs m), jump := Addr (loads b M cx_slots (regs m) RA)\<rparr>"
proof -
  have "run_code tr (SDs cx_slots A0) m = m\<lparr>amem := M\<rparr>"
    unfolding M_def by (rule run_SDs [OF assms(1) cx_slots_ok(1)])
  moreover have "run_code tr (LDs cx_slots A1) (m\<lparr>amem := M\<rparr>) = m\<lparr>amem := M, regs := loads b M cx_slots (regs m)\<rparr>"
    using run_LDs [of tr "m\<lparr>amem := M\<rparr>" A1 b cx_slots] assms(2) cx_slots_ok by simp
  ultimately show ?thesis by (simp add: swtch_split)
qed

lemma cx_slots_all: "r \<in> callee_saved \<longleftrightarrow> (\<exists>off. (r, off) \<in> set cx_slots)"
  by (force simp: callee_saved_def)

lemma cx_slots_bound: "(r, off) \<in> set cx_slots \<Longrightarrow> off + 8 \<le> 112"
  by (auto simp: cx_slots_def)

lemma in_rng_sub: "in_rng (a + of_nat off) 8 x \<Longrightarrow> off + 8 \<le> 112 \<Longrightarrow> in_rng a 112 x"
proof -
  assume "in_rng (a + of_nat off) 8 x" and off: "off + 8 \<le> 112"
  then obtain i where i: "i < 8" "x = a + of_nat (off + i)" by (auto simp: in_rng_iff add.assoc)
  then show ?thesis using off by (subst in_rng_iff) (auto intro!: exI [of _ "off + i"])
qed

lemma ld_saves_disj:
  assumes "disj_rng a 112 b 112" and "(r, off) \<in> set cx_slots"
  shows "ld64 (saves a v cx_slots M) (b + of_nat off) = ld64 M (b + of_nat off)"
proof (rule ld64_cong)
  fix x assume "in_rng (b + of_nat off) 8 x"
  then have x: "in_rng b 112 x" using cx_slots_bound [OF assms(2)] by (rule in_rng_sub)
  have "\<not> in_rng (a + of_nat k) 8 x" if "(q, k) \<in> set cx_slots" for q k
    using in_rng_sub [OF _ cx_slots_bound [OF that], of a x] disj_rngD [OF assms(1) x] by blast
  then show "saves a v cx_slots M x = M x" by (intro saves_outside) auto
qed

text \<open>
  C23: \<open>swtch\<close> switches between two kernel threads. With different contexts at \<open>a\<close> and \<open>b\<close>, it continues at
  the return address and with the stack pointer and saved registers of \<open>b\<close>, which it leaves as they
  are, and changes no other register. When some thread later switches back to the context at \<open>a\<close>, and the
  context has not been changed in between, the first thread goes on after its call with the registers a
  C function must keep as they were.
\<close>

theorem swtch_roundtrip:
  assumes "maps_page tr (scsr m Satp) (regs m A0) a" and "maps_page tr (scsr m Satp) (regs m A1) b"
    and "disj_rng a 112 b 112"
  shows "let m1 = run_code tr swtch m in
      (\<forall>(r, off) \<in> set cx_slots. regs m1 r = ld64 (amem m) (b + of_nat off)
         \<and> ld64 (amem m1) (b + of_nat off) = ld64 (amem m) (b + of_nat off))
    \<and> jump m1 = Addr (ld64 (amem m) b) \<and> (\<forall>r. r \<notin> callee_saved \<longrightarrow> regs m1 r = regs m r)
    \<and> (\<forall>m2 c. maps_page tr (scsr m2 Satp) (regs m2 A0) c \<and> maps_page tr (scsr m2 Satp) (regs m2 A1) a
          \<and> disj_rng c 112 a 112
          \<and> (\<forall>(r, off) \<in> set cx_slots. ld64 (amem m2) (a + of_nat off) = ld64 (amem m1) (a + of_nat off))
        \<longrightarrow> (\<forall>r \<in> callee_saved. regs (run_code tr swtch m2) r = regs m r)
          \<and> jump (run_code tr swtch m2) = Addr (regs m RA))"
proof -
  have fwd: "regs (run_code tr swtch m) r = ld64 (amem m) (b + of_nat off)
      \<and> ld64 (amem (run_code tr swtch m)) (b + of_nat off) = ld64 (amem m) (b + of_nat off)"
    if "maps_page tr (scsr m Satp) (regs m A0) a" "maps_page tr (scsr m Satp) (regs m A1) b"
      "disj_rng a 112 b 112" "(r, off) \<in> set cx_slots" for m a b r off
    using ld_saves_disj [OF that(3,4)] loads_at [OF cx_slots_ok(2) that(4)]
    by (simp add: swtch_eq [OF that(1,2)])
  have jmp: "jump (run_code tr swtch m) = Addr (ld64 (amem m) b)"
    if "maps_page tr (scsr m Satp) (regs m A0) a" "maps_page tr (scsr m Satp) (regs m A1) b"
      "disj_rng a 112 b 112" for m a b
    using ld_saves_disj [OF that(3), of RA 0] loads_at [OF cx_slots_ok(2), of RA 0]
    by (simp add: swtch_eq [OF that(1,2)] cx_slots_def)
  have kept: "regs (run_code tr swtch m) r = regs m r" if "r \<notin> callee_saved" for r
    using that loads_other [of r cx_slots] by (simp add: swtch_eq [OF assms(1,2)] callee_saved_def)
  have saved: "ld64 (amem (run_code tr swtch m)) (a + of_nat off) = regs m r" if "(r, off) \<in> set cx_slots" for r off
    using ld_saves [OF cx_slots_ok(1) that] by (simp add: swtch_eq [OF assms(1,2)])
  have RA: "(RA, 0) \<in> set cx_slots" by (simp add: cx_slots_def)
  show ?thesis unfolding Let_def
  proof (intro conjI allI impI)
    fix m2 :: machine and c
    assume m2: "maps_page tr (scsr m2 Satp) (regs m2 A0) c \<and> maps_page tr (scsr m2 Satp) (regs m2 A1) a
      \<and> disj_rng c 112 a 112
      \<and> (\<forall>(r, off) \<in> set cx_slots. ld64 (amem m2) (a + of_nat off) = ld64 (amem (run_code tr swtch m)) (a + of_nat off))"
    show "\<forall>r \<in> callee_saved. regs (run_code tr swtch m2) r = regs m r"
      using m2 fwd [of m2 c a] saved by (fastforce simp: cx_slots_all)
    show "jump (run_code tr swtch m2) = Addr (regs m RA)"
      using m2 jmp [of m2 c a] saved [OF RA] RA by fastforce
  qed (use fwd [OF assms] jmp [OF assms] kept in auto)
qed

definition swtch_demo :: machine where
  "swtch_demo = \<lparr>regs = (\<lambda>_. 0)(A0 := 0x1000, A1 := 0x2000, S3 := 9), scsr = (\<lambda>_. 0), amem = (\<lambda>_. 0), jump = Next\<rparr>"

lemma disj_demo: "disj_rng 0x1000 112 0x2000 112" "disj_rng 0x2000 112 0x1000 112"
  by (auto simp: disj_rng_def in_rng_def unat_sub64)

theorem swtch_roundtrip_witness:
  "maps_page (\<lambda>_ va. va) (scsr swtch_demo Satp) (regs swtch_demo A0) 0x1000
   \<and> maps_page (\<lambda>_ va. va) (scsr swtch_demo Satp) (regs swtch_demo A1) 0x2000
   \<and> (let m1 = run_code (\<lambda>_ va. va) swtch swtch_demo; m2 = m1\<lparr>regs := (regs m1)(A0 := 0x2000, A1 := 0x1000)\<rparr>
      in regs (run_code (\<lambda>_ va. va) swtch m2) S3 = 9)"
proof -
  have mp: "maps_page (\<lambda>_ va. va) st va va" for st va by (simp add: maps_page_def)
  have a: "regs swtch_demo A0 = 0x1000" "regs swtch_demo A1 = 0x2000" "regs swtch_demo S3 = 9"
    by (simp_all add: swtch_demo_def)
  define m1 where "m1 = run_code (\<lambda>_ va. va) swtch swtch_demo"
  note T = swtch_roundtrip [of "\<lambda>_ va. va" swtch_demo "0x1000" "0x2000", unfolded a Let_def, OF mp mp disj_demo(1)]
  have "\<forall>r \<in> callee_saved. regs (run_code (\<lambda>_ va. va) swtch (m1\<lparr>regs := (regs m1)(A0 := 0x2000, A1 := 0x1000)\<rparr>)) r = regs swtch_demo r"
    using T disj_demo(2) mp
    by (auto simp: m1_def [symmetric]
        dest!: spec [of _ "m1\<lparr>regs := (regs m1)(A0 := 0x2000, A1 := 0x1000)\<rparr>"] spec [of _ "0x2000 :: u64"])
  moreover have "S3 \<in> callee_saved" by (simp add: callee_saved_def cx_slots_def)
  ultimately show ?thesis using mp a by (simp add: Let_def m1_def)
qed

section \<open>Traps in the kernel\<close>

definition kv_slots :: "(reg \<times> nat) list" where
  "kv_slots = [(GP, 16), (T0, 32), (T1, 40), (T2, 48), (S0, 56), (S1, 64), (A0, 72), (A1, 80), (A2, 88),
     (A3, 96), (A4, 104), (A5, 112), (A6, 120), (A7, 128), (S2, 136), (S3, 144), (S4, 152), (S5, 160),
     (S6, 168), (S7, 176), (S8, 184), (S9, 192), (S10, 200), (S11, 208), (T3, 216), (T4, 224), (T5, 232),
     (T6, 240)]"

definition kv_all :: "(reg \<times> nat) list" where
  "kv_all = (RA, 0) # (SP, 8) # hd kv_slots # (TP, 24) # tl kv_slots"

lemma kernelvec_save_split: "kernelvec_save = [ADDI SP SP (- 256)] @ SDs kv_all SP @ [CALL ''kerneltrap'']"
  by (simp add: kernelvec_save_def SDs_def kv_all_def kv_slots_def)

lemma kernelvec_restore_split:
  "kernelvec_restore = LDs [(RA, 0)] SP @ [LD SP 8 SP] @ LDs kv_slots SP @ [ADDI SP SP 256, SRET]"
  by (simp add: kernelvec_restore_def LDs_def kv_slots_def)

lemma kv_ok: "slots kv_all" "slots kv_slots" "distinct (map fst kv_slots)" "SP \<notin> fst ` set kv_slots"
    "set kv_slots \<subseteq> set kv_all" "(RA, 0) \<in> set kv_all" "(SP, 8) \<in> set kv_all" "RA \<notin> fst ` set kv_slots" "TP \<notin> fst ` set kv_slots"
  by (auto simp: slots_def kv_all_def kv_slots_def)

lemma kv_cover: "r \<noteq> SP \<Longrightarrow> r \<noteq> RA \<Longrightarrow> r \<noteq> TP \<Longrightarrow> \<exists>off. (r, off) \<in> set kv_slots"
  by (cases r) (simp_all add: kv_slots_def)

text \<open>
  C24: an interrupt in the kernel does not change the registers of the code it interrupts. \<open>kernelvec\<close>
  pushes the registers and calls \<open>kerneltrap\<close>. If the handler returns with the stack pointer it was
  called with and the 256 bytes of the frame unchanged, the interrupted code goes on at \<open>sepc\<close> with every
  register as it was, except \<open>tp\<close>: the hart number stays the one of the hart that runs the code now.
\<close>

theorem kernelvec_roundtrip:
  assumes "maps_page tr (scsr m Satp) (regs m SP - 256) pa"
  shows "let m1 = run_code tr kernelvec_save m in
    jump m1 = Symbol ''kerneltrap'' \<and> regs m1 = (regs m)(SP := regs m SP - 256)
    \<and> (\<forall>m2. regs m2 SP = regs m1 SP \<and> maps_page tr (scsr m2 Satp) (regs m2 SP) pa
         \<and> (\<forall>(r, off) \<in> set kv_all. ld64 (amem m2) (pa + of_nat off) = ld64 (amem m1) (pa + of_nat off))
       \<longrightarrow> regs (run_code tr kernelvec_restore m2) = (regs m)(TP := regs m2 TP)
         \<and> amem (run_code tr kernelvec_restore m2) = amem m2
         \<and> jump (run_code tr kernelvec_restore m2) = Addr (scsr m2 Sepc))"
proof -
  let ?m0 = "step tr (ADDI SP SP (- 256)) m"
  define m1 where "m1 = run_code tr kernelvec_save m"
  have "run_code tr (SDs kv_all SP) ?m0 = ?m0\<lparr>amem := saves pa (regs ?m0) kv_all (amem m)\<rparr>"
    using run_SDs [of tr ?m0 SP pa kv_all] assms kv_ok(1) by (simp add: set_reg_def)
  then have m1: "m1 = ?m0\<lparr>amem := saves pa (regs ?m0) kv_all (amem m), jump := Symbol ''kerneltrap''\<rparr>"
    by (simp add: m1_def kernelvec_save_split)
  then have m1r: "regs m1 = (regs m)(SP := regs m SP - 256)" by (simp add: set_reg_def)
  have sv: "ld64 (amem m1) (pa + of_nat off) = regs m1 r" if "(r, off) \<in> set kv_all" for r off
    using ld_saves [OF kv_ok(1) that] m1 by simp
  have "regs (run_code tr kernelvec_restore m2) = (regs m)(TP := regs m2 TP)
      \<and> amem (run_code tr kernelvec_restore m2) = amem m2
      \<and> jump (run_code tr kernelvec_restore m2) = Addr (scsr m2 Sepc)"
    if sp: "regs m2 SP = regs m1 SP" and mp: "maps_page tr (scsr m2 Satp) (regs m2 SP) pa"
      and keep: "\<forall>(r, off) \<in> set kv_all. ld64 (amem m2) (pa + of_nat off) = ld64 (amem m1) (pa + of_nat off)" for m2
  proof -
    have slot: "ld64 (amem m2) (pa + of_nat off) = regs m1 r" if "(r, off) \<in> set kv_all" for r off
      using keep sv [OF that] that by fastforce
    let ?a = "set_reg RA (regs m1 RA) m2"
    have "run_code tr (LDs [(RA, 0)] SP) m2 = ?a"
      using run_LDs [OF mp, of "[(RA, 0)]"] slot [OF kv_ok(6)] by (simp add: slots_def loads_def set_reg_def)
    moreover have "step tr (LD SP 8 SP) ?a = ?a"
    proof -
      have "tr (scsr m2 Satp) (regs m2 SP + 8) = pa + 8"
        using mp by (auto simp: maps_page_def dest: spec [of _ "8 :: nat"])
      then show ?thesis using slot [OF kv_ok(7)] sp
        by (auto simp: set_reg_def fun_eq_iff intro!: machine.equality)
    qed
    moreover have "run_code tr (LDs kv_slots SP) ?a = ?a\<lparr>regs := loads pa (amem m2) kv_slots (regs ?a)\<rparr>"
      using run_LDs [of tr ?a SP pa kv_slots] mp kv_ok(2,4) by (simp add: set_reg_def)
    ultimately have eq: "run_code tr kernelvec_restore m2
        = step tr SRET (step tr (ADDI SP SP 256) (?a\<lparr>regs := loads pa (amem m2) kv_slots (regs ?a)\<rparr>))"
      by (simp add: kernelvec_restore_split)
    have "loads pa (amem m2) kv_slots (regs ?a) r = (if r = TP then regs m2 TP else regs m1 r)" for r
    proof (cases "r = SP \<or> r = RA \<or> r = TP")
      case True
      then show ?thesis using kv_ok(4,8,9) sp loads_other [of r kv_slots] by (auto simp: set_reg_def)
    next
      case False
      then obtain off where r: "(r, off) \<in> set kv_slots" using kv_cover by blast
      then have "(r, off) \<in> set kv_all" using kv_ok(5) by blast
      then show ?thesis using loads_at [OF kv_ok(3) r] slot False by auto
    qed
    then show ?thesis unfolding eq by (auto simp: set_reg_def m1r fun_eq_iff)
  qed
  moreover have "jump m1 = Symbol ''kerneltrap''" by (simp add: m1)
  ultimately show ?thesis using m1r unfolding m1_def [symmetric] Let_def by blast
qed

theorem kernelvec_roundtrip_witness:
  "maps_page (\<lambda>_ va. va) (scsr asm_demo Satp) (regs asm_demo SP - 256) (- 249)
   \<and> (let m1 = run_code (\<lambda>_ va. va) kernelvec_save asm_demo; m2 = m1\<lparr>regs := (regs m1)(T0 := 1, A7 := 2, TP := 3)\<rparr>
      in regs (run_code (\<lambda>_ va. va) kernelvec_restore m2) = (\<lambda>_. 7)(TP := 3))"
proof -
  have mp: "maps_page (\<lambda>_ va. va) st va va" for st va by (simp add: maps_page_def)
  have sp: "regs asm_demo SP - 256 = - 249" by (simp add: asm_demo_def)
  define m1 where "m1 = run_code (\<lambda>_ va. va) kernelvec_save asm_demo"
  define m2 where "m2 = m1\<lparr>regs := (regs m1)(T0 := 1, A7 := 2, TP := 3)\<rparr>"
  note T = kernelvec_roundtrip [of "\<lambda>_ va. va" asm_demo "- 249", unfolded sp Let_def m1_def [symmetric], OF mp]
  have "regs m1 SP = - 249" using T by (simp add: sp)
  then have "regs m2 SP = - 249" "amem m2 = amem m1" by (simp_all add: m2_def)
  then have "regs (run_code (\<lambda>_ va. va) kernelvec_restore m2) = (regs asm_demo)(TP := regs m2 TP)"
    using T mp [of "scsr m2 Satp" "- 249"] by (auto dest!: spec [of _ m2])
  then show ?thesis using mp by (simp add: sp Let_def m1_def [symmetric] m2_def [symmetric])
     (simp add: asm_demo_def m2_def)
qed

section \<open>The timer and the first instructions\<close>

text \<open>
  C26: \<open>timervec\<close> is invisible to the code it interrupts: in machine mode, with \<open>mscratch\<close> pointing to the
  scratch area of the hart, every register, \<open>mscratch\<close> and all memory but the first 24 bytes of the scratch
  area and the compare register keep their values; the compare register moves on by the interval, a
  software interrupt is raised, and the interrupted code goes on.
\<close>

theorem timervec_transparent:
  assumes "disj_rng (scsr m Mscratch) 40 (ld64 (amem m) (scsr m Mscratch + 24)) 8"
  shows "let sc = scsr m Mscratch; cmp = ld64 (amem m) (sc + 24); m' = run_code (\<lambda>_ va. va) timervec m in
    regs m' = regs m \<and> scsr m' = (scsr m)(Sip := 2) \<and> jump m' = Addr (scsr m Mepc)
    \<and> ld64 (amem m') cmp = ld64 (amem m) cmp + ld64 (amem m) (sc + 32)
    \<and> (\<forall>x. \<not> in_rng sc 24 x \<and> \<not> in_rng cmp 8 x \<longrightarrow> amem m' x = amem m x)"
proof -
  let ?sc = "scsr m Mscratch"
  let ?cmp = "ld64 (amem m) (?sc + 24)"
  let ?M = "st64 (st64 (st64 (amem m) ?sc (regs m A1)) (?sc + 8) (regs m A2)) (?sc + 16) (regs m A3)"
  have d: "disj_rng (?sc + of_nat i) 8 (?sc + of_nat j) 8" if "i \<noteq> j" "i \<in> {0, 8, 16, 24, 32}" "j \<in> {0, 8, 16, 24, 32}" for i j
    using that by (intro slots_disj) auto
  have sub: "in_rng (?sc + of_nat i) 8 x \<Longrightarrow> in_rng ?sc (i + 8) x" if "i \<le> 32" for i x
  proof -
    assume "in_rng (?sc + of_nat i) 8 x"
    then obtain k where "k < 8" "x = ?sc + of_nat (i + k)" by (auto simp: in_rng_iff add.assoc)
    then show ?thesis using that by (subst in_rng_iff) (auto intro!: exI [of _ "i + k"])
  qed
  have wide: "in_rng a k x \<Longrightarrow> k \<le> n \<Longrightarrow> in_rng a n x" for a k n x by (auto simp: in_rng_def)
  have dc: "disj_rng (?sc + of_nat i) 8 ?cmp 8" if "i \<le> 32" for i
    using assms sub [OF that, THEN wide, of _ 40] that by (auto simp: disj_rng_def)
  note ds = d [of 0 8] d [of 0 16] d [of 0 24] d [of 0 32] d [of 8 16] d [of 8 24] d [of 8 32] d [of 16 24] d [of 16 32]
    d [of 8 0] d [of 16 0] d [of 16 8]
  note dcs = dc [of 0] dc [of 8] dc [of 16]
  have M: "ld64 ?M (?sc + 24) = ?cmp" "ld64 ?M (?sc + 32) = ld64 (amem m) (?sc + 32)" "ld64 ?M ?cmp = ld64 (amem m) ?cmp"
    using ds dcs by (simp_all add: ld64_st64_other)
  let ?v = "ld64 (amem m) ?cmp + ld64 (amem m) (?sc + 32)"
  let ?N = "st64 ?M ?cmp ?v"
  have N: "ld64 ?N ?sc = regs m A1" "ld64 ?N (?sc + 8) = regs m A2" "ld64 ?N (?sc + 16) = regs m A3" "ld64 ?N ?cmp = ?v"
    using ds dcs [unfolded disj_rng_sym [of _ 8 ?cmp 8]] by (simp_all add: ld64_st64_other)
  have out: "?N x = amem m x" if "\<not> in_rng ?sc 24 x" "\<not> in_rng ?cmp 8 x" for x
  proof -
    have "\<not> in_rng ?sc 8 x" "\<not> in_rng (?sc + 8) 8 x" "\<not> in_rng (?sc + 16) 8 x"
      using that(1) sub [of 0 x, THEN wide, of 24] sub [of 8 x, THEN wide, of 24] sub [of 16 x] by auto
    then show ?thesis using that(2) by (simp add: st64_outside)
  qed
  have "run_code (\<lambda>_ va. va) timervec m
      = m\<lparr>regs := regs m, scsr := (scsr m)(Sip := 2), amem := ?N, jump := Addr (scsr m Mepc)\<rparr>"
    using M N by (auto simp: timervec_def set_reg_def set_csr_def fun_eq_iff intro!: machine.equality)
  then show ?thesis using N(4) out by (simp add: Let_def)
qed

theorem timervec_transparent_witness:
  "let m = \<lparr>regs = (\<lambda>_. 7), scsr = (\<lambda>_. 0)(Mscratch := 0x1000), amem = st64 (\<lambda>_. 0) 0x1018 0x2000, jump = Next\<rparr>
   in disj_rng (scsr m Mscratch) 40 (ld64 (amem m) (scsr m Mscratch + 24)) 8
      \<and> regs (run_code (\<lambda>_ va. va) timervec m) A1 = 7"
proof -
  let ?m = "\<lparr>regs = (\<lambda>_. 7), scsr = (\<lambda>_. 0)(Mscratch := 0x1000), amem = st64 (\<lambda>_. 0) 0x1018 0x2000, jump = Next\<rparr>"
  have "disj_rng 0x1000 40 (0x2000 :: u64) 8" by (auto simp: disj_rng_def in_rng_def unat_sub64)
  then have d: "disj_rng (scsr ?m Mscratch) 40 (ld64 (amem ?m) (scsr ?m Mscratch + 24)) 8" by simp
  have "regs (run_code (\<lambda>_ va. va) timervec ?m) = regs ?m"
    using timervec_transparent [OF d] by (simp only: Let_def)
  then show ?thesis using d by (simp only: Let_def) simp
qed

text \<open>
  C29: the first instructions give each hart a stack of its own in \<open>stack0\<close>: hart \<open>h\<close> starts with its stack
  pointer at the end of the \<open>h\<close>-th slice of 4096 bytes, so its stack, which grows down, lies in the
  array, and the slices of two harts are disjoint. (The comment in the code gives \<open>stack0 + (hartid * 4096)\<close>,
  the start of the slice.)
\<close>

theorem entry_stack:
  assumes "unat (scsr m Mhartid) < NCPU"
  shows "run_code tr (entry stack0) m = m\<lparr>regs := (regs m)(SP := stack0 + 4096 * (scsr m Mhartid + 1),
      A0 := 4096 * (scsr m Mhartid + 1), A1 := scsr m Mhartid + 1), jump := Symbol ''start''\<rparr>
    \<and> unat (4096 * (scsr m Mhartid + 1)) = 4096 * unat (scsr m Mhartid) + 4096
    \<and> unat (4096 * (scsr m Mhartid + 1)) \<le> 4096 * NCPU
    \<and> (\<forall>h < NCPU. h \<noteq> unat (scsr m Mhartid) \<longrightarrow>
        disj_rng (stack0 + of_nat (4096 * unat (scsr m Mhartid))) 4096 (stack0 + of_nat (4096 * h)) 4096)"
proof -
  define h0 where "h0 = unat (scsr m Mhartid)"
  have h0: "scsr m Mhartid = of_nat h0" "h0 < 8" using assms by (simp_all add: h0_def)
  have u: "unat (4096 * (scsr m Mhartid + 1)) = 4096 * h0 + 4096"
  proof -
    have "4096 * (scsr m Mhartid + 1) = of_nat (4096 * h0 + 4096)" by (simp add: h0 algebra_simps)
    then show ?thesis using h0(2) by (simp only: unat_of_nat) simp
  qed
  have "disj_rng (stack0 + of_nat (4096 * h0)) 4096 (stack0 + of_nat (4096 * h)) 4096" if "h < 8" "h \<noteq> h0" for h
  proof -
    have ne: "stack0 + of_nat (4096 * h0) + of_nat x \<noteq> stack0 + of_nat (4096 * h) + (of_nat y :: u64)"
      if "x < 4096" "y < 4096" for x y :: nat
    proof
      assume "stack0 + of_nat (4096 * h0) + of_nat x = stack0 + of_nat (4096 * h) + (of_nat y :: u64)"
      then have "(of_nat (4096 * h0 + x) :: u64) = of_nat (4096 * h + y)" by (simp add: add.assoc)
      then have "unat (of_nat (4096 * h0 + x) :: u64) = unat (of_nat (4096 * h + y) :: u64)" by (rule arg_cong)
      then have "(4096 * h0 + x) mod 2 ^ LENGTH(64) = (4096 * h + y) mod 2 ^ LENGTH(64)" by (simp only: unat_of_nat)
      then have "4096 * h0 + x = 4096 * h + y" using that h0(2) \<open>h < 8\<close> by simp
      then show False using that \<open>h \<noteq> h0\<close> by arith
    qed
    show ?thesis by (rule disj_rngI [OF ne]) auto
  qed
  moreover have "run_code tr (entry stack0) m = m\<lparr>regs := (regs m)(SP := stack0 + 4096 * (scsr m Mhartid + 1),
      A0 := 4096 * (scsr m Mhartid + 1), A1 := scsr m Mhartid + 1), jump := Symbol ''start''\<rparr>"
    by (auto simp: entry_def set_reg_def fun_eq_iff intro!: machine.equality)
  ultimately show ?thesis using u h0(2) by (simp add: h0_def [symmetric])
qed

theorem entry_stack_witness:
  "unat (scsr asm_demo Mhartid) < NCPU \<and> regs (run_code (\<lambda>_ va. va) (entry 0x80008000) asm_demo) SP = 0x80009000"
  using entry_stack [of asm_demo "\<lambda>_ va. va" "0x80008000"] by (simp add: asm_demo_def)

end
