(* ===== verification/Bcache.thy ===== *)
theory Bcache
  imports Bio
begin

text \<open>
  The contract of the buffer cache (kernel/bio.c) towards its clients, as an interface: what a
  process that holds the buffers of a set of blocks may rely on. The operations of \<open>Bio\<close> satisfy it;
  the clients' copy and update sequences are proved once from it.
\<close>

section \<open>The operations between sleeps\<close>

text \<open>Processes that were woken up, and states that differ only in the cache and in such processes.\<close>

definition woken :: "(nat \<Rightarrow> proc) \<Rightarrow> (nat \<Rightarrow> proc) \<Rightarrow> bool" where
  "woken P P' \<longleftrightarrow> (\<forall>q. P' q = P q \<or> p_state (P q) = SLEEPING \<and> P' q = (P q)\<lparr>p_state := RUNNABLE\<rparr>)"

lemma woken_refl [simp]: "woken P P"
  by (simp add: woken_def)

lemma woken_trans: "woken P P' \<Longrightarrow> woken P' P'' \<Longrightarrow> woken P P''"
  unfolding woken_def by (metis procstate.distinct proc.select_convs(1) proc.surjective proc.update_convs(1))

lemma woken_wake [simp]: "woken P (wake ch me P)"
  by (simp add: woken_def wake_def)

definition bstep :: "'a bstate_scheme \<Rightarrow> 'a bstate_scheme \<Rightarrow> bool" where
  "bstep s s' \<longleftrightarrow> (\<exists>P K B D W. lk_cycle s' = (lk_cycle s)\<lparr>proc := P, sleeplocks := K, bufs := B, disk := D, dwrites := W\<rparr>
     \<and> woken (proc s) P \<and> (\<forall>i. K (InodeSl i) = sleeplocks s (InodeSl i)))"

lemma more_lk_cycle: "bstate.more (lk_cycle s) = bstate.more s"
  by (simp add: lk_cycle_def lock_defs)

lemma bstep_refl [simp]: "bstep s s"
proof -
  have "lk_cycle s = (lk_cycle s)\<lparr>proc := proc s, sleeplocks := sleeplocks s, bufs := bufs s, disk := disk s, dwrites := dwrites s\<rparr>"
    by (simp add: lk_cycle_def lock_defs)
  then show ?thesis unfolding bstep_def by (metis woken_refl)
qed

lemma bstep_trans: "bstep s s' \<Longrightarrow> bstep s' s'' \<Longrightarrow> bstep s s''"
proof -
  assume a: "bstep s s'" "bstep s' s''"
  from a(1) obtain P K B D W where e: "lk_cycle s' = (lk_cycle s)\<lparr>proc := P, sleeplocks := K, bufs := B, disk := D, dwrites := W\<rparr>"
    "woken (proc s) P" "\<forall>i. K (InodeSl i) = sleeplocks s (InodeSl i)" by (auto simp: bstep_def)
  from a(2) obtain P' K' B' D' W' where f: "lk_cycle s'' = (lk_cycle s')\<lparr>proc := P', sleeplocks := K', bufs := B', disk := D', dwrites := W'\<rparr>"
    "woken (proc s') P'" "\<forall>i. K' (InodeSl i) = sleeplocks s' (InodeSl i)" by (auto simp: bstep_def)
  have p: "proc s' = P" "sleeplocks s' = K" using arg_cong [OF e(1), of proc] arg_cong [OF e(1), of sleeplocks] by (simp_all add: lk_comm)
  have "lk_cycle s'' = (lk_cycle s)\<lparr>proc := P', sleeplocks := K', bufs := B', disk := D', dwrites := W'\<rparr>" using f(1) e(1) by simp
  moreover have "woken (proc s) P'" using e(2) f(2) p woken_trans by blast
  moreover have "\<forall>i. K' (InodeSl i) = sleeplocks s (InodeSl i)" using e(3) f(3) p by simp
  ultimately show ?thesis unfolding bstep_def by blast
qed

lemma bstepI:
  "woken (proc s) P \<Longrightarrow> (\<forall>i. K (InodeSl i) = sleeplocks s (InodeSl i)) \<Longrightarrow>
    bstep s ((lk_cycle s)\<lparr>proc := P, sleeplocks := K, bufs := B, disk := D, dwrites := W\<rparr>)"
  unfolding bstep_def
  by (rule exI [of _ P], rule exI [of _ K], rule exI [of _ B], rule exI [of _ D], rule exI [of _ W]) (simp add: lk_comm)

lemma bstep_simps:
  assumes "bstep s s'"
  shows "woken (proc s) (proc s')" "sleeplocks s' (InodeSl i) = sleeplocks s (InodeSl i)" "bstate.more s' = bstate.more s"
    "pmem s' = pmem s" "freelist s' = freelist s" "shmem s' = shmem s" "nextpid s' = nextpid s" "ticks s' = ticks s"
    "initproc s' = initproc s" "cpu_ok s' = cpu_ok s" "lk_free l s' = lk_free l s" "cproc (mycpu s') = cproc (mycpu s)"
    "calm p s' = calm p s"
proof -
  from assms obtain P K B D W where e: "lk_cycle s' = (lk_cycle s)\<lparr>proc := P, sleeplocks := K, bufs := B, disk := D, dwrites := W\<rparr>"
    "woken (proc s) P" "\<forall>i. K (InodeSl i) = sleeplocks s (InodeSl i)" by (auto simp: bstep_def)
  show "woken (proc s) (proc s')" "sleeplocks s' (InodeSl i) = sleeplocks s (InodeSl i)" "bstate.more s' = bstate.more s"
    "pmem s' = pmem s" "freelist s' = freelist s" "shmem s' = shmem s" "nextpid s' = nextpid s" "ticks s' = ticks s"
    "initproc s' = initproc s" "cpu_ok s' = cpu_ok s" "lk_free l s' = lk_free l s" "cproc (mycpu s') = cproc (mycpu s)"
    "calm p s' = calm p s"
    using e(2,3) arg_cong [OF e(1), of proc] arg_cong [OF e(1), of "\<lambda>s. sleeplocks s (InodeSl i)"]
      arg_cong [OF e(1), of bstate.more] arg_cong [OF e(1), of pmem] arg_cong [OF e(1), of freelist] arg_cong [OF e(1), of shmem]
      arg_cong [OF e(1), of nextpid] arg_cong [OF e(1), of ticks] arg_cong [OF e(1), of initproc] arg_cong [OF e(1), of cpu_ok]
      arg_cong [OF e(1), of "lk_free l"] arg_cong [OF e(1), of "\<lambda>s. cproc (mycpu s)"] arg_cong [OF e(1), of "calm p"]
    by (simp_all add: lk_comm more_lk_cycle)
qed

section \<open>Held buffers\<close>

definition holds :: "nat \<Rightarrow> u32 \<Rightarrow> 'a bstate_scheme \<Rightarrow> nat \<Rightarrow> u32 \<Rightarrow> bool" where
  "holds p dev s b bn \<longleftrightarrow> hasbuf dev (bufs s) b bn \<and> b_valid (bufs s b) \<and> bheld p s b"

definition binv :: "nat \<Rightarrow> u32 \<Rightarrow> u32 set \<Rightarrow> 'a bstate_scheme \<Rightarrow> bool" where
  "binv p dev H s \<longleftrightarrow> calm p s \<and> bc_inv dev s
     \<and> (\<forall>b < NBUF. sl_locked (sleeplocks s (BufSl b)) \<longrightarrow> (\<exists>bn \<in> H. holds p dev s b bn))
     \<and> (\<forall>bn \<in> H. \<exists>b. holds p dev s b bn)"

text \<open>There is a buffer for the block: it is cached, or a buffer is not referenced.\<close>

definition avail :: "u32 \<Rightarrow> 'a bstate_scheme \<Rightarrow> u32 \<Rightarrow> bool" where
  "avail dev s bn \<longleftrightarrow> 0 < refs dev s bn \<or> card {m. 0 < refs dev s m} < NBUF"

lemma holds_content: "bc_inv dev s \<Longrightarrow> holds p dev s b bn \<Longrightarrow> b_data (bufs s b) = content dev s bn"
  using bufof_Some [of dev "bufs s" bn b] by (auto simp: holds_def content_def bc_inv_def)

lemma holds_refs: "bc_inv dev s \<Longrightarrow> holds p dev s b bn \<Longrightarrow> refs dev s bn = unat (b_refcnt (bufs s b)) \<and> b_refcnt (bufs s b) \<noteq> 0"
  using bufof_Some [of dev "bufs s" bn b] by (auto simp: holds_def refs_def bc_inv_def bheld_def hasbuf_def)

lemma holds_same: "bc_inv dev s \<Longrightarrow> holds p dev s b bn \<Longrightarrow> holds p dev s c bn \<Longrightarrow> b = c"
  by (auto simp: holds_def bc_inv_def buniq_def hasbuf_def)

lemma refs_nonzero: "bc_inv dev s \<Longrightarrow> 0 < refs dev s bn \<longleftrightarrow> (\<exists>b. hasbuf dev (bufs s) b bn \<and> b_refcnt (bufs s b) \<noteq> 0)"
proof -
  assume "bc_inv dev s"
  then have u: "buniq dev (bufs s)" by (simp add: bc_inv_def)
  show ?thesis
  proof (cases "bufof dev (bufs s) bn")
    case None
    then show ?thesis using None [unfolded bufof_None] by (simp add: refs_def)
  next
    case (Some b)
    then have h: "hasbuf dev (bufs s) b bn" using bufof_Some [OF u] by simp
    then have "hasbuf dev (bufs s) c bn \<longleftrightarrow> c = b" for c using u by (auto simp: buniq_def hasbuf_def)
    then show ?thesis using Some by (simp add: refs_def unat_gt_0)
  qed
qed

lemma finite_refs: "bc_inv dev s \<Longrightarrow> finite {m. 0 < refs dev s m}"
proof (rule finite_subset [of _ "(\<lambda>b. b_blockno (bufs s b)) ` {..<NBUF}"])
  assume "bc_inv dev s"
  then show "{m. 0 < refs dev s m} \<subseteq> (\<lambda>b. b_blockno (bufs s b)) ` {..<NBUF}"
    by (auto simp: refs_nonzero hasbuf_def)
qed simp

lemma avail_buf:
  assumes "bc_inv dev s" "avail dev s bn"
  shows "(\<exists>b. hasbuf dev (bufs s) b bn) \<or> (\<exists>b < NBUF. b_refcnt (bufs s b) = 0)"
proof (rule ccontr)
  assume n: "\<not> ?thesis"
  then have r: "refs dev s bn = 0" using refs_nonzero [OF assms(1), of bn] by blast
  have all: "b_dev (bufs s b) = dev \<and> b_refcnt (bufs s b) \<noteq> 0" if "b < NBUF" for b
    using n that assms(1) by (auto simp: bc_inv_def)
  have "inj_on (\<lambda>b. b_blockno (bufs s b)) {..<NBUF}"
    using assms(1) all by (auto simp: inj_on_def bc_inv_def buniq_def)
  then have "card ((\<lambda>b. b_blockno (bufs s b)) ` {..<NBUF}) = NBUF" using card_image by fastforce
  moreover have "(\<lambda>b. b_blockno (bufs s b)) ` {..<NBUF} \<subseteq> {m. 0 < refs dev s m}"
    using all by (auto simp: refs_nonzero [OF assms(1)] hasbuf_def)
  ultimately have "NBUF \<le> card {m. 0 < refs dev s m}"
    using card_mono [OF finite_refs [OF assms(1)]] by metis
  then show False using assms(2) r by (simp add: avail_def)
qed

lemma bread_holds:
  assumes "binv p dev H s" "bn \<notin> H" "refs dev s bn < 2 ^ 32 - 1" "avail dev s bn"
  shows "\<exists>b s'. bread dev bn s = Inr (b, s') \<and> binv p dev (insert bn H) s' \<and> holds p dev s' b bn
    \<and> content dev s' = content dev s \<and> refs dev s' = (refs dev s)(bn := refs dev s bn + 1)
    \<and> disk s' = disk s \<and> dwrites s' = dwrites s \<and> bstep s s'
    \<and> (\<forall>c m. holds p dev s c m \<and> m \<in> H \<longrightarrow> holds p dev s' c m)"
proof -
  have ca: "calm p s" and inv: "bc_inv dev s"
    and lk: "\<forall>b < NBUF. sl_locked (sleeplocks s (BufSl b)) \<longrightarrow> (\<exists>bn \<in> H. holds p dev s b bn)"
    and hd: "\<forall>bn \<in> H. \<exists>b. holds p dev s b bn"
    using assms(1) by (auto simp: binv_def)
  have nl: "\<forall>b. hasbuf dev (bufs s) b bn \<longrightarrow> \<not> sl_locked (sleeplocks s (BufSl b))"
    using lk assms(2) by (auto simp: hasbuf_def holds_def)
  obtain b s' where r: "bread dev bn s = Inr (b, s')" "bread_post p dev bn s b s'"
    using bread_ok [OF ca inv nl avail_buf [OF inv assms(4)]] by blast
  note v = bread_post_view [OF r(2) inv assms(3)]
  from r(2) obtain x k where e: "s' = (lk_cycle s)\<lparr>bufs := (bufs s)(b := x), sleeplocks := (sleeplocks s)(BufSl b := k)\<rparr>"
    and nb: "\<not> sl_locked (sleeplocks s (BufSl b))" unfolding bread_post_def by blast
  have h: "holds p dev s' b bn" using r(2) v(4) by (simp add: holds_def bread_post_def)
  have keep: "holds p dev s' c m" if "holds p dev s c m" for c m
  proof -
    have "c \<noteq> b" using that nb by (auto simp: holds_def bheld_def)
    then show ?thesis using that by (simp add: holds_def bheld_def hasbuf_def e lk_comm)
  qed
  have "bstep s s'"
  proof -
    have "s' = (lk_cycle s)\<lparr>proc := proc s, sleeplocks := (sleeplocks s)(BufSl b := k), bufs := (bufs s)(b := x), disk := disk s, dwrites := dwrites s\<rparr>"
      by (simp add: e) (simp add: lk_cycle_def lock_defs)
    then show ?thesis by (metis bstepI fun_upd_other slid.distinct(1) woken_refl)
  qed
  moreover have "binv p dev (insert bn H) s'"
  proof -
    have "\<exists>m \<in> insert bn H. holds p dev s' c m" if "c < NBUF" "sl_locked (sleeplocks s' (BufSl c))" for c
      using that lk keep h by (cases "c = b") (auto simp: e lk_comm)
    then show ?thesis using v(1) v(5) [OF ca] h hd keep unfolding binv_def by blast
  qed
  moreover have "disk s' = disk s" "dwrites s' = dwrites s" by (simp_all add: e lk_comm)
  ultimately show ?thesis using r(1) h v(2,3) keep by blast
qed

lemma set_data_holds:
  fixes s :: "'a bstate_scheme" and d :: block
  assumes "binv p dev H s" "holds p dev s b bn"
  defines "s' \<equiv> upd_buf b (\<lambda>x. x\<lparr>b_data := d\<rparr>) s"
  shows "binv p dev H s'" and "content dev s' = (content dev s)(bn := d)" and "refs dev s' = refs dev s"
    and "disk s' = disk s" and "dwrites s' = dwrites s" and "bstep s s'" and "holds p dev s' c m = holds p dev s c m"
proof -
  have inv: "bc_inv dev s" using assms(1) by (simp add: binv_def)
  have h: "hasbuf dev (bufs s) b bn" "b_valid (bufs s b)" "b_refcnt (bufs s b) \<noteq> 0"
    using assms(2) holds_refs [OF inv assms(2)] by (simp_all add: holds_def)
  note v = set_data_view [OF inv h, of d, folded s'_def]
  show "content dev s' = (content dev s)(bn := d)" "refs dev s' = refs dev s" by (rule v)+
  show "disk s' = disk s" "dwrites s' = dwrites s" by (simp_all add: s'_def upd_buf_def)
  show hh: "holds p dev s' c m = holds p dev s c m" for c m
    by (auto simp: holds_def hasbuf_def bheld_def s'_def upd_buf_def)
  show "binv p dev H s'" using assms(1) v(1) unfolding binv_def hh by (simp add: s'_def upd_buf_def)
  show "bstep s s'"
  proof -
    have "lk_cycle s' = (lk_cycle s)\<lparr>proc := proc s, sleeplocks := sleeplocks s, bufs := (bufs s)(b := (bufs s b)\<lparr>b_data := d\<rparr>), disk := disk s, dwrites := dwrites s\<rparr>"
      by (simp add: s'_def upd_buf_def lk_cycle_def lock_defs)
    then show ?thesis unfolding bstep_def by (metis woken_refl)
  qed
qed

lemma bwrite_holds:
  assumes "binv p dev H s" "holds p dev s b bn"
  shows "\<exists>s'. bwrite b s = Inr s' \<and> binv p dev H s' \<and> content dev s' = content dev s \<and> refs dev s' = refs dev s
    \<and> disk s' = (disk s)(bn := content dev s bn) \<and> dwrites s' = dwrites s @ [(bn, content dev s bn)]
    \<and> bstep s s' \<and> (\<forall>c m. holds p dev s' c m = holds p dev s c m)"
proof -
  have inv: "bc_inv dev s" and ca: "calm p s" using assms(1) by (simp_all add: binv_def)
  have h: "hasbuf dev (bufs s) b bn" "b_valid (bufs s b)" "b_refcnt (bufs s b) \<noteq> 0" "bheld p s b"
    using assms(2) holds_refs [OF inv assms(2)] by (simp_all add: holds_def)
  let ?s = "lk_cycle s"
  have i: "bc_inv dev ?s" "hasbuf dev (bufs ?s) b bn" "b_valid (bufs ?s b)" "b_refcnt (bufs ?s b) \<noteq> 0"
    using inv h by (simp_all add: lk_comm)
  note v = disk_write_view [OF i]
  have e: "bwrite b s = Inr (disk_rw b True ?s)" using h(4) by (simp add: bwrite_eq [OF ca] bheld_def)
  have hh: "holds p dev (disk_rw b True ?s) c m = holds p dev s c m" for c m
    by (simp add: holds_def bheld_def disk_rw_def lk_comm)
  have "binv p dev H (disk_rw b True ?s)"
    using assms(1) v(1) unfolding binv_def hh by (simp add: disk_rw_def lk_comm)
  moreover have "bstep s (disk_rw b True ?s)"
  proof -
    have "disk_rw b True ?s = (lk_cycle s)\<lparr>proc := proc s, sleeplocks := sleeplocks s, bufs := bufs s,
        disk := disk (disk_rw b True ?s), dwrites := dwrites (disk_rw b True ?s)\<rparr>"
      by (simp add: disk_rw_def lk_cycle_def lock_defs)
    then show ?thesis by (metis bstepI woken_refl)
  qed
  ultimately show ?thesis using e v hh by (intro exI [of _ "disk_rw b True ?s"]) (simp add: lk_comm)
qed

lemma brelse_holds:
  assumes "binv p dev H s" "bn \<in> H" "holds p dev s b bn" "1 < refs dev s bn \<or> content dev s bn = disk s bn"
  shows "\<exists>s'. brelse b s = Inr s' \<and> binv p dev (H - {bn}) s' \<and> content dev s' = content dev s
    \<and> refs dev s' = (refs dev s)(bn := refs dev s bn - 1) \<and> disk s' = disk s \<and> dwrites s' = dwrites s
    \<and> bstep s s' \<and> (\<forall>c m. holds p dev s c m \<and> m \<noteq> bn \<longrightarrow> holds p dev s' c m)"
proof -
  have ca: "calm p s" and inv: "bc_inv dev s"
    and lk: "\<forall>b < NBUF. sl_locked (sleeplocks s (BufSl b)) \<longrightarrow> (\<exists>bn \<in> H. holds p dev s b bn)"
    and hd: "\<forall>bn \<in> H. \<exists>b. holds p dev s b bn"
    using assms(1) by (auto simp: binv_def)
  have hb: "hasbuf dev (bufs s) b bn" "bheld p s b" using assms(3) by (simp_all add: holds_def)
  obtain s' k B where r: "brelse b s = Inr s'" "bc_inv dev s'" "content dev s' = content dev s"
    "refs dev s' = (refs dev s)(bn := refs dev s bn - 1)" "\<not> sl_locked k"
    "\<forall>c. nolinks (B c) = nolinks (if c = b then (bufs s b)\<lparr>b_refcnt := b_refcnt (bufs s b) - 1\<rparr> else bufs s c)"
    and e: "s' = (lk_cycle s)\<lparr>proc := wake (ChSleep (BufSl b)) (Some p) (proc s), sleeplocks := (sleeplocks s)(BufSl b := k), bufs := B\<rparr>"
    using brelse_ok [OF ca inv hb assms(4)] by blast
  have pid: "p_pid (wake ch (Some p) (proc s) p) = p_pid (proc s p)" for ch by (simp add: wake_def)
  have same: "b_dev (B c) = b_dev (bufs s c) \<and> b_blockno (B c) = b_blockno (bufs s c) \<and> b_valid (B c) = b_valid (bufs s c)" if "c \<noteq> b" for c
    using arg_cong [OF r(6) [rule_format, of c], of b_dev] arg_cong [OF r(6) [rule_format, of c], of b_blockno]
      arg_cong [OF r(6) [rule_format, of c], of b_valid] that by simp
  have keep: "holds p dev s' c m" if "holds p dev s c m" "m \<noteq> bn" for c m
  proof -
    have "c \<noteq> b" using that hb by (auto simp: holds_def hasbuf_def)
    then show ?thesis using that(1) same by (simp add: holds_def bheld_def hasbuf_def e pid lk_comm)
  qed
  have "bstep s s'"
  proof -
    have "s' = (lk_cycle s)\<lparr>proc := wake (ChSleep (BufSl b)) (Some p) (proc s), sleeplocks := (sleeplocks s)(BufSl b := k), bufs := B,
        disk := disk s, dwrites := dwrites s\<rparr>"
      by (simp add: e) (simp add: lk_cycle_def lock_defs)
    then show ?thesis by (metis bstepI fun_upd_other slid.distinct(1) woken_wake)
  qed
  moreover have "calm p s'" using ca by (simp add: e)
  moreover have "\<exists>m \<in> H - {bn}. holds p dev s' c m" if "c < NBUF" "sl_locked (sleeplocks s' (BufSl c))" for c
  proof -
    have "c \<noteq> b" "sl_locked (sleeplocks s (BufSl c))" using that(2) r(5) by (auto simp: e lk_comm split: if_splits)
    with lk that(1) obtain m where m: "m \<in> H" "holds p dev s c m" by blast
    have "m \<noteq> bn" using holds_same [OF inv m(2)] assms(3) \<open>c \<noteq> b\<close> by blast
    then show ?thesis using m keep by blast
  qed
  then have "binv p dev (H - {bn}) s'" using \<open>calm p s'\<close> r(2) hd keep unfolding binv_def by blast
  moreover have "disk s' = disk s" "dwrites s' = dwrites s" by (simp_all add: e lk_comm)
  ultimately show ?thesis using r(1,3,4) keep by blast
qed

lemma set_refs_holds:
  fixes s :: "'a bstate_scheme"
  assumes "binv p dev H s" "holds p dev s b bn" "r \<noteq> 0"
  defines "s' \<equiv> upd_buf b (\<lambda>x. x\<lparr>b_refcnt := r\<rparr>) (lk_cycle s)"
  shows "binv p dev H s'" and "content dev s' = content dev s" and "refs dev s' = (refs dev s)(bn := unat r)"
    and "disk s' = disk s" and "dwrites s' = dwrites s" and "bstep s s'" and "holds p dev s' c m = holds p dev s c m"
proof -
  have inv: "bc_inv dev (lk_cycle s)" using assms(1) by (simp add: binv_def)
  have h: "hasbuf dev (bufs (lk_cycle s)) b bn" using assms(2) by (simp add: holds_def lk_comm)
  have z: "r = 0 \<longrightarrow> \<not> sl_locked (sleeplocks (lk_cycle s) (BufSl b)) \<and> (b_valid (bufs (lk_cycle s) b) \<longrightarrow> b_data (bufs (lk_cycle s) b) = disk (lk_cycle s) bn)"
    using assms(3) by simp
  note v = set_refcnt_view [OF inv h z, folded s'_def]
  show "content dev s' = content dev s" "refs dev s' = (refs dev s)(bn := unat r)" using v(2,3) by (simp_all add: lk_comm)
  show "disk s' = disk s" "dwrites s' = dwrites s" by (simp_all add: s'_def upd_buf_def lk_comm)
  show hh: "holds p dev s' c m = holds p dev s c m" for c m
    by (auto simp: holds_def hasbuf_def bheld_def s'_def upd_buf_def lk_comm)
  show "binv p dev H s'" using assms(1) v(1) unfolding binv_def hh by (simp add: s'_def upd_buf_def lk_comm)
  show "bstep s s'"
  proof -
    have "s' = (lk_cycle s)\<lparr>proc := proc s, sleeplocks := sleeplocks s, bufs := (bufs s)(b := (bufs s b)\<lparr>b_refcnt := r\<rparr>), disk := disk s, dwrites := dwrites s\<rparr>"
      by (simp add: s'_def upd_buf_def lk_cycle_def lock_defs)
    then show ?thesis by (metis bstepI woken_refl)
  qed
qed

lemma bpin_holds:
  assumes "binv p dev H s" "holds p dev s b bn" "refs dev s bn < 2 ^ 32 - 1"
  shows "\<exists>s'. bpin b s = Inr s' \<and> binv p dev H s' \<and> content dev s' = content dev s
    \<and> refs dev s' = (refs dev s)(bn := refs dev s bn + 1) \<and> disk s' = disk s \<and> dwrites s' = dwrites s
    \<and> bstep s s' \<and> (\<forall>c m. holds p dev s' c m = holds p dev s c m)"
proof -
  have ca: "calm p s" and inv: "bc_inv dev s" using assms(1) by (simp_all add: binv_def)
  let ?r = "b_refcnt (bufs s b) + 1"
  have u: "unat ?r = refs dev s bn + 1" using holds_refs [OF inv assms(2)] assms(3) by (simp add: unat_word_ariths)
  then have "?r \<noteq> 0" by (metis Suc_eq_plus1 nat.distinct(1) unat_0)
  note v = set_refs_holds [OF assms(1,2) this]
  have "bpin b s = Inr (upd_buf b (\<lambda>x. x\<lparr>b_refcnt := ?r\<rparr>) (lk_cycle s))"
    using ca by (simp add: bpin_eq upd_buf_def lk_comm)
  then show ?thesis using v u by auto
qed

lemma bunpin_holds:
  assumes "binv p dev H s" "holds p dev s b bn" "1 < refs dev s bn"
  shows "\<exists>s'. bunpin b s = Inr s' \<and> binv p dev H s' \<and> content dev s' = content dev s
    \<and> refs dev s' = (refs dev s)(bn := refs dev s bn - 1) \<and> disk s' = disk s \<and> dwrites s' = dwrites s
    \<and> bstep s s' \<and> (\<forall>c m. holds p dev s' c m = holds p dev s c m)"
proof -
  have ca: "calm p s" and inv: "bc_inv dev s" using assms(1) by (simp_all add: binv_def)
  let ?r = "b_refcnt (bufs s b) - 1"
  have u: "unat ?r = refs dev s bn - 1" using holds_refs [OF inv assms(2)] by (simp add: unat_minus_one)
  then have "?r \<noteq> 0" using assms(3) by (metis less_numeral_extra(3) unat_0 zero_less_diff)
  note v = set_refs_holds [OF assms(1,2) this]
  have "bunpin b s = Inr (upd_buf b (\<lambda>x. x\<lparr>b_refcnt := ?r\<rparr>) (lk_cycle s))"
    using ca by (simp add: bunpin_eq upd_buf_def lk_comm)
  then show ?thesis using v u by auto
qed

section \<open>The interface\<close>

text \<open>
  What a client sees of the cache for one device: the current contents of the blocks, how often each
  is referenced, the disk, and the writes to it in their order.
\<close>

record bview =
  v_content :: "u32 \<Rightarrow> block"
  v_refs :: "u32 \<Rightarrow> nat"
  v_disk :: "u32 \<Rightarrow> block"
  v_writes :: "(u32 \<times> block) list"

definition view :: "u32 \<Rightarrow> 'a bstate_scheme \<Rightarrow> bview" where
  "view dev s = \<lparr>v_content = content dev s, v_refs = refs dev s, v_disk = disk s, v_writes = dwrites s\<rparr>"

definition v_avail :: "bview \<Rightarrow> u32 \<Rightarrow> bool" where
  "v_avail v bn \<longleftrightarrow> 0 < v_refs v bn \<or> card {m. 0 < v_refs v m} < NBUF"

definition v_ref :: "u32 \<Rightarrow> int \<Rightarrow> bview \<Rightarrow> bview" where
  "v_ref bn k v = v\<lparr>v_refs := (v_refs v)(bn := nat (int (v_refs v bn) + k))\<rparr>"

definition v_set :: "u32 \<Rightarrow> block \<Rightarrow> bview \<Rightarrow> bview" where
  "v_set bn d v = v\<lparr>v_content := (v_content v)(bn := d)\<rparr>"

definition v_write :: "u32 \<Rightarrow> bview \<Rightarrow> bview" where
  "v_write bn v = v\<lparr>v_disk := (v_disk v)(bn := v_content v bn), v_writes := v_writes v @ [(bn, v_content v bn)]\<rparr>"

lemmas v_defs = v_ref_def v_set_def v_write_def

lemma nat_int_minus1: "nat (int n - 1) = n - 1"
  by simp

locale block_cache =
  fixes dev :: u32
    and inv :: "u32 set \<Rightarrow> 's \<Rightarrow> bool"
    and has :: "'s \<Rightarrow> nat \<Rightarrow> u32 \<Rightarrow> bool"
    and vw :: "'s \<Rightarrow> bview"
    and frame :: "'s \<Rightarrow> 's \<Rightarrow> bool"
    and rd :: "u32 \<Rightarrow> u32 \<Rightarrow> 's \<Rightarrow> fault + nat \<times> 's"
    and wr rel pin unpin :: "nat \<Rightarrow> 's \<Rightarrow> fault + 's"
    and dat :: "'s \<Rightarrow> nat \<Rightarrow> block"
    and set_dat :: "nat \<Rightarrow> block \<Rightarrow> 's \<Rightarrow> 's"
  assumes frame_refl: "frame s s"
    and frame_trans: "frame s t \<Longrightarrow> frame t u \<Longrightarrow> frame s u"
    and dat_ok: "inv H s \<Longrightarrow> has s b bn \<Longrightarrow> dat s b = v_content (vw s) bn"
    and rd_ok: "inv H s \<Longrightarrow> bn \<notin> H \<Longrightarrow> v_refs (vw s) bn < 2 ^ 32 - 1 \<Longrightarrow> v_avail (vw s) bn \<Longrightarrow>
      \<exists>b t. rd dev bn s = Inr (b, t) \<and> inv (insert bn H) t \<and> has t b bn \<and> vw t = v_ref bn 1 (vw s) \<and> frame s t
        \<and> (\<forall>c m. has s c m \<and> m \<in> H \<longrightarrow> has t c m)"
    and set_ok: "inv H s \<Longrightarrow> has s b bn \<Longrightarrow>
      inv H (set_dat b d s) \<and> vw (set_dat b d s) = v_set bn d (vw s) \<and> frame s (set_dat b d s)
        \<and> (\<forall>c m. has (set_dat b d s) c m = has s c m)"
    and wr_ok: "inv H s \<Longrightarrow> has s b bn \<Longrightarrow>
      \<exists>t. wr b s = Inr t \<and> inv H t \<and> vw t = v_write bn (vw s) \<and> frame s t \<and> (\<forall>c m. has t c m = has s c m)"
    and rel_ok: "inv H s \<Longrightarrow> bn \<in> H \<Longrightarrow> has s b bn \<Longrightarrow> 1 < v_refs (vw s) bn \<or> v_content (vw s) bn = v_disk (vw s) bn \<Longrightarrow>
      \<exists>t. rel b s = Inr t \<and> inv (H - {bn}) t \<and> vw t = v_ref bn (- 1) (vw s) \<and> frame s t
        \<and> (\<forall>c m. has s c m \<and> m \<noteq> bn \<longrightarrow> has t c m)"
    and pin_ok: "inv H s \<Longrightarrow> has s b bn \<Longrightarrow> v_refs (vw s) bn < 2 ^ 32 - 1 \<Longrightarrow>
      \<exists>t. pin b s = Inr t \<and> inv H t \<and> vw t = v_ref bn 1 (vw s) \<and> frame s t \<and> (\<forall>c m. has t c m = has s c m)"
    and unpin_ok: "inv H s \<Longrightarrow> has s b bn \<Longrightarrow> 1 < v_refs (vw s) bn \<Longrightarrow>
      \<exists>t. unpin b s = Inr t \<and> inv H t \<and> vw t = v_ref bn (- 1) (vw s) \<and> frame s t \<and> (\<forall>c m. has t c m = has s c m)"
begin

text \<open>A block is read, changed, written and released.\<close>

lemma update_ok:
  assumes "inv {} s" and "v_avail (vw s) bn" and "v_refs (vw s) bn < 2 ^ 32 - 1"
    and "\<And>t. frame s t \<Longrightarrow> dv t = dev \<and> A t = bn \<and> G t = g"
  shows "\<exists>t. bnd (rd (dv s) (A s) s) (\<lambda>(b, s). let s = set_dat b (G s (dat s b)) s in bnd (wr b s) (\<lambda>s. rel b s)) = Inr t
    \<and> inv {} t \<and> frame s t \<and> vw t = v_write bn (v_set bn (g (v_content (vw s) bn)) (vw s))"
proof -
  let ?d = "g (v_content (vw s) bn)"
  obtain b s1 where 1: "rd dev bn s = Inr (b, s1)" "inv {bn} s1" "has s1 b bn" "vw s1 = v_ref bn 1 (vw s)" "frame s s1"
    using rd_ok [OF assms(1) _ assms(3,2)] by blast
  have d: "g (dat s1 b) = ?d" using dat_ok [OF 1(2,3)] by (simp add: 1(4) v_ref_def)
  let ?s2 = "set_dat b ?d s1"
  have 2: "inv {bn} ?s2" "vw ?s2 = v_set bn ?d (vw s1)" "frame s1 ?s2" "has ?s2 b bn"
    using set_ok [OF 1(2,3)] 1(3) by blast+
  from wr_ok [OF 2(1,4)] obtain s3 where 3: "wr b ?s2 = Inr s3" "inv {bn} s3" "vw s3 = v_write bn (vw ?s2)" "frame ?s2 s3" "has s3 b bn"
    using 2(4) by blast
  note vv = 1(4) 2(2) 3(3) v_defs
  have "v_content (vw s3) bn = v_disk (vw s3) bn" by (simp add: vv)
  with rel_ok [OF 3(2) _ 3(5)] obtain t where 4: "rel b s3 = Inr t" "inv ({bn} - {bn}) t" "vw t = v_ref bn (- 1) (vw s3)" "frame s3 t"
    by blast
  have "vw t = v_write bn (v_set bn ?d (vw s))" by (auto simp: vv 4(3) nat_add_distrib intro!: bview.equality)
  moreover have "frame s t" using 1(5) 2(3) 3(4) 4(4) frame_trans by meson
  moreover have "dv s = dev" "A s = bn" "G s1 = g" using assms(4) 1(5) frame_refl by auto
  ultimately show ?thesis using 1(1) 3(1) 4(1,2) d by (simp add: Let_def)
qed

text \<open>The two copies of the log: a block is read behind another one, copied, written and both are released.\<close>

lemma copy_out_ok:
  assumes "inv {} s" and "src \<noteq> dst" and "v_avail (vw s) dst" and "0 < v_refs (vw s) src"
    and "v_refs (vw s) src < 2 ^ 32 - 1" "v_refs (vw s) dst < 2 ^ 32 - 1"
    and "\<And>t. frame s t \<Longrightarrow> dv t = dev \<and> A t = dst \<and> B t = src"
  shows "\<exists>t. bnd (rd (dv s) (A s) s) (\<lambda>(to, s). bnd (rd (dv s) (B s) s) (\<lambda>(from, s).
      let s = set_dat to (dat s from) s in bnd (wr to s) (\<lambda>s. bnd (rel from s) (\<lambda>s. rel to s)))) = Inr t
    \<and> inv {} t \<and> frame s t \<and> vw t = v_write dst (v_set dst (v_content (vw s) src) (vw s))"
proof -
  note fr = frame_trans
  let ?d = "v_content (vw s) src"
  obtain a s1 where 1: "rd dev dst s = Inr (a, s1)" "inv {dst} s1" "has s1 a dst" "vw s1 = v_ref dst 1 (vw s)" "frame s s1"
    using rd_ok [OF assms(1) _ assms(6,3)] by blast
  have "v_refs (vw s1) src < 2 ^ 32 - 1" "v_avail (vw s1) src" "src \<notin> {dst}"
    using assms(2,4,5) by (simp_all add: 1(4) v_ref_def v_avail_def)
  from rd_ok [OF 1(2) this(3,1,2)] obtain b s2 where 2: "rd dev src s1 = Inr (b, s2)" "inv {src, dst} s2" "has s2 b src"
    "vw s2 = v_ref src 1 (vw s1)" "frame s1 s2" "has s2 a dst" using 1(3) by (auto simp: insert_commute)
  have d: "dat s2 b = ?d" using dat_ok [OF 2(2,3)] by (simp add: 2(4) 1(4) v_ref_def)
  let ?s3 = "set_dat a ?d s2"
  have 3: "inv {src, dst} ?s3" "vw ?s3 = v_set dst ?d (vw s2)" "frame s2 ?s3" "has ?s3 a dst" "has ?s3 b src"
    using set_ok [OF 2(2,6)] 2(3,6) by blast+
  from wr_ok [OF 3(1,4)] obtain s4 where 4: "wr a ?s3 = Inr s4" "inv {src, dst} s4" "vw s4 = v_write dst (vw ?s3)" "frame ?s3 s4"
    "has s4 a dst" "has s4 b src" using 3(4,5) by blast
  note vv = 1(4) 2(4) 3(2) 4(3) v_defs
  have "1 < v_refs (vw s4) src" using assms(2,4) by (simp add: vv nat_add_distrib)
  with rel_ok [OF 4(2) _ 4(6)] obtain s5 where 5: "rel b s4 = Inr s5" "inv ({src, dst} - {src}) s5" "vw s5 = v_ref src (- 1) (vw s4)"
    "frame s4 s5" "has s5 a dst" using 4(5) assms(2) by blast
  have "inv {dst} s5" using 5(2) assms(2) by (simp add: insert_Diff_if)
  moreover have "v_content (vw s5) dst = v_disk (vw s5) dst" by (simp add: vv 5(3))
  ultimately obtain t where 6: "rel a s5 = Inr t" "inv ({dst} - {dst}) t" "vw t = v_ref dst (- 1) (vw s5)" "frame s5 t"
    using rel_ok [of "{dst}" s5 dst a] 5(5) by blast
  have "vw t = v_write dst (v_set dst ?d (vw s))"
    using assms(2) by (auto simp: vv 5(3) 6(3) fun_upd_twist nat_add_distrib intro!: bview.equality)
  moreover have "frame s t" using 1(5) 2(5) 3(3) 4(4) 5(4) 6(4) fr by meson
  moreover have "dv s1 = dev" "B s1 = src" "dv s = dev" "A s = dst" using assms(7) 1(5) frame_refl by auto
  ultimately show ?thesis using 1(1) 2(1) 4(1) 5(1) 6(1,2) d by (simp add: Let_def)
qed

lemma copy_home_ok:
  assumes "inv {} s" and "src \<noteq> dst" and "v_avail (vw s) src" and "card {m. 0 < v_refs (vw s) m} < NBUF - 1 \<or> 0 < v_refs (vw s) dst"
    and "v_content (vw s) src = v_disk (vw s) src" and "\<not> rec \<longrightarrow> 0 < v_refs (vw s) dst"
    and "v_refs (vw s) src < 2 ^ 32 - 1" "v_refs (vw s) dst < 2 ^ 32 - 1"
    and "\<And>t. frame s t \<Longrightarrow> dv t = dev \<and> A t = src \<and> B t = dst"
  shows "\<exists>t. bnd (rd (dv s) (A s) s) (\<lambda>(lbuf, s). bnd (rd (dv s) (B s) s) (\<lambda>(dbuf, s).
      let s = set_dat dbuf (dat s lbuf) s in bnd (wr dbuf s) (\<lambda>s. bnd (if \<not> rec then unpin dbuf s else Inr s) (\<lambda>s.
      bnd (rel lbuf s) (\<lambda>s. rel dbuf s))))) = Inr t
    \<and> inv {} t \<and> frame s t \<and> vw t = v_ref dst (if rec then 0 else - 1) (v_write dst (v_set dst (v_content (vw s) src) (vw s)))"
proof -
  note fr = frame_trans
  let ?d = "v_content (vw s) src"
  obtain a s1 where 1: "rd dev src s = Inr (a, s1)" "inv {src} s1" "has s1 a src" "vw s1 = v_ref src 1 (vw s)" "frame s s1"
    using rd_ok [OF assms(1) _ assms(7,3)] by blast
  have "v_refs (vw s1) dst < 2 ^ 32 - 1" "dst \<notin> {src}" using assms(2,8) by (simp_all add: 1(4) v_ref_def)
  moreover have "v_avail (vw s1) dst"
  proof (cases "0 < v_refs (vw s) dst")
    case False
    have "{m. 0 < v_refs (vw s1) m} \<subseteq> insert src {m. 0 < v_refs (vw s) m}" by (auto simp: 1(4) v_ref_def)
    moreover have "finite {m :: u32. 0 < v_refs (vw s) m}" by simp
    ultimately have "card {m. 0 < v_refs (vw s1) m} \<le> card (insert src {m. 0 < v_refs (vw s) m})" by (intro card_mono) auto
    also have "\<dots> \<le> Suc (card {m. 0 < v_refs (vw s) m})" by (simp add: card_insert_if)
    finally show ?thesis using False assms(4) by (simp add: v_avail_def)
  qed (use assms(2) in \<open>simp add: 1(4) v_ref_def v_avail_def\<close>)
  ultimately obtain b s2 where 2: "rd dev dst s1 = Inr (b, s2)" "inv {src, dst} s2" "has s2 b dst"
    "vw s2 = v_ref dst 1 (vw s1)" "frame s1 s2" "has s2 a src" using rd_ok [OF 1(2)] 1(3) by (auto simp: insert_commute) blast
  have d: "dat s2 a = ?d" using dat_ok [OF 2(2,6)] by (simp add: 2(4) 1(4) v_ref_def)
  let ?s3 = "set_dat b ?d s2"
  have 3: "inv {src, dst} ?s3" "vw ?s3 = v_set dst ?d (vw s2)" "frame s2 ?s3" "has ?s3 b dst" "has ?s3 a src"
    using set_ok [OF 2(2,3)] 2(3,6) by blast+
  from wr_ok [OF 3(1,4)] obtain s4 where 4: "wr b ?s3 = Inr s4" "inv {src, dst} s4" "vw s4 = v_write dst (vw ?s3)" "frame ?s3 s4"
    "has s4 b dst" "has s4 a src" using 3(4,5) by blast
  note vv = 1(4) 2(4) 3(2) 4(3) v_defs
  have "\<exists>t. (if \<not> rec then unpin b s4 else Inr s4) = Inr t \<and> inv {src, dst} t \<and> vw t = v_ref dst (if rec then 0 else - 1) (vw s4)
      \<and> frame s4 t \<and> has t b dst \<and> has t a src"
  proof (cases rec)
    case True
    then show ?thesis using 4(2,5,6) frame_refl by (simp add: v_ref_def)
  next
    case False
    then have "1 < v_refs (vw s4) dst" using assms(2,6) by (simp add: vv nat_add_distrib)
    from unpin_ok [OF 4(2,5) this] False show ?thesis using 4(5,6) by auto
  qed
  then obtain s5 where 5: "(if \<not> rec then unpin b s4 else Inr s4) = Inr s5" "inv {src, dst} s5"
    "vw s5 = v_ref dst (if rec then 0 else - 1) (vw s4)" "frame s4 s5" "has s5 b dst" "has s5 a src" by blast
  have "v_content (vw s5) src = ?d" "v_disk (vw s5) src = v_disk (vw s) src" using assms(2) by (simp_all add: vv 5(3))
  then have "v_content (vw s5) src = v_disk (vw s5) src" using assms(5) by simp
  with rel_ok [OF 5(2) _ 5(6)] obtain s6 where 6: "rel a s5 = Inr s6" "inv ({src, dst} - {src}) s6" "vw s6 = v_ref src (- 1) (vw s5)"
    "frame s5 s6" "has s6 b dst" using 5(5) assms(2) by blast
  have "inv {dst} s6" using 6(2) assms(2) by (simp add: insert_Diff_if)
  moreover have "v_content (vw s6) dst = v_disk (vw s6) dst" by (simp add: vv 5(3) 6(3))
  ultimately obtain t where 7: "rel b s6 = Inr t" "inv ({dst} - {dst}) t" "vw t = v_ref dst (- 1) (vw s6)" "frame s6 t"
    using rel_ok [of "{dst}" s6 dst b] 6(5) by blast
  have "vw t = v_ref dst (if rec then 0 else - 1) (v_write dst (v_set dst ?d (vw s)))"
    using assms(2) by (auto simp: vv 5(3) 6(3) 7(3) fun_upd_twist nat_add_distrib intro!: bview.equality)
  moreover have "frame s t" using 1(5) 2(5) 3(3) 4(4) 5(4) 6(4) 7(4) fr by meson
  moreover have "dv s1 = dev" "B s1 = dst" "dv s = dev" "A s = src" using assms(9) 1(5) frame_refl by auto
  ultimately show ?thesis using 1(1) 2(1) 4(1) 5(1) 6(1) 7(1,2) d by (simp add: Let_def)
qed

end

interpretation bcache: block_cache dev "binv p dev" "holds p dev" "view dev" bstep bread bwrite brelse bpin bunpin
    "\<lambda>s b. b_data (bufs s b)" "\<lambda>b d. upd_buf b (\<lambda>x. x\<lparr>b_data := d\<rparr>)"
proof (unfold_locales, goal_cases)
  case (2 s t u)
  then show ?case by (rule bstep_trans)
next
  case (3 H s b bn)
  then show ?case using holds_content by (auto simp: binv_def view_def)
next
  case (4 H s bn)
  then show ?case using bread_holds [of p dev H s bn]
    by (auto simp: view_def v_avail_def avail_def v_defs nat_add_distrib)
next
  case (5 H s b bn d)
  then show ?case using set_data_holds [OF 5, of d] by (auto simp: view_def v_defs)
next
  case (6 H s b bn)
  then show ?case using bwrite_holds [OF 6] by (auto simp: view_def v_defs)
next
  case (7 H s bn b)
  then show ?case using brelse_holds [of p dev H s bn b] by (auto simp: view_def v_defs nat_int_minus1)
next
  case (8 H s b bn)
  then show ?case using bpin_holds [of p dev H s b bn] by (auto simp: view_def v_defs nat_add_distrib)
next
  case (9 H s b bn)
  then show ?case using bunpin_holds [of p dev H s b bn] by (auto simp: view_def v_defs nat_diff_distrib)
qed simp

end
