(* ===== verification/Journal.thy ===== *)
theory Journal
  imports Bcache Log
begin

text \<open>
  The proofs about the log (kernel/log.c): what a commit writes and in which order, what recovery
  makes of a disk that was cut off at any point of that order, and that the system calls between
  \<open>begin_op\<close> and \<open>end_op\<close> keep what a commit relies on.
\<close>

section \<open>Sequences of disk writes\<close>

definition puts :: "(u32 \<times> block) list \<Rightarrow> (u32 \<Rightarrow> block) \<Rightarrow> u32 \<Rightarrow> block" where
  "puts ws D = fold (\<lambda>(b, d) D. D(b := d)) ws D"

lemma puts_simps [simp]:
  "puts [] D = D" "puts ((b, d) # ws) D = puts ws (D(b := d))" "puts (ws @ vs) D = puts vs (puts ws D)"
  by (simp_all add: puts_def)

lemma puts_other: "b \<notin> fst ` set ws \<Longrightarrow> puts ws D b = D b"
  by (induction ws arbitrary: D) auto

lemma puts_nth:
  assumes "distinct (map f [0..<n])" "i < n"
  shows "puts (map (\<lambda>i. (f i, g i)) [0..<n]) D (f i) = g i"
  using assms
proof (induction n)
  case (Suc n)
  show ?case
  proof (cases "i = n")
    case False
    then have "f n \<noteq> f i" using Suc.prems by auto
    then show ?thesis using Suc False by simp
  qed simp
qed simp

definition v_puts :: "(u32 \<times> block) list \<Rightarrow> bview \<Rightarrow> bview" where
  "v_puts ws v = v\<lparr>v_content := puts ws (v_content v), v_disk := puts ws (v_disk v), v_writes := v_writes v @ ws\<rparr>"

lemma v_puts_simps [simp]:
  "v_content (v_puts ws v) = puts ws (v_content v)" "v_disk (v_puts ws v) = puts ws (v_disk v)"
  "v_refs (v_puts ws v) = v_refs v" "v_writes (v_puts ws v) = v_writes v @ ws"
  "v_puts [] v = v" "v_puts vs (v_puts ws v) = v_puts (ws @ vs) v"
  by (simp_all add: v_puts_def)

lemma v_write_puts: "v_write b (v_set b d v) = v_puts [(b, d)] v"
  by (simp add: v_puts_def v_defs)

lemma view_simps' [simp]:
  "v_content (view dev s) = content dev s" "v_refs (view dev s) = refs dev s"
  "v_disk (view dev s) = disk s" "v_writes (view dev s) = dwrites s"
  by (simp_all add: view_def)

section \<open>The layout of the log\<close>

definition hblk :: "log \<Rightarrow> u32" where "hblk l = word_of_int (l_start l)"
definition lblk :: "log \<Rightarrow> nat \<Rightarrow> u32" where "lblk l i = word_of_int (l_start l + int i + 1)"

text \<open>A block that is not part of the log.\<close>

definition home :: "log \<Rightarrow> u32 \<Rightarrow> bool" where
  "home l b \<longleftrightarrow> b \<noteq> hblk l \<and> (\<forall>i < nat LOGSIZE. b \<noteq> lblk l i)"

text \<open>The header in memory lists these blocks.\<close>

definition logs :: "log \<Rightarrow> u32 list \<Rightarrow> bool" where
  "logs l bs \<longleftrightarrow> lh_n l = int (length bs) \<and> (\<forall>i < length bs. word_of_int (lh_block l i) = bs ! i)"

lemma word_of_int_near: "\<bar>a - b\<bar> < 2 ^ 32 \<Longrightarrow> (word_of_int a :: u32) = word_of_int b \<longleftrightarrow> a = b"
proof
  assume a: "\<bar>a - b\<bar> < 2 ^ 32" and "(word_of_int a :: u32) = word_of_int b"
  then have "a mod 2 ^ 32 = b mod 2 ^ 32" by (simp add: word_of_int_eq_iff take_bit_eq_mod)
  then have "2 ^ 32 dvd a - b" by (rule mod_eq_dvd_iff [THEN iffD1])
  then show "a = b" using a zdvd_not_zless [of "\<bar>a - b\<bar>" "2 ^ 32"] by (cases "a = b") auto
qed simp

lemma lblk_inj [simp]: "i < nat LOGSIZE \<Longrightarrow> j < nat LOGSIZE \<Longrightarrow> lblk l i = lblk l j \<longleftrightarrow> i = j"
  using word_of_int_near [of "l_start l + int i + 1" "l_start l + int j + 1"] by (simp add: lblk_def del: of_int_add)

lemma lblk_hblk [simp]: "i < nat LOGSIZE \<Longrightarrow> lblk l i \<noteq> hblk l" "i < nat LOGSIZE \<Longrightarrow> hblk l \<noteq> lblk l i"
  using word_of_int_near [of "l_start l + int i + 1" "l_start l"] by (simp_all add: lblk_def hblk_def del: of_int_add)

lemma lblk_distinct: "n \<le> nat LOGSIZE \<Longrightarrow> distinct (map (lblk l) [0..<n])"
  by (auto simp: distinct_map inj_on_def)

lemma lblk_not_home [simp]: "i < nat LOGSIZE \<Longrightarrow> \<not> home l (lblk l i)" and hblk_not_home [simp]: "\<not> home l (hblk l)"
  by (auto simp: home_def)

lemma bstep_log: "bstep s t \<Longrightarrow> log t = log s" for s :: "'a logstate_scheme"
proof -
  assume "bstep s t"
  then obtain P K B D W where "lk_cycle t = (lk_cycle s)\<lparr>proc := P, sleeplocks := K, bufs := B, disk := D, dwrites := W\<rparr>"
    by (auto simp: bstep_def)
  from arg_cong [OF this, of log] show ?thesis by (simp add: lk_comm)
qed

text \<open>
  What the loops of a commit rely on: the cache is in order and no buffer is locked, the log's own
  blocks are not referenced, and a buffer is not in use.
\<close>

definition log_idle :: "nat \<Rightarrow> 'a logstate_scheme \<Rightarrow> bool" where
  "log_idle p s \<longleftrightarrow> binv p (word_of_int (l_dev (log s))) {} s
     \<and> (\<forall>b. \<not> home (log s) b \<longrightarrow> refs (word_of_int (l_dev (log s))) s b = 0)
     \<and> card {m. 0 < refs (word_of_int (l_dev (log s))) s m} < NBUF"

abbreviation log_dev :: "'a logstate_scheme \<Rightarrow> u32" where
  "log_dev s \<equiv> word_of_int (l_dev (log s))"

abbreviation log_view :: "'a logstate_scheme \<Rightarrow> bview" where
  "log_view s \<equiv> view (log_dev s) s"

section \<open>The copies\<close>

lemma write_log_ok:
  fixes s :: "'a logstate_scheme"
  assumes "log_idle p s" and "logs (log s) bs" and "length bs \<le> nat LOGSIZE"
    and "\<forall>b \<in> set bs. home (log s) b \<and> 0 < refs (log_dev s) s b \<and> refs (log_dev s) s b < 2 ^ 32 - 1"
  shows "\<exists>t. write_log s = Inr t \<and> binv p (log_dev s) {} t \<and> bstep s t
    \<and> log_view t = v_puts (map (\<lambda>i. (lblk (log s) i, content (log_dev s) s (bs ! i))) [0..<length bs]) (log_view s)"
proof -
  let ?ws = "\<lambda>k. map (\<lambda>i. (lblk (log s) i, content (log_dev s) s (bs ! i))) [0..<k]"
  let ?I = "\<lambda>k t. binv p (log_dev s) {} t \<and> bstep s t \<and> log_view t = v_puts (?ws k) (log_view s)"
  let ?f = "\<lambda>tail s. bnd (log_bread (l_start (log s) + int tail + 1) s) (\<lambda>(to, s).
       bnd (log_bread (lh_block (log s) tail) s) (\<lambda>(from, s).
       let s = upd_buf to (\<lambda>x. x\<lparr>b_data := b_data (bufs s from)\<rparr>) s
       in bnd (bwrite to s) (\<lambda>s. bnd (brelse from s) (\<lambda>s. brelse to s))))"
  have step: "\<exists>t'. ?f i t = Inr t' \<and> ?I (Suc i) t'" if i: "i < length bs" and I: "?I i t" for i t
  proof -
    have lg: "log t = log s" using I bstep_log by blast
    have v: "log_view t = v_puts (?ws i) (log_view s)" using I by blast
    have b: "home (log s) (bs ! i)" "0 < refs (log_dev s) s (bs ! i)" "refs (log_dev s) s (bs ! i) < 2 ^ 32 - 1"
      using assms(4) i by auto
    have ri: "refs (log_dev s) t = refs (log_dev s) s" using arg_cong [OF v, of v_refs] lg by simp
    have ci: "content (log_dev s) t (bs ! i) = content (log_dev s) s (bs ! i)"
      using arg_cong [OF v, of v_content] lg b(1) i assms(3)
      by (simp add: puts_other home_def image_iff)
    have z: "refs (log_dev s) s (lblk (log s) i) = 0"
      using assms(1,3) i lblk_not_home [of i] by (simp add: log_idle_def)
    have "\<exists>t'. ?f i t = Inr t' \<and> binv p (log_dev s) {} t' \<and> bstep t t' \<and> view (log_dev s) t' =
        v_write (lblk (log s) i) (v_set (lblk (log s) i) (v_content (view (log_dev s) t) (bs ! i)) (view (log_dev s) t))"
    proof (rule bcache.copy_out_ok)
      show "binv p (log_dev s) {} t" using I by blast
      show "bs ! i \<noteq> lblk (log s) i" using b(1) i assms(3) by (auto simp: home_def)
      show "v_avail (view (log_dev s) t) (lblk (log s) i)" using assms(1) ri by (simp add: v_avail_def log_idle_def)
      show "0 < v_refs (view (log_dev s) t) (bs ! i)" "v_refs (view (log_dev s) t) (bs ! i) < 2 ^ 32 - 1"
        "v_refs (view (log_dev s) t) (lblk (log s) i) < 2 ^ 32 - 1" using b(2,3) z ri by simp_all
      show "log_dev u = log_dev s \<and> word_of_int (l_start (log u) + int i + 1) = lblk (log s) i
          \<and> word_of_int (lh_block (log u) i) = bs ! i" if "bstep t u" for u
        using bstep_log [OF that] lg assms(2) i by (simp add: lblk_def logs_def)
    qed
    then obtain t' where t': "?f i t = Inr t'" "binv p (log_dev s) {} t'" "bstep t t'"
      "view (log_dev s) t' = v_puts [(lblk (log s) i, content (log_dev s) s (bs ! i))] (view (log_dev s) t)"
      unfolding v_write_puts by (auto simp: ci)
    have "log t' = log s" using bstep_log [OF t'(3)] lg by simp
    then have "log_view t' = v_puts (?ws (Suc i)) (log_view s)" using t'(4) v lg by simp
    then show ?thesis using t'(1,2) bstep_trans [OF _ t'(3)] I by blast
  qed
  have "?I 0 s" using assms(1) by (simp add: log_idle_def)
  from for_each_upt [where I = ?I, OF this step] show ?thesis
    using assms(2) unfolding write_log_def logs_def by simp
qed

text \<open>The bytes of the header block that \<open>write_head\<close> writes.\<close>

definition hdr_bytes :: "log \<Rightarrow> block \<Rightarrow> block" where
  "hdr_bytes l d = fold (\<lambda>i d. wr32 d (4 + 4 * i) (word_of_int (lh_block l i))) [0..<nat (lh_n l)] (wr32 d 0 (word_of_int (lh_n l)))"

lemma fold_upd_buf:
  fixes s :: "'a logstate_scheme"
  shows "fold (\<lambda>i s. upd_buf b (\<lambda>x. x\<lparr>b_data := g i (log s) (b_data x)\<rparr>) s) is s =
    upd_buf b (\<lambda>x. x\<lparr>b_data := fold (\<lambda>i. g i (log s)) is (b_data x)\<rparr>) s"
  by (induction "is" arbitrary: s) (simp_all add: upd_buf_def)

lemma write_head_eq:
  "write_head s = bnd (log_bread (l_start (log s)) s) (\<lambda>(buf, s).
     let s = upd_buf buf (\<lambda>x. x\<lparr>b_data := hdr_bytes (log s) (b_data (bufs s buf))\<rparr>) s
     in bnd (bwrite buf s) (\<lambda>s. brelse buf s))"
  unfolding write_head_def Let_def fold_upd_buf [where g = "\<lambda>i l d. wr32 d (4 + 4 * i) (word_of_int (lh_block l i))"]
  by (simp add: hdr_bytes_def upd_buf_def)

lemma write_head_ok:
  fixes s :: "'a logstate_scheme"
  assumes "log_idle p s"
  shows "\<exists>t. write_head s = Inr t \<and> binv p (log_dev s) {} t \<and> bstep s t
    \<and> log_view t = v_puts [(hblk (log s), hdr_bytes (log s) (content (log_dev s) s (hblk (log s))))] (log_view s)"
proof -
  have "\<exists>t. write_head s = Inr t \<and> binv p (log_dev s) {} t \<and> bstep s t \<and> view (log_dev s) t =
      v_write (hblk (log s)) (v_set (hblk (log s)) (hdr_bytes (log s) (v_content (log_view s) (hblk (log s)))) (log_view s))"
    unfolding write_head_eq
  proof (rule bcache.update_ok)
    show "binv p (log_dev s) {} s" "v_avail (log_view s) (hblk (log s))" "v_refs (log_view s) (hblk (log s)) < 2 ^ 32 - 1"
      using assms by (simp_all add: log_idle_def v_avail_def)
    show "log_dev t = log_dev s \<and> word_of_int (l_start (log t)) = hblk (log s) \<and> hdr_bytes (log t) = hdr_bytes (log s)"
      if "bstep s t" for t using bstep_log [OF that] by (simp add: hblk_def)
  qed
  then show ?thesis unfolding v_write_puts using bstep_log by (metis view_simps'(1))
qed

lemma binv_log [simp]: "binv p dev H (s\<lparr>log := l\<rparr>) = binv p dev H s" "holds p dev (s\<lparr>log := l\<rparr>) b bn = holds p dev s b bn"
  "view dev (s\<lparr>log := l\<rparr>) = view dev s"
proof -
  have "calm p (s\<lparr>log := l\<rparr>) = calm p s" "bc_inv dev (s\<lparr>log := l\<rparr>) = bc_inv dev s" for s :: "'a logstate_scheme"
    by (simp_all add: calm_def lk_comm bc_inv_def)
  moreover show h: "holds p dev (s\<lparr>log := l\<rparr>) b bn = holds p dev s b bn" for b bn by (simp add: holds_def bheld_def)
  ultimately show "binv p dev H (s\<lparr>log := l\<rparr>) = binv p dev H s" by (simp add: binv_def)
  show "view dev (s\<lparr>log := l\<rparr>) = view dev s" by (simp add: view_def content_def refs_def fun_eq_iff split: option.split)
qed

lemma content_log [simp]: "content dev (s\<lparr>log := l\<rparr>) = content dev s" "refs dev (s\<lparr>log := l\<rparr>) = refs dev s"
  by (metis binv_log(3) view_simps'(1)) (metis binv_log(3) view_simps'(2))

text \<open>Reading back what \<open>write_head\<close> wrote.\<close>

lemma hdr_fold:
  assumes "4 + 4 * n \<le> length d"
  shows "length (fold (\<lambda>i d. wr32 d (4 + 4 * i) (f i)) [0..<n] d) = length d
    \<and> rd32 (fold (\<lambda>i d. wr32 d (4 + 4 * i) (f i)) [0..<n] d) 0 = rd32 d 0
    \<and> (\<forall>i < n. rd32 (fold (\<lambda>i d. wr32 d (4 + 4 * i) (f i)) [0..<n] d) (4 + 4 * i) = f i)"
  using assms
proof (induction n)
  case (Suc n)
  let ?d = "fold (\<lambda>i d. wr32 d (4 + 4 * i) (f i)) [0..<n] d"
  have l: "length ?d = length d" "rd32 ?d 0 = rd32 d 0" and r: "\<forall>i < n. rd32 ?d (4 + 4 * i) = f i"
    using Suc by auto
  have "rd32 (wr32 ?d (4 + 4 * n) (f n)) (4 + 4 * i) = f i" if "i < Suc n" for i
  proof (cases "i = n")
    case False
    then show ?thesis using that r l Suc.prems rd_wr_other(1) [of "4 + 4 * n" ?d "4 + 4 * i" "f n"] by simp
  qed (use l Suc.prems in simp)
  moreover have "rd32 (wr32 ?d (4 + 4 * n) (f n)) 0 = rd32 d 0"
    using l Suc.prems rd_wr_other(1) [of "4 + 4 * n" ?d 0 "f n"] by simp
  ultimately show ?case using l Suc.prems by simp
qed simp

lemma hdr_bytes_read:
  assumes "length d = BSIZE" and "nat (lh_n l) \<le> nat LOGSIZE"
  shows "length (hdr_bytes l d) = BSIZE" and "rd32 (hdr_bytes l d) 0 = word_of_int (lh_n l)"
    and "i < nat (lh_n l) \<Longrightarrow> rd32 (hdr_bytes l d) (4 + 4 * i) = word_of_int (lh_block l i)"
  using hdr_fold [of "nat (lh_n l)" "wr32 d 0 (word_of_int (lh_n l))" "\<lambda>i. word_of_int (lh_block l i)"] assms
  by (simp_all add: hdr_bytes_def)

lemma fold_upd_log:
  "fold (\<lambda>i s. upd_log (\<lambda>l. l\<lparr>lh_block := (lh_block l)(i := f i)\<rparr>) s) [0..<n] s =
     upd_log (\<lambda>l. l\<lparr>lh_block := \<lambda>i. if i < n then f i else lh_block l i\<rparr>) s"
  by (induction n) (auto simp: fun_eq_iff less_Suc_eq)

text \<open>The header that a header block stands for.\<close>

definition hdr_load :: "block \<Rightarrow> log \<Rightarrow> log" where
  "hdr_load d l = l\<lparr>lh_n := sint (rd32 d 0), lh_block := \<lambda>i. if i < nat (sint (rd32 d 0)) then sint (rd32 d (4 + 4 * i)) else lh_block l i\<rparr>"

lemma read_head_ok:
  fixes s :: "'a logstate_scheme"
  assumes "log_idle p s" and "content (log_dev s) s (hblk (log s)) = disk s (hblk (log s))"
  shows "\<exists>t. read_head s = Inr t \<and> binv p (log_dev s) {} t \<and> view (log_dev s) t = log_view s
    \<and> log t = hdr_load (content (log_dev s) s (hblk (log s))) (log s)"
proof -
  let ?d = "content (log_dev s) s (hblk (log s))"
  have i: "binv p (log_dev s) {} s" "v_refs (log_view s) (hblk (log s)) = 0" "v_avail (log_view s) (hblk (log s))"
    using assms(1) by (simp_all add: log_idle_def v_avail_def)
  from bcache.rd_ok [OF i(1) _ _ i(3)] i(2) obtain b s1 where 1: "bread (log_dev s) (hblk (log s)) s = Inr (b, s1)"
    "binv p (log_dev s) {hblk (log s)} s1" "holds p (log_dev s) s1 b (hblk (log s))" "view (log_dev s) s1 = v_ref (hblk (log s)) 1 (log_view s)"
    "bstep s s1" by auto
  have c: "b_data (bufs s1 b) = ?d" using bcache.dat_ok [OF 1(2,3)] unfolding 1(4) by (simp add: v_ref_def)
  let ?s2 = "s1\<lparr>log := hdr_load ?d (log s)\<rparr>"
  have 2: "binv p (log_dev s) {hblk (log s)} ?s2" "holds p (log_dev s) ?s2 b (hblk (log s))"
    "v_content (view (log_dev s) ?s2) (hblk (log s)) = v_disk (view (log_dev s) ?s2) (hblk (log s))"
    using 1(2,3) assms(2) by (simp_all only: binv_log 1(4)) (simp add: v_ref_def)
  from bcache.rel_ok [OF 2(1) _ 2(2)] 2(3) obtain t where t: "brelse b ?s2 = Inr t" "binv p (log_dev s) ({hblk (log s)} - {hblk (log s)}) t"
    "view (log_dev s) t = v_ref (hblk (log s)) (- 1) (view (log_dev s) ?s2)" "bstep ?s2 t" by blast
  have "view (log_dev s) t = log_view s" unfolding t(3) binv_log 1(4) by (auto simp: v_ref_def i(2) intro!: bview.equality)
  moreover have "log t = hdr_load ?d (log s)" using bstep_log [OF t(4)] by simp
  moreover have "read_head s = Inr t"
    using 1(1) t(1) c bstep_log [OF 1(5)] unfolding read_head_def hblk_def
    by (simp add: Let_def fold_upd_log hdr_load_def cong: if_cong)
  ultimately show ?thesis using t(2) by simp
qed

lemma v_ref_puts: "v_ref b k (v_puts ws v) = v_puts ws (v_ref b k v)"
  by (simp add: v_puts_def v_ref_def)

text \<open>The references after an installation: outside recovery each block is unpinned.\<close>

definition unpinned :: "bool \<Rightarrow> u32 list \<Rightarrow> (u32 \<Rightarrow> nat) \<Rightarrow> u32 \<Rightarrow> nat" where
  "unpinned rec bs r b = (if \<not> rec \<and> b \<in> set bs then r b - 1 else r b)"

lemma install_trans_ok:
  fixes s :: "'a logstate_scheme"
  assumes "log_idle p s" and "logs (log s) bs" and "length bs \<le> nat LOGSIZE" and "distinct bs"
    and "\<forall>b \<in> set bs. home (log s) b \<and> refs (log_dev s) s b < 2 ^ 32 - 1"
    and "\<not> rec \<longrightarrow> (\<forall>b \<in> set bs. 0 < refs (log_dev s) s b)"
    and "rec \<longrightarrow> (\<forall>b. refs (log_dev s) s b = 0)"
    and "\<forall>b. \<not> home (log s) b \<longrightarrow> content (log_dev s) s b = disk s b"
  shows "\<exists>t. install_trans rec s = Inr t \<and> binv p (log_dev s) {} t \<and> bstep s t
    \<and> log_view t = v_puts (map (\<lambda>i. (bs ! i, content (log_dev s) s (lblk (log s) i))) [0..<length bs])
        ((log_view s)\<lparr>v_refs := unpinned rec bs (refs (log_dev s) s)\<rparr>)"
proof -
  let ?ws = "\<lambda>k. map (\<lambda>i. (bs ! i, content (log_dev s) s (lblk (log s) i))) [0..<k]"
  let ?R = "\<lambda>k. unpinned rec (take k bs) (refs (log_dev s) s)"
  let ?I = "\<lambda>k t. binv p (log_dev s) {} t \<and> bstep s t \<and> log_view t = v_puts (?ws k) ((log_view s)\<lparr>v_refs := ?R k\<rparr>)"
  let ?f = "\<lambda>tail s. bnd (log_bread (l_start (log s) + int tail + 1) s) (\<lambda>(lbuf, s).
       bnd (log_bread (lh_block (log s) tail) s) (\<lambda>(dbuf, s).
       let s = upd_buf dbuf (\<lambda>x. x\<lparr>b_data := b_data (bufs s lbuf)\<rparr>) s
       in bnd (bwrite dbuf s) (\<lambda>s. bnd (if \<not> rec then bunpin dbuf s else Inr s) (\<lambda>s.
       bnd (brelse lbuf s) (\<lambda>s. brelse dbuf s)))))"
  have step: "\<exists>t'. ?f i t = Inr t' \<and> ?I (Suc i) t'" if i: "i < length bs" and I: "?I i t" for i t
  proof -
    have lg: "log t = log s" using I bstep_log by blast
    have v: "view (log_dev s) t = v_puts (?ws i) ((log_view s)\<lparr>v_refs := ?R i\<rparr>)" using I lg by simp
    have b: "home (log s) (bs ! i)" "refs (log_dev s) s (bs ! i) < 2 ^ 32 - 1" "\<not> rec \<longrightarrow> 0 < refs (log_dev s) s (bs ! i)"
      using assms(5,6) i by auto
    have new: "bs ! i \<notin> set (take i bs)" using assms(4) i by (auto simp: in_set_conv_nth nth_eq_iff_index_eq)
    have ne: "lblk (log s) i \<notin> fst ` set (?ws i)" "lblk (log s) i \<noteq> bs ! i"
      using assms(3,5) i by (auto simp: home_def) (metis home_def nth_mem order_less_trans order_less_le_trans)+
    have r: "refs (log_dev s) t = ?R i" using arg_cong [OF v, of v_refs] by simp
    have c: "v_content (view (log_dev s) t) (lblk (log s) i) = content (log_dev s) s (lblk (log s) i)"
      "v_disk (view (log_dev s) t) (lblk (log s) i) = content (log_dev s) s (lblk (log s) i)"
      using ne(1) assms(3,8) i by (simp_all add: v puts_other)
    have "{m. 0 < ?R i m} \<subseteq> {m. 0 < refs (log_dev s) s m}" by (auto simp: unpinned_def split: if_splits)
    then have "card {m. 0 < ?R i m} \<le> card {m. 0 < refs (log_dev s) s m}" by (intro card_mono) auto
    then have cd: "card {m. 0 < ?R i m} < NBUF" using assms(1) by (simp add: log_idle_def)
    have z: "?R i (lblk (log s) i) = 0" using assms(1,3) i by (simp add: unpinned_def log_idle_def)
    have "\<exists>t'. ?f i t = Inr t' \<and> binv p (log_dev s) {} t' \<and> bstep t t' \<and> view (log_dev s) t' =
        v_ref (bs ! i) (if rec then 0 else - 1) (v_write (bs ! i) (v_set (bs ! i) (v_content (view (log_dev s) t) (lblk (log s) i)) (view (log_dev s) t)))"
    proof (rule bcache.copy_home_ok)
      show "binv p (log_dev s) {} t" using I by blast
      show "lblk (log s) i \<noteq> bs ! i" by (rule ne(2))
      show "v_avail (view (log_dev s) t) (lblk (log s) i)" using cd r by (simp add: v_avail_def)
      show "card {m. 0 < v_refs (view (log_dev s) t) m} < NBUF - 1 \<or> 0 < v_refs (view (log_dev s) t) (bs ! i)"
        using assms(7) b(3) new by (cases rec) (auto simp: r unpinned_def)
      show "v_content (view (log_dev s) t) (lblk (log s) i) = v_disk (view (log_dev s) t) (lblk (log s) i)" using c by simp
      show "\<not> rec \<longrightarrow> 0 < v_refs (view (log_dev s) t) (bs ! i)" using b(3) new by (auto simp: r unpinned_def)
      show "v_refs (view (log_dev s) t) (lblk (log s) i) < 2 ^ 32 - 1" "v_refs (view (log_dev s) t) (bs ! i) < 2 ^ 32 - 1"
        using z b(2) new by (simp_all add: r unpinned_def)
      show "log_dev u = log_dev s \<and> word_of_int (l_start (log u) + int i + 1) = lblk (log s) i
          \<and> word_of_int (lh_block (log u) i) = bs ! i" if "bstep t u" for u
        using bstep_log [OF that] lg assms(2) i by (simp add: lblk_def logs_def)
    qed
    then obtain t' where t': "?f i t = Inr t'" "binv p (log_dev s) {} t'" "bstep t t'"
      "view (log_dev s) t' = v_ref (bs ! i) (if rec then 0 else - 1)
         (v_puts [(bs ! i, content (log_dev s) s (lblk (log s) i))] (view (log_dev s) t))"
      unfolding v_write_puts c by blast
    have "v_ref (bs ! i) (if rec then 0 else - 1) ((log_view s)\<lparr>v_refs := ?R i\<rparr>) = (log_view s)\<lparr>v_refs := ?R (Suc i)\<rparr>"
      using new i by (auto simp: v_ref_def unpinned_def fun_eq_iff take_Suc_conv_app_nth intro!: bview.equality)
    then have "view (log_dev s) t' = v_puts (?ws (Suc i)) ((log_view s)\<lparr>v_refs := ?R (Suc i)\<rparr>)"
      using t'(4) v by (simp add: v_ref_puts)
    moreover have "log t' = log s" using bstep_log [OF t'(3)] lg by simp
    ultimately show ?thesis using t'(1,2) bstep_trans [OF _ t'(3)] I by simp
  qed
  have "(log_view s)\<lparr>v_refs := ?R 0\<rparr> = log_view s" by (auto simp: unpinned_def fun_eq_iff intro!: bview.equality)
  then have "?I 0 s" using assms(1) by (simp add: log_idle_def)
  then have "\<exists>t. for_each [0..<length bs] ?f s = Inr t \<and> ?I (length bs) t"
    by (rule for_each_upt [where I = ?I]) (use step in blast)
  then show ?thesis using assms(2) bstep_log unfolding install_trans_def logs_def by simp
qed

section \<open>What a disk stands for\<close>

text \<open>
  The header block lists the blocks \<open>bs\<close>; \<open>installed\<close> is the disk with those blocks copied from the log.
  A disk represents the contents \<open>V\<close> if the installation of what its log holds gives \<open>V\<close> outside the log.
\<close>

definition hdr_ok :: "log \<Rightarrow> (u32 \<Rightarrow> block) \<Rightarrow> u32 list \<Rightarrow> bool" where
  "hdr_ok l D bs \<longleftrightarrow> length (D (hblk l)) = BSIZE \<and> sint (rd32 (D (hblk l)) 0) = int (length bs)
     \<and> (\<forall>i < length bs. rd32 (D (hblk l)) (4 + 4 * i) = bs ! i)"

definition installs :: "log \<Rightarrow> u32 list \<Rightarrow> (u32 \<Rightarrow> block) \<Rightarrow> (u32 \<times> block) list" where
  "installs l bs D = map (\<lambda>i. (bs ! i, D (lblk l i))) [0..<length bs]"

definition fits :: "log \<Rightarrow> u32 list \<Rightarrow> bool" where
  "fits l bs \<longleftrightarrow> length bs \<le> nat LOGSIZE \<and> distinct bs \<and> (\<forall>b \<in> set bs. home l b)"

definition represents :: "log \<Rightarrow> (u32 \<Rightarrow> block) \<Rightarrow> (u32 \<Rightarrow> block) \<Rightarrow> bool" where
  "represents l D V \<longleftrightarrow> (\<exists>bs. fits l bs \<and> hdr_ok l D bs \<and> (\<forall>b. home l b \<longrightarrow> puts (installs l bs D) D b = V b))"

lemma set_installs [simp]: "fst ` set (installs l bs D) = set bs"
  by (force simp: installs_def set_conv_nth)

lemma fits_Nil [simp]: "fits l []"
  by (simp add: fits_def)

lemma fitsD:
  assumes "fits l bs"
  shows "hblk l \<notin> set bs" and "i < length bs \<Longrightarrow> lblk l i \<notin> set bs" and "i < length bs \<Longrightarrow> i < nat LOGSIZE"
proof -
  show "hblk l \<notin> set bs" using assms hblk_not_home by (auto simp: fits_def)
  show L: "i < nat LOGSIZE" if "i < length bs" using assms that by (simp add: fits_def)
  show "lblk l i \<notin> set bs" if "i < length bs" using assms lblk_not_home [OF L [OF that]] by (auto simp: fits_def)
qed

text \<open>While a logged block is installed the represented contents stay.\<close>

lemma installs_prefix:
  assumes "fits l bs" and "\<forall>b. b \<notin> set bs \<longrightarrow> E b = D b"
  shows "installs l bs E = installs l bs D" and "puts (installs l bs D) E = puts (installs l bs D) D"
proof -
  show "installs l bs E = installs l bs D" unfolding installs_def using assms fitsD(2) [OF assms(1)] by simp
  show "puts (installs l bs D) E = puts (installs l bs D) D"
  proof
    fix b
    show "puts (installs l bs D) E b = puts (installs l bs D) D b"
    proof (cases "b \<in> set bs")
      case True
      then obtain i where "i < length bs" "b = bs ! i" by (auto simp: in_set_conv_nth)
      moreover have "map ((!) bs) [0..<length bs] = bs" by (rule map_nth)
      ultimately show ?thesis unfolding installs_def using puts_nth [of "(!) bs" "length bs" i] assms(1) by (simp add: fits_def)
    next
      case False
      then show ?thesis using assms(2) by (simp add: puts_other)
    qed
  qed
qed

lemma puts_not_set: "fst ` set ws \<subseteq> S \<Longrightarrow> b \<notin> S \<Longrightarrow> puts ws D b = D b"
  by (rule puts_other) auto

lemma hdr_ok_cong: "D (hblk l) = E (hblk l) \<Longrightarrow> hdr_ok l D bs = hdr_ok l E bs"
  by (simp add: hdr_ok_def)

lemma represents_install:
  assumes "fits l bs" "hdr_ok l D bs" "fst ` set ws \<subseteq> set bs"
  shows "represents l (puts ws D) (puts (installs l bs D) D)"
proof -
  have e: "\<forall>b. b \<notin> set bs \<longrightarrow> puts ws D b = D b" using assms(3) puts_not_set by blast
  then have "hdr_ok l (puts ws D) bs" using assms(2) fitsD(1) [OF assms(1)] hdr_ok_cong [of "puts ws D" l D] by simp
  then show ?thesis unfolding represents_def using installs_prefix [OF assms(1) e] assms(1) by metis
qed

lemma represents_clear:
  assumes "length d = BSIZE" "sint (rd32 d 0) = 0"
  shows "represents l (D(hblk l := d)) D"
  unfolding represents_def using assms by (intro exI [of _ "[]"]) (auto simp: hdr_ok_def installs_def home_def)

lemma represents_cong: "represents l D V \<Longrightarrow> (\<And>b. home l b \<Longrightarrow> V b = V' b) \<Longrightarrow> represents l D V'"
  unfolding represents_def by metis

section \<open>Recovery\<close>

text \<open>The cache after \<open>binit\<close>: nothing is referenced.\<close>

definition fresh :: "nat \<Rightarrow> 'a logstate_scheme \<Rightarrow> bool" where
  "fresh p s \<longleftrightarrow> binv p (log_dev s) {} s \<and> (\<forall>b. refs (log_dev s) s b = 0)"

lemma refs0_content: "bc_inv dev s \<Longrightarrow> refs dev s b = 0 \<Longrightarrow> content dev s b = disk s b"
proof (cases "bufof dev (bufs s) b")
  case (Some c)
  assume inv: "bc_inv dev s" and "refs dev s b = 0"
  then have "b_refcnt (bufs s c) = 0" using Some by (simp add: refs_def unat_eq_0)
  moreover have "hasbuf dev (bufs s) c b" using inv Some bufof_Some by (auto simp: bc_inv_def)
  ultimately show ?thesis using inv Some by (auto simp: content_def bc_inv_def hasbuf_def)
qed (simp add: content_def)

lemma fresh_idle: "fresh p s \<Longrightarrow> log_idle p s \<and> content (log_dev s) s = disk s"
  using refs0_content [of "log_dev s" s] by (simp add: fresh_def log_idle_def binv_def fun_eq_iff)

lemma log_idle_cong:
  assumes "log_idle p s" "binv p (log_dev s) {} t" "l_dev (log t) = l_dev (log s)" "l_start (log t) = l_start (log s)"
    "\<And>b. refs (log_dev s) t b \<le> refs (log_dev s) s b"
  shows "log_idle p t"
proof -
  have "{m. 0 < refs (log_dev s) t m} \<subseteq> {m. 0 < refs (log_dev s) s m}" using assms(5) by (auto intro: order_less_le_trans)
  then have "card {m. 0 < refs (log_dev s) t m} \<le> card {m. 0 < refs (log_dev s) s m}" by (intro card_mono) auto
  then have c: "card {m. 0 < refs (log_dev s) t m} < NBUF" using assms(1) by (simp add: log_idle_def)
  have "home (log t) b = home (log s) b" for b using assms(4) by (simp add: home_def hblk_def lblk_def)
  moreover have "refs (log_dev s) s b = 0 \<Longrightarrow> refs (log_dev s) t b = 0" for b using assms(5) [of b] by simp
  ultimately show ?thesis using assms(1,2,3) c by (simp add: log_idle_def)
qed

lemma hdr_load_simps [simp]:
  "l_dev (hdr_load d l) = l_dev l" "l_start (hdr_load d l) = l_start l"
  "hblk (hdr_load d l) = hblk l" "lblk (hdr_load d l) = lblk l" "home (hdr_load d l) = home l"
  "hblk (l\<lparr>lh_n := n\<rparr>) = hblk l" "lblk (l\<lparr>lh_n := n\<rparr>) = lblk l" "home (l\<lparr>lh_n := n\<rparr>) = home l"
  by (simp_all add: hdr_load_def hblk_def lblk_def home_def fun_eq_iff)

lemma hdr_load_logs: "hdr_ok l D bs \<Longrightarrow> logs (hdr_load (D (hblk l)) l) bs"
  by (simp add: hdr_ok_def logs_def hdr_load_def)

lemma recover_ok:
  fixes s :: "'a logstate_scheme"
  assumes "fresh p s" and "fits (log s) bs" and "hdr_ok (log s) (disk s) bs"
  shows "\<exists>t h. recover_from_log s = Inr t \<and> binv p (log_dev s) {} t \<and> log t = (hdr_load (disk s (hblk (log s))) (log s))\<lparr>lh_n := 0\<rparr>
    \<and> view (log_dev s) t = v_puts (installs (log s) bs (disk s) @ [(hblk (log s), h)]) (log_view s)
    \<and> length h = BSIZE \<and> rd32 h 0 = 0"
proof -
  note i = fresh_idle [OF assms(1)]
  let ?l = "hdr_load (disk s (hblk (log s))) (log s)"
  obtain s1 where 1: "read_head s = Inr s1" "binv p (log_dev s) {} s1" "view (log_dev s) s1 = log_view s" "log s1 = ?l"
    using read_head_ok [of p s] i by auto
  have r1: "refs (log_dev s) s1 b = 0" "content (log_dev s) s1 b = disk s b" "disk s1 b = disk s b" for b
    using arg_cong [OF 1(3), of v_refs] arg_cong [OF 1(3), of v_content] arg_cong [OF 1(3), of v_disk] assms(1) i by (simp_all add: fresh_def)
  have dv: "log_dev s1 = log_dev s" by (simp add: 1(4))
  have i1: "log_idle p s1" using log_idle_cong [of p s s1] i 1(2) by (simp add: 1(4) r1)
  have "\<exists>t. install_trans True s1 = Inr t \<and> binv p (log_dev s1) {} t \<and> bstep s1 t
      \<and> log_view t = v_puts (map (\<lambda>i. (bs ! i, content (log_dev s1) s1 (lblk (log s1) i))) [0..<length bs])
        ((log_view s1)\<lparr>v_refs := unpinned True bs (refs (log_dev s1) s1)\<rparr>)"
  proof (rule install_trans_ok [OF i1])
    show "logs (log s1) bs" using hdr_load_logs [OF assms(3)] by (simp add: 1(4))
    show "length bs \<le> nat LOGSIZE" "distinct bs" using assms(2) by (simp_all add: fits_def)
    show "\<forall>b \<in> set bs. home (log s1) b \<and> refs (log_dev s1) s1 b < 2 ^ 32 - 1" using assms(2) unfolding dv by (simp add: fits_def 1(4) r1)
    show "True \<longrightarrow> (\<forall>b. refs (log_dev s1) s1 b = 0)" unfolding dv by (simp add: r1)
    show "\<forall>b. \<not> home (log s1) b \<longrightarrow> content (log_dev s1) s1 b = disk s1 b" unfolding dv by (simp add: r1)
  qed simp
  then obtain s2 where 2: "install_trans True s1 = Inr s2" "binv p (log_dev s) {} s2" "log s2 = ?l"
    "view (log_dev s) s2 = v_puts (installs (log s) bs (disk s)) (log_view s)"
  proof -
    have "map (\<lambda>i. (bs ! i, content (log_dev s1) s1 (lblk (log s1) i))) [0..<length bs] = installs (log s) bs (disk s)"
      unfolding dv by (simp add: installs_def r1 1(4))
    moreover have "(log_view s1)\<lparr>v_refs := unpinned True bs (refs (log_dev s1) s1)\<rparr> = log_view s"
      unfolding dv 1(3) [symmetric] by (auto simp: unpinned_def fun_eq_iff intro!: bview.equality)
    ultimately show ?thesis using that \<open>\<exists>t. install_trans True s1 = Inr t \<and> _ t\<close> bstep_log [of s1] 1(4) dv by metis
  qed
  let ?s3 = "upd_log (\<lambda>l. l\<lparr>lh_n := 0\<rparr>) s2"
  have r2: "refs (log_dev s) s2 b = 0" for b using arg_cong [OF 2(4), of v_refs] assms(1) by (simp add: fresh_def)
  have i3: "log_idle p ?s3"
  proof (rule log_idle_cong [OF conjunct1 [OF i]])
    show "refs (log_dev s) ?s3 b \<le> refs (log_dev s) s b" for b by (simp add: r2)
  qed (simp_all add: 2(2,3))
  let ?c = "content (log_dev s) s2 (hblk (log s))"
  have c: "?c = disk s (hblk (log s))"
    using arg_cong [OF 2(4), of v_content] fitsD(1) [OF assms(2)] i by (simp add: puts_other)
  let ?h = "hdr_bytes (log ?s3) ?c"
  have dv3: "log_dev ?s3 = log_dev s" "hblk (log ?s3) = hblk (log s)" "view (log_dev s) ?s3 = view (log_dev s) s2" by (simp_all add: 2(3))
  have cc: "content (log_dev s) ?s3 = content (log_dev s) s2" by simp
  from write_head_ok [OF i3] obtain t where t: "write_head ?s3 = Inr t" "binv p (log_dev s) {} t" "bstep ?s3 t"
    "log_view t = v_puts [(hblk (log s), ?h)] (view (log_dev s) s2)" unfolding dv3 cc by blast
  have lt: "log t = ?l\<lparr>lh_n := 0\<rparr>" using bstep_log [OF t(3)] by (simp add: 2(3))
  then have "view (log_dev s) t = v_puts (installs (log s) bs (disk s) @ [(hblk (log s), ?h)]) (log_view s)"
    using t(4) by (simp add: 2(4))
  moreover have "length ?h = BSIZE" "rd32 ?h 0 = 0"
    using hdr_bytes_read(1,2) [of ?c "log ?s3"] assms(3) c by (simp_all add: hdr_ok_def)
  moreover have "recover_from_log s = Inr t" using 1(1) 2(1) t(1) by (simp add: recover_from_log_def)
  ultimately show ?thesis using t(2) lt by blast
qed

section \<open>Commit\<close>

text \<open>
  What a commit relies on: the logged blocks are outside the log, different, and pinned in the cache;
  the header on the disk lists no block.
\<close>

definition log_ready :: "nat \<Rightarrow> u32 list \<Rightarrow> 'a logstate_scheme \<Rightarrow> bool" where
  "log_ready p bs s \<longleftrightarrow> log_idle p s \<and> logs (log s) bs \<and> fits (log s) bs \<and> hdr_ok (log s) (disk s) []
     \<and> (\<forall>b \<in> set bs. 0 < refs (log_dev s) s b \<and> refs (log_dev s) s b < 2 ^ 32 - 1)"

definition log_copies :: "log \<Rightarrow> u32 list \<Rightarrow> (u32 \<Rightarrow> block) \<Rightarrow> (u32 \<times> block) list" where
  "log_copies l bs C = map (\<lambda>i. (lblk l i, C (bs ! i))) [0..<length bs]"

definition homes :: "u32 list \<Rightarrow> (u32 \<Rightarrow> block) \<Rightarrow> (u32 \<times> block) list" where
  "homes bs C = map (\<lambda>b. (b, C b)) bs"

lemma homes_nth: "homes bs C = map (\<lambda>i. (bs ! i, C (bs ! i))) [0..<length bs]"
  unfolding homes_def by (rule nth_equalityI) simp_all

lemma length_log_copies [simp]: "length (log_copies l bs C) = length bs" "length (homes bs C) = length bs"
  by (simp_all add: log_copies_def homes_def)

lemma log_copies_at:
  assumes "fits l bs"
  shows "i < length bs \<Longrightarrow> puts (log_copies l bs C) D (lblk l i) = C (bs ! i)"
    and "home l b \<or> b = hblk l \<Longrightarrow> puts (take k (log_copies l bs C)) D b = D b"
proof -
  have n: "length bs \<le> nat LOGSIZE" using assms by (simp add: fits_def)
  show "puts (log_copies l bs C) D (lblk l i) = C (bs ! i)" if "i < length bs"
    unfolding log_copies_def by (rule puts_nth [OF lblk_distinct [OF n] that])
  have "fst ` set (take k (log_copies l bs C)) \<subseteq> lblk l ` {..<length bs}"
    by (auto simp: log_copies_def dest!: in_set_takeD)
  moreover have "home l b \<or> b = hblk l \<Longrightarrow> b \<notin> lblk l ` {..<length bs}"
    using fitsD(3) [OF assms] lblk_not_home lblk_hblk(1) by fastforce
  ultimately show "home l b \<or> b = hblk l \<Longrightarrow> puts (take k (log_copies l bs C)) D b = D b" using puts_not_set by metis
qed

lemma sint_small: "n < 2 ^ 31 \<Longrightarrow> sint (of_nat n :: u32) = int n"
  by (simp add: signed_of_nat signed_take_bit_int_eq_self)

lemma homes_at: "puts (homes bs C) D b = (if b \<in> set bs then C b else D b)"
  by (induction bs arbitrary: D) (auto simp: homes_def)

lemma commit_ok:
  fixes s :: "'a logstate_scheme"
  assumes "log_ready p bs s" and "bs \<noteq> []"
  shows "\<exists>t h h0. commit s = Inr t \<and> binv p (log_dev s) {} t \<and> log t = (log s)\<lparr>lh_n := 0\<rparr>
    \<and> view (log_dev s) t = v_puts (log_copies (log s) bs (content (log_dev s) s) @ [(hblk (log s), h)]
         @ homes bs (content (log_dev s) s) @ [(hblk (log s), h0)])
       ((log_view s)\<lparr>v_refs := unpinned False bs (refs (log_dev s) s)\<rparr>)
    \<and> length h = BSIZE \<and> sint (rd32 h 0) = int (length bs) \<and> (\<forall>i < length bs. rd32 h (4 + 4 * i) = bs ! i)
    \<and> length h0 = BSIZE \<and> rd32 h0 0 = 0"
proof -
  let ?C = "content (log_dev s) s" and ?l = "log s" and ?dev = "log_dev s"
  let ?R = "unpinned False bs (refs ?dev s)"
  have idle: "log_idle p s" and lg: "logs ?l bs" and fit: "fits ?l bs" and hd: "hdr_ok ?l (disk s) []"
    and rf: "\<forall>b \<in> set bs. 0 < refs ?dev s b \<and> refs ?dev s b < 2 ^ 32 - 1" using assms(1) by (simp_all add: log_ready_def)
  have n: "length bs \<le> nat LOGSIZE" "distinct bs" "\<forall>b \<in> set bs. home ?l b" using fit by (simp_all add: fits_def)
  have clean: "?C b = disk s b" if "\<not> home ?l b" for b
    using idle that refs0_content [of ?dev s b] by (auto simp: log_idle_def binv_def)
  have "\<forall>b \<in> set bs. home ?l b \<and> 0 < refs ?dev s b \<and> refs ?dev s b < 2 ^ 32 - 1" using n(3) rf by blast
  from write_log_ok [OF idle lg n(1) this] obtain s1 where 1: "write_log s = Inr s1" "binv p ?dev {} s1" "log s1 = ?l"
    "view ?dev s1 = v_puts (log_copies ?l bs ?C) (log_view s)" unfolding log_copies_def by (metis bstep_log)
  have r1: "refs ?dev s1 = refs ?dev s" "content ?dev s1 = puts (log_copies ?l bs ?C) ?C"
    using arg_cong [OF 1(4), of v_refs] arg_cong [OF 1(4), of v_content] by simp_all
  have i1: "log_idle p s1" by (rule log_idle_cong [OF idle 1(2)]) (simp_all add: 1(3) r1(1))
  let ?h = "hdr_bytes ?l (disk s (hblk ?l))"
  have c1: "content ?dev s1 (hblk ?l) = disk s (hblk ?l)"
    using log_copies_at(2) [OF fit, of "hblk ?l" "length bs"] clean r1(2) by simp
  from write_head_ok [OF i1, unfolded 1(3) c1 1(4)] obtain s2 where 2: "write_head s1 = Inr s2" "binv p ?dev {} s2" "log s2 = ?l"
    "view ?dev s2 = v_puts (log_copies ?l bs ?C @ [(hblk ?l, ?h)]) (log_view s)" by (metis bstep_log 1(3) v_puts_simps(6))
  have r2: "refs ?dev s2 = refs ?dev s" "content ?dev s2 = (puts (log_copies ?l bs ?C) ?C)(hblk ?l := ?h)"
    "disk s2 = (puts (log_copies ?l bs ?C) (disk s))(hblk ?l := ?h)"
    using arg_cong [OF 2(4), of v_refs] arg_cong [OF 2(4), of v_content] arg_cong [OF 2(4), of v_disk] by simp_all
  have i2: "log_idle p s2" by (rule log_idle_cong [OF idle 2(2)]) (simp_all add: 2(3) r2(1))
  have cl2: "\<forall>b. \<not> home ?l b \<longrightarrow> content ?dev s2 b = disk s2 b"
    using refs0_content [of ?dev s2] idle 2(2) r2(1) by (auto simp: log_idle_def binv_def)
  have lb: "content ?dev s2 (lblk ?l i) = ?C (bs ! i)" if "i < length bs" for i
    using that n(1) log_copies_at(1) [OF fit that] by (simp add: r2(2))
  have "\<exists>t. install_trans False s2 = Inr t \<and> binv p (log_dev s2) {} t \<and> bstep s2 t
      \<and> log_view t = v_puts (map (\<lambda>i. (bs ! i, content (log_dev s2) s2 (lblk (log s2) i))) [0..<length bs])
        ((log_view s2)\<lparr>v_refs := unpinned False bs (refs (log_dev s2) s2)\<rparr>)"
  proof (rule install_trans_ok [OF i2])
    show "logs (log s2) bs" "length bs \<le> nat LOGSIZE" "distinct bs" using lg n 2(3) by simp_all
    show "\<forall>b \<in> set bs. home (log s2) b \<and> refs (log_dev s2) s2 b < 2 ^ 32 - 1" "\<not> False \<longrightarrow> (\<forall>b \<in> set bs. 0 < refs (log_dev s2) s2 b)"
      using rf n(3) unfolding 2(3) r2(1) by simp_all
    show "\<forall>b. \<not> home (log s2) b \<longrightarrow> content (log_dev s2) s2 b = disk s2 b" using cl2 by (simp add: 2(3))
  qed simp
  then obtain s3 where s3: "install_trans False s2 = Inr s3" "binv p (log_dev s2) {} s3" "bstep s2 s3"
    "log_view s3 = v_puts (map (\<lambda>i. (bs ! i, content (log_dev s2) s2 (lblk (log s2) i))) [0..<length bs])
        ((log_view s2)\<lparr>v_refs := unpinned False bs (refs (log_dev s2) s2)\<rparr>)" by blast
  have "log s3 = ?l" using bstep_log [OF s3(3)] 2(3) by simp
  moreover have "map (\<lambda>i. (bs ! i, content (log_dev s2) s2 (lblk (log s2) i))) [0..<length bs] = homes bs ?C"
    unfolding homes_nth 2(3) by (simp add: lb)
  ultimately have 3: "install_trans False s2 = Inr s3" "binv p ?dev {} s3" "log s3 = ?l"
    "view ?dev s3 = v_puts (homes bs ?C) ((view ?dev s2)\<lparr>v_refs := ?R\<rparr>)"
    using s3(1,2,4) unfolding 2(3) r2(1) by simp_all
  have v3: "view ?dev s3 = v_puts (log_copies ?l bs ?C @ [(hblk ?l, ?h)] @ homes bs ?C) ((log_view s)\<lparr>v_refs := ?R\<rparr>)"
    by (simp add: 3(4) 2(4) v_puts_def)
  let ?s4 = "upd_log (\<lambda>l. l\<lparr>lh_n := 0\<rparr>) s3"
  have r3: "refs ?dev s3 = ?R" using arg_cong [OF v3, of v_refs] by simp
  have i4: "log_idle p ?s4" by (rule log_idle_cong [OF idle]) (simp_all add: 3(2,3) r3 unpinned_def)
  have c3: "content ?dev s3 (hblk ?l) = ?h"
    using arg_cong [OF v3, of v_content] fitsD(1) [OF fit] by (simp add: homes_at)
  let ?z = "hdr_bytes (log ?s4) ?h"
  have e4: "log_dev ?s4 = ?dev" "hblk (log ?s4) = hblk ?l" "content ?dev ?s4 (hblk ?l) = ?h" "view ?dev ?s4 = view ?dev s3"
    using c3 by (simp_all add: 3(3))
  from write_head_ok [OF i4] obtain t where t: "write_head ?s4 = Inr t" "binv p ?dev {} t" "bstep ?s4 t"
    "log_view t = v_puts [(hblk ?l, ?z)] (view ?dev s3)" unfolding e4 by blast
  have lt: "log t = ?l\<lparr>lh_n := 0\<rparr>" using bstep_log [OF t(3)] by (simp add: 3(3))
  have "view ?dev t = v_puts (log_copies ?l bs ?C @ [(hblk ?l, ?h)] @ homes bs ?C @ [(hblk ?l, ?z)]) ((log_view s)\<lparr>v_refs := ?R\<rparr>)"
    using t(4) lt by (simp add: v3)
  moreover have ln: "nat (lh_n ?l) = length bs" using lg by (simp add: logs_def)
  have h: "length ?h = BSIZE" "sint (rd32 ?h 0) = int (length bs)" "\<forall>i < length bs. rd32 ?h (4 + 4 * i) = bs ! i"
    using hdr_bytes_read [of "disk s (hblk ?l)" ?l] hd ln n(1) lg by (simp_all add: hdr_ok_def logs_def sint_small)
  moreover have "length ?z = BSIZE" "rd32 ?z 0 = 0" using hdr_bytes_read(1,2) [OF h(1), of "log ?s4"] by simp_all
  moreover have "commit s = Inr t" using 1(1) 2(1) 3(1) t(1) lg assms(2) by (simp add: commit_def logs_def)
  ultimately show ?thesis using t(2) lt by blast
qed

section \<open>Crashes\<close>

definition hdr_block :: "u32 list \<Rightarrow> block \<Rightarrow> bool" where
  "hdr_block bs h \<longleftrightarrow> length h = BSIZE \<and> sint (rd32 h 0) = int (length bs) \<and> (\<forall>i < length bs. rd32 h (4 + 4 * i) = bs ! i)"

lemma hdr_ok_block: "hdr_ok l D bs \<longleftrightarrow> hdr_block bs (D (hblk l))"
  by (simp add: hdr_ok_def hdr_block_def)

lemma represents_cleared: "hdr_block [] z \<Longrightarrow> represents l (D(hblk l := z)) D"
  by (rule represents_clear) (simp_all add: hdr_block_def)

lemma recovery_cuts:
  assumes "fits l bs" "hdr_ok l D bs" "hdr_block [] z"
  shows "represents l (puts (take k (installs l bs D @ [(hblk l, z)])) D) (puts (installs l bs D) D)"
proof (cases "k \<le> length (installs l bs D)")
  case True
  have "fst ` set (take k (installs l bs D)) \<subseteq> set bs"
    using image_mono [OF set_take_subset [of k "installs l bs D"], of fst] by simp
  then show ?thesis using True represents_install [OF assms(1,2)] by simp
next
  case False
  then show ?thesis using represents_cleared [OF assms(3)] by simp
qed

lemma commit_cuts:
  fixes C D :: "u32 \<Rightarrow> block"
  assumes "fits l bs" "hdr_ok l D []" "hdr_block bs h" "hdr_block [] z"
  defines "W \<equiv> log_copies l bs C @ [(hblk l, h)] @ homes bs C @ [(hblk l, z)]"
  shows "represents l (puts (take k W) D) (\<lambda>b. if length bs < k \<and> b \<in> set bs then C b else D b)"
    and "home l b \<Longrightarrow> puts W D b = (if b \<in> set bs then C b else D b)" and "puts W D (hblk l) = z"
proof -
  let ?E = "(puts (log_copies l bs C) D)(hblk l := h)"
  have E: "home l b \<Longrightarrow> ?E b = D b" for b
    using log_copies_at(2) [OF assms(1), of b "length bs" C D] by (simp add: home_def)
  have Eh: "hdr_ok l ?E bs" using assms(3) by (simp add: hdr_ok_block)
  have inst: "installs l bs ?E = homes bs C"
    unfolding installs_def homes_nth using log_copies_at(1) [OF assms(1)] fitsD(3) [OF assms(1)] by simp
  have hH: "puts (homes bs C) ?E b = (if b \<in> set bs then C b else D b)" if "home l b" for b
    using E [OF that] by (simp add: homes_at)
  show "home l b \<Longrightarrow> puts W D b = (if b \<in> set bs then C b else D b)" "puts W D (hblk l) = z"
    using hH by (simp_all add: W_def home_def)
  consider "k \<le> length bs" | "length bs < k" "k \<le> 2 * length bs + 1" | "2 * length bs + 1 < k" by linarith
  then show "represents l (puts (take k W) D) (\<lambda>b. if length bs < k \<and> b \<in> set bs then C b else D b)"
  proof cases
    case 1
    then have t: "take k W = take k (log_copies l bs C)" by (simp add: W_def)
    have "hdr_ok l (puts (take k W) D) []"
      using assms(2) log_copies_at(2) [OF assms(1)] by (simp add: hdr_ok_block t)
    then show ?thesis using 1 log_copies_at(2) [OF assms(1)] unfolding represents_def t
      by (intro exI [of _ "[]"]) (simp add: installs_def)
  next
    case 2
    have t: "puts (take k W) D = puts (take (k - length bs - 1) (homes bs C)) ?E"
    proof -
      have "take k W = log_copies l bs C @ [(hblk l, h)] @ take (k - length bs - 1) (homes bs C)"
        using 2 by (simp add: W_def take_Cons' )
      then show ?thesis by simp
    qed
    have "fst ` set (take (k - length bs - 1) (homes bs C)) \<subseteq> set bs" by (auto simp: homes_def dest!: in_set_takeD)
    from represents_install [OF assms(1) Eh this] have "represents l (puts (take k W) D) (puts (homes bs C) ?E)" unfolding inst t .
    then show ?thesis by (rule represents_cong) (use 2 hH in simp)
  next
    case 3
    then have "puts (take k W) D = (puts (homes bs C) ?E)(hblk l := z)" by (simp add: W_def)
    then have "represents l (puts (take k W) D) (puts (homes bs C) ?E)" using represents_cleared [OF assms(4)] by simp
    then show ?thesis by (rule represents_cong) (use 3 hH in simp)
  qed
qed

lemma recovery_post:
  fixes u :: "'a logstate_scheme"
  assumes "fresh q u" and "represents (log u) (disk u) V"
  shows "\<exists>u' W. recover_from_log u = Inr u' \<and> log_ready q [] u' \<and> l_start (log u') = l_start (log u) \<and> dwrites u' = dwrites u @ W
    \<and> (\<forall>b. home (log u) b \<longrightarrow> disk u' b = V b) \<and> (\<forall>k. represents (log u) (puts (take k W) (disk u)) V)"
proof -
  from assms(2) obtain bs where bs: "fits (log u) bs" "hdr_ok (log u) (disk u) bs"
    and V: "\<forall>b. home (log u) b \<longrightarrow> puts (installs (log u) bs (disk u)) (disk u) b = V b" by (auto simp: represents_def)
  let ?W = "\<lambda>z. installs (log u) bs (disk u) @ [(hblk (log u), z)]"
  from recover_ok [OF assms(1) bs] obtain u' z where r: "recover_from_log u = Inr u'" "binv q (log_dev u) {} u'"
    "log u' = (hdr_load (disk u (hblk (log u))) (log u))\<lparr>lh_n := 0\<rparr>" "view (log_dev u) u' = v_puts (?W z) (log_view u)"
    "length z = BSIZE" "rd32 z 0 = 0" by blast
  have z: "hdr_block [] z" using r(5,6) by (simp add: hdr_block_def)
  have v: "refs (log_dev u) u' = refs (log_dev u) u" "disk u' = puts (?W z) (disk u)" "dwrites u' = dwrites u @ ?W z"
    using arg_cong [OF r(4), of v_refs] arg_cong [OF r(4), of v_disk] arg_cong [OF r(4), of v_writes] by simp_all
  have "log_idle q u'" using conjunct1 [OF fresh_idle [OF assms(1)]] r(2) by (rule log_idle_cong) (simp_all add: r(3) v(1))
  moreover have "hdr_ok (log u') (disk u') []" using z by (simp add: hdr_ok_block r(3) v(2))
  ultimately have "log_ready q [] u'" by (simp add: log_ready_def logs_def r(3))
  moreover have "disk u' b = V b" if "home (log u) b" for b using that V by (simp add: v(2) home_def)
  moreover have "represents (log u) (puts (take k (?W z)) (disk u)) V" for k
    using recovery_cuts [OF bs z, of k] by (rule represents_cong) (use V in blast)
  ultimately show ?thesis using r(1,3) v(3) by auto
qed

lemma commit_post:
  fixes s :: "'a logstate_scheme"
  assumes "log_ready p bs s"
  shows "\<exists>t W. commit s = Inr t \<and> log_ready p [] t \<and> dwrites t = dwrites s @ W \<and> log t = (log s)\<lparr>lh_n := 0\<rparr>
    \<and> (\<forall>b. home (log s) b \<longrightarrow> disk t b = (if b \<in> set bs then content (log_dev s) s b else disk s b))
    \<and> (\<forall>b. home (log s) b \<longrightarrow> content (log_dev s) t b = content (log_dev s) s b)
    \<and> refs (log_dev s) t = unpinned False bs (refs (log_dev s) s)
    \<and> (\<forall>k. represents (log s) (puts (take k W) (disk s))
          (\<lambda>b. if length bs < k \<and> b \<in> set bs then content (log_dev s) s b else disk s b))"
proof (cases "bs = []")
  case True
  have rep: "represents (log s) (disk s) (disk s)"
    using assms unfolding log_ready_def represents_def by (intro exI [of _ "[]"]) (simp add: installs_def)
  have "commit s = Inr s" "lh_n (log s) = 0" using assms True by (simp_all add: log_ready_def logs_def commit_def)
  moreover from this(2) have "log s = (log s)\<lparr>lh_n := 0\<rparr>" by simp
  ultimately show ?thesis using assms True rep
    by (intro exI [of _ s] exI [of _ "[]"]) (simp add: unpinned_def fun_eq_iff)
next
  case False
  let ?l = "log s" and ?C = "content (log_dev s) s"
  let ?W = "\<lambda>h z. log_copies ?l bs ?C @ [(hblk ?l, h)] @ homes bs ?C @ [(hblk ?l, z)]"
  from commit_ok [OF assms False] obtain t h z where r: "commit s = Inr t" "binv p (log_dev s) {} t" "log t = ?l\<lparr>lh_n := 0\<rparr>"
    "view (log_dev s) t = v_puts (?W h z) ((log_view s)\<lparr>v_refs := unpinned False bs (refs (log_dev s) s)\<rparr>)"
    and hz: "hdr_block bs h" "hdr_block [] z" by (auto simp: hdr_block_def)
  have pre: "log_idle p s" "fits ?l bs" "hdr_ok ?l (disk s) []" using assms by (simp_all add: log_ready_def)
  note cut = commit_cuts [OF pre(2,3) hz, where C = ?C]
  have v: "refs (log_dev s) t = unpinned False bs (refs (log_dev s) s)" "disk t = puts (?W h z) (disk s)" "dwrites t = dwrites s @ ?W h z"
    "content (log_dev s) t = puts (?W h z) ?C"
    using arg_cong [OF r(4), of v_refs] arg_cong [OF r(4), of v_disk] arg_cong [OF r(4), of v_writes] arg_cong [OF r(4), of v_content] by simp_all
  have "log_idle p t" using pre(1) r(2) by (rule log_idle_cong) (simp_all add: r(3) v(1) unpinned_def)
  moreover have "hdr_ok (log t) (disk t) []" using hz(2) cut(3) by (simp add: hdr_ok_block r(3) v(2))
  ultimately have "log_ready p [] t" by (simp add: log_ready_def logs_def r(3))
  moreover have "content (log_dev s) t b = ?C b" if "home ?l b" for b
    using that log_copies_at(2) [OF pre(2), of b "length bs" ?C ?C] by (simp add: v(4) homes_at home_def)
  moreover have "represents ?l (puts (take k (?W h z)) (disk s)) (\<lambda>b. if length bs < k \<and> b \<in> set bs then ?C b else disk s b)" for k
    by (rule cut(1))
  moreover have "disk t b = (if b \<in> set bs then ?C b else disk s b)" if "home ?l b" for b using cut(2) [OF that] by (simp add: v(2))
  ultimately show ?thesis using r(1,3) v(1,3) by blast
qed

text \<open>
  The machine is switched off during recovery, any number of times: \<open>recovery_cut l D D'\<close> relates the disk
  before a boot with the disk after some of the writes of \<open>recover_from_log\<close>.
\<close>

inductive recovery_cut :: "int \<Rightarrow> (u32 \<Rightarrow> block) \<Rightarrow> (u32 \<Rightarrow> block) \<Rightarrow> bool" for st where
  "fresh q (u :: logstate) \<Longrightarrow> l_start (log u) = st \<Longrightarrow> recover_from_log u = Inr u' \<Longrightarrow> dwrites u' = dwrites u @ W \<Longrightarrow>
     recovery_cut st (disk u) (puts (take k W) (disk u))"

lemma represents_start: "l_start l = l_start l' \<Longrightarrow> represents l = represents l' \<and> home l = home l'"
  by (simp add: represents_def fits_def hdr_ok_def installs_def home_def hblk_def lblk_def fun_eq_iff)

lemma recovery_cut_represents:
  assumes "recovery_cut (l_start l) D D'" "represents l D V"
  shows "represents l D' V"
  using assms(1)
proof cases
  case (1 q u u' W k)
  note eq = represents_start [OF 1(4)]
  have "represents (log u) (disk u) V" using assms(2) 1(1) eq by simp
  from recovery_post [OF 1(3) this] 1(5,6) have "represents (log u) (puts (take k W) (disk u)) V" by auto
  then show ?thesis using 1(2) eq by simp
qed

lemma recovery_cuts_represents:
  "(recovery_cut (l_start l))\<^sup>*\<^sup>* D D' \<Longrightarrow> represents l D V \<Longrightarrow> represents l D' V"
  by (induction rule: rtranclp_induct) (auto intro: recovery_cut_represents)

lemma commit_crash:
  fixes s :: logstate
  assumes "log_ready p bs s"
  shows "\<exists>t W. commit s = Inr t \<and> dwrites t = dwrites s @ W \<and> log_ready p [] t
    \<and> (\<forall>b. home (log s) b \<longrightarrow> disk t b = (if b \<in> set bs then content (log_dev s) s b else disk s b))
    \<and> (\<forall>k q (u :: logstate). fresh q u \<and> l_start (log u) = l_start (log s)
         \<and> (recovery_cut (l_start (log s)))\<^sup>*\<^sup>* (puts (take k W) (disk s)) (disk u) \<longrightarrow>
         (\<exists>u'. recover_from_log u = Inr u' \<and> log_ready q [] u'
            \<and> (\<forall>b. home (log s) b \<longrightarrow> disk u' b = (if length bs < k \<and> b \<in> set bs then content (log_dev s) s b else disk s b))))"
proof -
  let ?V = "\<lambda>k b. if length bs < k \<and> b \<in> set bs then content (log_dev s) s b else disk s b"
  from commit_post [OF assms] obtain t W where t: "commit s = Inr t" "log_ready p [] t" "dwrites t = dwrites s @ W"
    "\<forall>b. home (log s) b \<longrightarrow> disk t b = (if b \<in> set bs then content (log_dev s) s b else disk s b)"
    "\<forall>k. represents (log s) (puts (take k W) (disk s)) (?V k)" by blast
  have "\<exists>u'. recover_from_log u = Inr u' \<and> log_ready q [] u' \<and> (\<forall>b. home (log s) b \<longrightarrow> disk u' b = ?V k b)"
    if u: "fresh q u" "l_start (log u) = l_start (log s)" "(recovery_cut (l_start (log s)))\<^sup>*\<^sup>* (puts (take k W) (disk s)) (disk u)"
    for k q and u :: logstate
  proof -
    note eq = represents_start [OF u(2)]
    have "represents (log u) (disk u) (?V k)" using recovery_cuts_represents [OF u(3)] t(5) eq by simp
    from recovery_post [OF u(1) this] show ?thesis using eq by auto
  qed
  then show ?thesis using t(1-4) by blast
qed

section \<open>Transactions\<close>

text \<open>The header with the block in it: nothing changes if it is there (absorption), else it goes to the end.\<close>

definition log_add :: "u32 \<Rightarrow> u32 list \<Rightarrow> u32 list" where
  "log_add bn bs = (if bn \<in> set bs then bs else bs @ [bn])"

lemma log_index_ok:
  assumes "logs l bs" "distinct bs"
  shows "log_index bn l \<le> length bs" "log_index bn l = length bs \<longleftrightarrow> bn \<notin> set bs" "log_index bn l < length bs \<Longrightarrow> bs ! log_index bn l = bn"
proof -
  let ?F = "List.find (\<lambda>i. word_of_int (lh_block l i) = bn) [0..<length bs]"
  have n: "nat (lh_n l) = length bs" using assms(1) by (simp add: logs_def)
  have b: "word_of_int (lh_block l i) = bs ! i" if "i < length bs" for i using that assms(1) by (simp add: logs_def)
  have "log_index bn l \<le> length bs \<and> (log_index bn l = length bs \<longleftrightarrow> bn \<notin> set bs) \<and> (log_index bn l < length bs \<longrightarrow> bs ! log_index bn l = bn)"
  proof (cases ?F)
    case None
    then have "\<forall>i < length bs. bs ! i \<noteq> bn" using b by (auto simp: find_None_iff)
    then show ?thesis using None by (auto simp: log_index_def n in_set_conv_nth)
  next
    case (Some i)
    then obtain j where "j < length [0..<length bs]" "word_of_int (lh_block l ([0..<length bs] ! j)) = bn" "i = [0..<length bs] ! j"
      unfolding find_Some_iff by blast
    then have "i < length bs" "bs ! i = bn" using b by simp_all
    then show ?thesis using Some by (auto simp: log_index_def n)
  qed
  then show "log_index bn l \<le> length bs" "log_index bn l = length bs \<longleftrightarrow> bn \<notin> set bs" "log_index bn l < length bs \<Longrightarrow> bs ! log_index bn l = bn"
    by blast+
qed

lemma log_write_eq:
  fixes s :: "'a logstate_scheme" and b :: nat
  assumes "calm p s" "lh_n (log s) < LOGSIZE" "lh_n (log s) < l_size (log s) - 1" "1 \<le> l_outstanding (log s)"
  defines "bn \<equiv> b_blockno (bufs s b)"
  defines "i \<equiv> log_index bn (log s)"
  shows "log_write b s = Inr (if int i = lh_n (log s)
    then (upd_buf b (\<lambda>x. x\<lparr>b_refcnt := b_refcnt x + 1\<rparr>) (lk_cycle s))
           \<lparr>log := (log s)\<lparr>lh_block := (lh_block (log s))(i := sint bn), lh_n := lh_n (log s) + 1\<rparr>\<rparr>
    else (lk_cycle s)\<lparr>log := (log s)\<lparr>lh_block := (lh_block (log s))(i := sint bn)\<rparr>\<rparr>)"
  using calmD [OF assms(1)] assms(2-4) unfolding i_def bn_def
  by (simp add: log_write_def bpin_def Let_def lk_calc lk_comm upd_buf_def)

lemma binv_cycle [simp]:
  "binv p dev H (lk_cycle s) = binv p dev H s" "holds p dev (lk_cycle s) b bn = holds p dev s b bn" "view dev (lk_cycle s) = view dev s"
  by (simp_all add: binv_def holds_def bheld_def view_def lk_comm)

text \<open>The fields of the log that only \<open>initlog\<close>, \<open>begin_op\<close> and \<open>end_op\<close> change.\<close>

definition log_same :: "log \<Rightarrow> log \<Rightarrow> bool" where
  "log_same l l' \<longleftrightarrow> l_start l' = l_start l \<and> l_size l' = l_size l \<and> l_outstanding l' = l_outstanding l
     \<and> l_committing l' = l_committing l \<and> l_dev l' = l_dev l"

lemma logs_put:
  assumes "logs l bs" "distinct bs"
  shows "bn \<in> set bs \<Longrightarrow> logs (l\<lparr>lh_block := (lh_block l)(log_index bn l := sint bn)\<rparr>) bs"
    and "bn \<notin> set bs \<Longrightarrow> logs (l\<lparr>lh_block := (lh_block l)(log_index bn l := sint bn), lh_n := lh_n l + 1\<rparr>) (bs @ [bn])"
  using assms(1) log_index_ok [OF assms, of bn] by (auto simp: logs_def nth_append less_Suc_eq)

lemma log_write_ok:
  fixes s :: "'a logstate_scheme"
  assumes "binv p (log_dev s) H s" "holds p (log_dev s) s b bn" "logs (log s) bs" "distinct bs" "refs (log_dev s) s bn < 2 ^ 32 - 1"
    and "lh_n (log s) < LOGSIZE" "lh_n (log s) < l_size (log s) - 1" "1 \<le> l_outstanding (log s)"
  shows "\<exists>t. log_write b s = Inr t \<and> binv p (log_dev s) H t \<and> holds p (log_dev s) t b bn \<and> logs (log t) (log_add bn bs)
    \<and> log_same (log s) (log t) \<and> view (log_dev s) t = (if bn \<in> set bs then log_view s else v_ref bn 1 (log_view s))"
proof -
  have ca: "calm p s" using assms(1) by (simp add: binv_def)
  have bn: "b_blockno (bufs s b) = bn" using assms(2) by (simp add: holds_def hasbuf_def)
  let ?i = "log_index bn (log s)"
  note w = log_write_eq [OF ca assms(6-8), of b, unfolded bn]
  have new: "int ?i = lh_n (log s) \<longleftrightarrow> bn \<notin> set bs" using log_index_ok(2) [OF assms(3,4)] assms(3) by (simp add: logs_def)
  show ?thesis
  proof (cases "bn \<in> set bs")
    case True
    then show ?thesis using w new assms(1,2) logs_put(1) [OF assms(3,4)] by (simp add: log_add_def log_same_def)
  next
    case False
    let ?t = "upd_buf b (\<lambda>x. x\<lparr>b_refcnt := b_refcnt x + 1\<rparr>) (lk_cycle s)"
    have "binv p (log_dev s) H ?t" "view (log_dev s) ?t = v_ref bn 1 (log_view s)" "holds p (log_dev s) ?t b bn"
      using bcache.pin_ok [OF assms(1,2)] assms(2,5) bpin_eq [OF ca, of b] by auto
    then show ?thesis using w new False logs_put(2) [OF assms(3,4) False] by (simp add: log_add_def log_same_def)
  qed
qed

text \<open>The use of the log that its comment describes: read a block, change it, log it, release it.\<close>

definition logged_update :: "u32 \<Rightarrow> (block \<Rightarrow> block) \<Rightarrow> 'a logstate_scheme \<Rightarrow> fault + 'a logstate_scheme" where
  "logged_update bn g s =
     bnd (log_bread (uint bn) s) (\<lambda>(b, s).
     let s = upd_buf b (\<lambda>x. x\<lparr>b_data := g (b_data x)\<rparr>) s
     in bnd (log_write b s) (\<lambda>s. brelse b s))"

text \<open>A log that is ready, in a system whose referenced buffers are those of the logged blocks.\<close>

definition log_quiet :: "nat \<Rightarrow> u32 list \<Rightarrow> 'a logstate_scheme \<Rightarrow> bool" where
  "log_quiet p bs s \<longleftrightarrow> log_ready p bs s \<and> (\<forall>b. refs (log_dev s) s b = (if b \<in> set bs then 1 else 0))
     \<and> \<not> l_committing (log s) \<and> 0 \<le> l_outstanding (log s) \<and> l_size (log s) = LOGSIZE"

lemma logged_update_ok:
  fixes s :: "'a logstate_scheme"
  assumes "log_quiet p bs s" and "home (log s) bn" and "length bs < nat LOGSIZE - 1" and "1 \<le> l_outstanding (log s)"
  shows "\<exists>t. logged_update bn g s = Inr t \<and> log_quiet p (log_add bn bs) t \<and> log_same (log s) (log t)
    \<and> content (log_dev s) t = (content (log_dev s) s)(bn := g (content (log_dev s) s bn)) \<and> disk t = disk s \<and> dwrites t = dwrites s"
proof -
  let ?dev = "log_dev s" and ?d = "g (content (log_dev s) s bn)"
  have rdy: "log_ready p bs s" and rf: "\<And>b. refs ?dev s b = (if b \<in> set bs then 1 else 0)" and sz: "l_size (log s) = LOGSIZE"
    using assms(1) by (simp_all add: log_quiet_def)
  have inv: "binv p ?dev {} s" and lg: "logs (log s) bs" and fit: "fits (log s) bs" "distinct bs" and hd: "hdr_ok (log s) (disk s) []"
    using rdy by (simp_all add: log_ready_def log_idle_def fits_def)
  have n: "lh_n (log s) < LOGSIZE - 1" using lg assms(3) by (simp add: logs_def)
  have card: "card {m. 0 < (if m \<in> set xs then 1 else 0 :: nat)} \<le> length xs" for xs :: "u32 list"
    using card_length [of xs] by (simp add: Collect_mem_eq)
  have "v_avail (view ?dev s) bn" "v_refs (view ?dev s) bn < 2 ^ 32 - 1"
    using assms(3) card_length [of bs] by (simp_all add: v_avail_def rf)
  from bcache.rd_ok [OF inv _ this(2,1)] obtain b s1 where 1: "bread ?dev bn s = Inr (b, s1)" "binv p ?dev {bn} s1" "holds p ?dev s1 b bn"
    "view ?dev s1 = v_ref bn 1 (view ?dev s)" "bstep s s1" by auto
  have d: "b_data (bufs s1 b) = content ?dev s bn" using bcache.dat_ok [OF 1(2,3)] by (simp add: 1(4) v_ref_def)
  let ?s2 = "upd_buf b (\<lambda>x. x\<lparr>b_data := ?d\<rparr>) s1"
  from bcache.set_ok [OF 1(2,3), of ?d] have 2: "binv p ?dev {bn} ?s2" "view ?dev ?s2 = v_set bn ?d (view ?dev s1)" "bstep s1 ?s2" "holds p ?dev ?s2 b bn"
    using 1(3) by auto
  have l2: "log ?s2 = log s" using bstep_log [OF 1(5)] bstep_log [OF 2(3)] by simp
  have r2: "refs ?dev ?s2 bn < 2 ^ 32 - 1" using arg_cong [OF 2(2), of v_refs] by (simp add: 1(4) v_defs rf)
  have "\<exists>t. log_write b ?s2 = Inr t \<and> binv p (log_dev ?s2) {bn} t \<and> holds p (log_dev ?s2) t b bn \<and> logs (log t) (log_add bn bs)
      \<and> log_same (log ?s2) (log t) \<and> view (log_dev ?s2) t = (if bn \<in> set bs then log_view ?s2 else v_ref bn 1 (log_view ?s2))"
    by (rule log_write_ok) (use 2 l2 lg fit(2) r2 n sz assms(4) in simp_all)
  then obtain s3 where 3: "log_write b ?s2 = Inr s3" "binv p ?dev {bn} s3" "holds p ?dev s3 b bn" "logs (log s3) (log_add bn bs)"
    "log_same (log s) (log s3)" "view ?dev s3 = (if bn \<in> set bs then view ?dev ?s2 else v_ref bn 1 (view ?dev ?s2))" unfolding l2 by blast
  have "1 < v_refs (view ?dev s3) bn" unfolding 3(6) 2(2) 1(4) by (simp add: v_defs rf)
  from bcache.rel_ok [OF 3(2) _ 3(3) disjI1 [OF this]] obtain t where 4: "brelse b s3 = Inr t" "binv p ?dev {} t"
    "view ?dev t = v_ref bn (- 1) (view ?dev s3)" "bstep s3 t" by auto
  have lt: "log t = log s3" by (rule bstep_log [OF 4(4)])
  have ld: "log_dev t = ?dev" "hblk (log t) = hblk (log s)" "lblk (log t) = lblk (log s)" "home (log t) = home (log s)"
    using 3(5) by (simp_all add: lt log_same_def hblk_def lblk_def home_def fun_eq_iff)
  have v: "refs ?dev t = (\<lambda>b. if b \<in> set (log_add bn bs) then 1 else 0)" "content ?dev t = (content ?dev s)(bn := ?d)"
    "disk t = disk s" "dwrites t = dwrites s"
    using arg_cong [OF 4(3), of v_refs] arg_cong [OF 4(3), of v_content] arg_cong [OF 4(3), of v_disk] arg_cong [OF 4(3), of v_writes]
    unfolding 3(6) 2(2) 1(4) by (auto simp: v_defs rf log_add_def fun_eq_iff)
  have len: "length (log_add bn bs) < NBUF" using assms(3) by (simp add: log_add_def)
  have fit': "fits (log s) (log_add bn bs)" using fit(1) assms(2,3) by (auto simp: fits_def log_add_def)
  have "log_idle p t" using 4(2) fit' card [of "log_add bn bs"] len unfolding log_idle_def ld v(1) by (auto simp: fits_def)
  then have "log_quiet p (log_add bn bs) t"
    using 3(4,5) fit' hd assms(1) unfolding log_quiet_def log_ready_def ld v(1,3)
    by (simp add: lt log_same_def hdr_ok_def fits_def ld [unfolded lt])
  moreover have "logged_update bn g s = Inr t"
    using 1(1) 3(1) 4(1) d by (simp add: logged_update_def Let_def upd_buf_def)
  ultimately show ?thesis using v(2-4) 3(5) lt by auto
qed

lemma calm_log [simp]: "calm p (s\<lparr>log := l\<rparr>) = calm p s"
  by (simp add: calm_def lk_comm)

lemma section_log [simp]: "section_ok (s\<lparr>log := l\<rparr>) = section_ok s"
  by (simp add: section_ok_def procs_free_def lk_comm)

lemma begin_op_eq:
  assumes "calm p s"
  shows "begin_op s = (if l_committing (log s) \<or> lh_n (log s) + (l_outstanding (log s) + 1) * MAXOPBLOCKS > LOGSIZE
    then Inl (Asleep ChLog) else Inr ((lk_cycle s)\<lparr>log := (log s)\<lparr>l_outstanding := l_outstanding (log s) + 1\<rparr>\<rparr>))"
  using calmD [OF assms] by (simp add: begin_op_def begin_op_check_def Let_def lk_calc lk_comm)

lemma end_op_last:
  assumes "calm p s" "l_outstanding (log s) = 1" "\<not> l_committing (log s)"
    and "commit ((lk_cycle s)\<lparr>log := (log s)\<lparr>l_outstanding := 0, l_committing := True\<rparr>\<rparr>) = Inr t" "calm p t"
  shows "end_op s = Inr ((lk_cycle t)\<lparr>log := (log t)\<lparr>l_committing := False\<rparr>, proc := wake ChLog (Some p) (proc t)\<rparr>)"
proof -
  note c = calmD [OF assms(1)] and d = calmD [OF assms(5)]
  have "section_ok ((lk_on LogLock t)\<lparr>log := (log t)\<lparr>l_committing := False\<rparr>\<rparr>)" using calm_section [OF assms(5)] by simp
  from section_wakeup [OF this, of ChLog] show ?thesis
    using c d assms(2-4) by (simp add: end_op_def Let_def lk_calc lk_comm)
qed

lemma end_op_more:
  assumes "calm p s" "l_outstanding (log s) \<noteq> 1" "\<not> l_committing (log s)"
  shows "end_op s = Inr ((lk_cycle s)\<lparr>log := (log s)\<lparr>l_outstanding := l_outstanding (log s) - 1\<rparr>, proc := wake ChLog (Some p) (proc s)\<rparr>)"
proof -
  note c = calmD [OF assms(1)]
  have "section_ok ((lk_on LogLock s)\<lparr>log := (log s)\<lparr>l_outstanding := l_outstanding (log s) - 1\<rparr>\<rparr>)" using calm_section [OF assms(1)] by simp
  from section_wakeup [OF this, of ChLog] show ?thesis
    using c assms(2,3) by (simp add: end_op_def Let_def lk_calc lk_comm)
qed

lemma log_ready_fields:
  assumes "log_ready p bs s" "l_start l = l_start (log s)" "l_dev l = l_dev (log s)" "lh_n l = lh_n (log s)" "lh_block l = lh_block (log s)"
  shows "log_ready p bs ((lk_cycle s)\<lparr>log := l\<rparr>)"
proof -
  have "home l = home (log s)" "hblk l = hblk (log s)" using assms(2) by (simp_all add: home_def hblk_def lblk_def fun_eq_iff)
  then show ?thesis using assms unfolding log_ready_def log_idle_def logs_def fits_def hdr_ok_def by (simp add: lk_comm)
qed

lemma binv_proc:
  assumes "binv p dev H s" "p_pid (P p) = p_pid (proc s p)"
  shows "binv p dev H (s\<lparr>proc := P\<rparr>)"
proof -
  have "holds p dev (s\<lparr>proc := P\<rparr>) b bn = holds p dev s b bn" for b bn using assms(2) by (simp add: holds_def bheld_def)
  then show ?thesis using assms(1) by (simp add: binv_def)
qed

lemma view_proc [simp]: "view dev (s\<lparr>proc := P\<rparr>) = view dev s"
  by (simp add: view_def)

lemma log_ready_proc:
  "log_ready p bs s \<Longrightarrow> p_pid (P p) = p_pid (proc s p) \<Longrightarrow> log_ready p bs (s\<lparr>proc := P\<rparr>)"
  unfolding log_ready_def log_idle_def using binv_proc [of p _ "{}" s P] by simp

text \<open>
  A system call: \<open>begin_op\<close>, changes of blocks, \<open>end_op\<close>. The list gives each block and its change.
\<close>

definition transaction :: "(u32 \<times> (block \<Rightarrow> block)) list \<Rightarrow> 'a logstate_scheme \<Rightarrow> fault + 'a logstate_scheme" where
  "transaction us s =
     bnd (begin_op s) (\<lambda>s.
     bnd (for_each us (\<lambda>(bn, g). logged_update bn g) s) (\<lambda>s.
     end_op s))"

definition changed :: "(u32 \<times> (block \<Rightarrow> block)) list \<Rightarrow> (u32 \<Rightarrow> block) \<Rightarrow> u32 \<Rightarrow> block" where
  "changed us C = fold (\<lambda>(bn, g) C. C(bn := g (C bn))) us C"

definition touched :: "(u32 \<times> (block \<Rightarrow> block)) list \<Rightarrow> u32 list \<Rightarrow> u32 list" where
  "touched us bs = fold (\<lambda>(bn, g). log_add bn) us bs"

lemma set_touched [simp]: "set (touched us bs) = set bs \<union> fst ` set us"
  by (induction us arbitrary: bs) (auto simp: touched_def log_add_def split: if_splits)

lemma length_touched: "length (touched us bs) \<le> length bs + length us"
proof (induction us arbitrary: bs)
  case (Cons u us)
  show ?case using Cons [of "log_add (fst u) bs"] by (auto simp: touched_def log_add_def split: prod.splits if_splits)
qed (simp add: touched_def)

lemma changed_other: "b \<notin> fst ` set us \<Longrightarrow> changed us C b = C b"
  by (induction us arbitrary: C) (auto simp: changed_def)

lemma updates_ok:
  fixes s :: "'a logstate_scheme"
  assumes "log_quiet p bs s" and "\<forall>u \<in> set us. home (log s) (fst u)" and "length bs + length us \<le> nat LOGSIZE - 1"
    and "1 \<le> l_outstanding (log s)"
  shows "\<exists>t. for_each us (\<lambda>(bn, g). logged_update bn g) s = Inr t \<and> log_quiet p (touched us bs) t \<and> log_same (log s) (log t)
    \<and> content (log_dev s) t = changed us (content (log_dev s) s) \<and> disk t = disk s \<and> dwrites t = dwrites s"
  using assms
proof (induction us arbitrary: s bs)
  case Nil
  then show ?case by (simp add: touched_def changed_def log_same_def)
next
  case (Cons u us)
  obtain bn g where u: "u = (bn, g)" by (cases u)
  have "home (log s) bn" "length bs < nat LOGSIZE - 1" using Cons.prems(2,3) u by simp_all
  from logged_update_ok [OF Cons.prems(1) this Cons.prems(4), of g] obtain s1 where 1: "logged_update bn g s = Inr s1"
    "log_quiet p (log_add bn bs) s1" "log_same (log s) (log s1)" "content (log_dev s) s1 = (content (log_dev s) s)(bn := g (content (log_dev s) s bn))"
    "disk s1 = disk s" "dwrites s1 = dwrites s" by blast
  have h: "home (log s1) = home (log s)" "log_dev s1 = log_dev s" using 1(3) by (simp_all add: log_same_def home_def hblk_def lblk_def fun_eq_iff)
  have "\<forall>u \<in> set us. home (log s1) (fst u)" "length (log_add bn bs) + length us \<le> nat LOGSIZE - 1" "1 \<le> l_outstanding (log s1)"
    using Cons.prems 1(3) by (auto simp: h log_add_def log_same_def)
  from Cons.IH [OF 1(2) this] obtain t where t: "for_each us (\<lambda>(bn, g). logged_update bn g) s1 = Inr t" "log_quiet p (touched us (log_add bn bs)) t"
    "log_same (log s1) (log t)" "content (log_dev s) t = changed us (content (log_dev s) s1)" "disk t = disk s1" "dwrites t = dwrites s1"
    unfolding h by blast
  have "log_same (log s) (log t)" using 1(3) t(3) by (simp add: log_same_def)
  then show ?case using 1 t by (simp add: u touched_def changed_def)
qed

lemma log_quiet_content: "log_quiet p [] s \<Longrightarrow> content (log_dev s) s = disk s"
  using refs0_content [of "log_dev s" s] by (auto simp: log_quiet_def log_ready_def log_idle_def binv_def)

lemma transaction_commit:
  fixes s :: "'a logstate_scheme"
  assumes "log_quiet p [] s" and "l_outstanding (log s) = 0" and "length us \<le> nat MAXOPBLOCKS" and "\<forall>u \<in> set us. home (log s) (fst u)"
  shows "\<exists>(r :: 'a logstate_scheme) t t'. log_ready p (touched us []) r \<and> commit r = Inr t \<and> log t' = (log s)\<lparr>lh_n := 0, lh_block := lh_block (log r)\<rparr>
    \<and> transaction us s = Inr t' \<and> log_ready p [] t' \<and> view (log_dev s) t' = view (log_dev s) t
    \<and> l_start (log r) = l_start (log s) \<and> l_dev (log r) = l_dev (log s) \<and> disk r = disk s \<and> dwrites r = dwrites s
    \<and> content (log_dev s) r = changed us (disk s) \<and> refs (log_dev s) r = (\<lambda>b. if b \<in> set (touched us []) then 1 else 0)"
proof -
  let ?l0 = "(log s)\<lparr>l_outstanding := 1\<rparr>"
  let ?s0 = "(lk_cycle s)\<lparr>log := ?l0\<rparr>"
  have q: "log_ready p [] s" "\<not> l_committing (log s)" "l_size (log s) = LOGSIZE" "refs (log_dev s) s = (\<lambda>_. 0)" and n0: "lh_n (log s) = 0"
    using assms(1) by (auto simp: log_quiet_def log_ready_def logs_def)
  have ca: "calm p s" using q(1) by (simp add: log_ready_def log_idle_def binv_def)
  have 0: "begin_op s = Inr ?s0" using begin_op_eq [OF ca] assms(2) q(2) n0 by simp
  have q0: "log_quiet p [] ?s0"
    using log_ready_fields [OF q(1), of ?l0] q by (simp add: log_quiet_def lk_comm)
  have h0: "home (log ?s0) = home (log s)" by (simp add: home_def hblk_def lblk_def fun_eq_iff)
  have "\<forall>u \<in> set us. home (log ?s0) (fst u)" unfolding h0 by (rule assms(4))
  from updates_ok [OF q0 this] assms(3) obtain s1 where 1: "for_each us (\<lambda>(bn, g). logged_update bn g) ?s0 = Inr s1"
    "log_quiet p (touched us []) s1" "log_same ?l0 (log s1)" "content (log_dev s) s1 = changed us (content (log_dev s) s)"
    "disk s1 = disk s" "dwrites s1 = dwrites s" by (auto simp: lk_comm)
  have ls: "l_start (log s1) = l_start (log s)" "l_dev (log s1) = l_dev (log s)" "l_outstanding (log s1) = 1" "\<not> l_committing (log s1)"
    "l_size (log s1) = l_size (log s)" using 1(3) q(2) by (simp_all add: log_same_def)
  let ?lr = "(log s1)\<lparr>l_outstanding := 0, l_committing := True\<rparr>"
  let ?r = "(lk_cycle s1)\<lparr>log := ?lr\<rparr>"
  have r: "log_ready p (touched us []) ?r" using 1(2) by (intro log_ready_fields) (simp_all add: log_quiet_def)
  from commit_post [OF r] obtain t where t: "commit ?r = Inr t" "log_ready p [] t" "log t = ?lr\<lparr>lh_n := 0\<rparr>" by auto
  have ct: "calm p t" "calm p s1" using t(2) 1(2) by (simp_all add: log_quiet_def log_ready_def log_idle_def binv_def)
  let ?t = "(lk_cycle t)\<lparr>log := (log t)\<lparr>l_committing := False\<rparr>, proc := wake ChLog (Some p) (proc t)\<rparr>"
  have e: "end_op s1 = Inr ?t" using end_op_last [OF ct(2) ls(3,4) t(1) ct(1)] .
  have "log_ready p [] ?t"
    using t(2) by (intro log_ready_proc log_ready_fields) (simp_all add: wake_def lk_comm)
  moreover have "log ?t = (log s)\<lparr>lh_n := 0, lh_block := lh_block (log ?r)\<rparr>"
    using t(3) ls assms(2) q(2) by (simp add: log.equality)
  moreover have "transaction us s = Inr ?t" using 0 1(1) e by (simp add: transaction_def)
  moreover have "view (log_dev s) ?t = view (log_dev s) t" by simp
  moreover have "refs (log_dev s) ?r = (\<lambda>b. if b \<in> set (touched us []) then 1 else 0)"
    using 1(2) ls(2) by (auto simp: log_quiet_def lk_comm)
  moreover have "content (log_dev s) ?r = changed us (disk s)" using 1(4) log_quiet_content [OF assms(1)] by (simp add: lk_comm)
  ultimately show ?thesis using r t(1) ls 1(5,6) by (intro exI [of _ ?r] exI [of _ t] exI [of _ ?t]) (simp add: lk_comm)
qed

text \<open>
  C1: system calls are atomic with respect to crashes. Let a system call change at most ten blocks
  outside the log, any of them several times, between \<open>begin_op\<close> and \<open>end_op\<close>, with no other call in
  progress. It returns with all the changes on the disk, and the next transaction can start. Let the
  machine lose power after any number \<open>k\<close> of the call's disk writes, and again any number of times
  during recovery: the recovery that is not interrupted returns, and outside the log the disk has
  either none of the changes (\<open>k\<close> is at most the number of changed blocks: the header is not written yet)
  or all of them. A disk write is one block.
\<close>

theorem transaction_atomic:
  fixes s :: logstate
  assumes "log_quiet p [] s" and "l_outstanding (log s) = 0" and "length us \<le> nat MAXOPBLOCKS" and "\<forall>u \<in> set us. home (log s) (fst u)"
  shows "\<exists>t W. transaction us s = Inr t \<and> dwrites t = dwrites s @ W \<and> log_quiet p [] t
    \<and> (\<forall>b. home (log s) b \<longrightarrow> disk t b = changed us (disk s) b)
    \<and> (\<forall>k q (u :: logstate). fresh q u \<and> l_start (log u) = l_start (log s)
         \<and> (recovery_cut (l_start (log s)))\<^sup>*\<^sup>* (puts (take k W) (disk s)) (disk u) \<longrightarrow>
         (\<exists>u'. recover_from_log u = Inr u' \<and> log_ready q [] u'
            \<and> (\<forall>b. home (log s) b \<longrightarrow> disk u' b = (if card (fst ` set us) < k then changed us (disk s) b else disk s b))))"
proof -
  let ?V = "changed us (disk s)"
  from transaction_commit [OF assms] obtain r t0 t :: logstate where r: "log_ready p (touched us []) r" "commit r = Inr t0"
    "log t = (log s)\<lparr>lh_n := 0, lh_block := lh_block (log r)\<rparr>" "transaction us s = Inr t" "log_ready p [] t"
    "view (log_dev s) t = view (log_dev s) t0" "l_start (log r) = l_start (log s)" "l_dev (log r) = l_dev (log s)"
    "disk r = disk s" "dwrites r = dwrites s" "content (log_dev s) r = ?V"
    "refs (log_dev s) r = (\<lambda>b. if b \<in> set (touched us []) then 1 else 0)" by blast
  note eq = represents_start [OF r(7)]
  have len: "length (touched us []) = card (fst ` set us)"
    using r(1) distinct_card [of "touched us []"] by (simp add: log_ready_def fits_def)
  have V: "(if P \<and> b \<in> set (touched us []) then ?V b else disk s b) = (if P then ?V b else disk s b)" for P b
    using changed_other [of b us "disk s"] by auto
  from commit_post [OF r(1)] r(2) obtain W where w: "dwrites t0 = dwrites r @ W" "refs (log_dev r) t0 = unpinned False (touched us []) (refs (log_dev r) r)"
    "\<forall>b. home (log r) b \<longrightarrow> disk t0 b = (if b \<in> set (touched us []) then content (log_dev r) r b else disk r b)" by auto
  from commit_crash [OF r(1)] r(2) w(1) have cr: "\<forall>k q (u :: logstate). fresh q u \<and> l_start (log u) = l_start (log r)
       \<and> (recovery_cut (l_start (log r)))\<^sup>*\<^sup>* (puts (take k W) (disk r)) (disk u) \<longrightarrow>
       (\<exists>u'. recover_from_log u = Inr u' \<and> log_ready q [] u' \<and> (\<forall>b. home (log r) b \<longrightarrow>
         disk u' b = (if length (touched us []) < k \<and> b \<in> set (touched us []) then content (log_dev r) r b else disk r b)))" by auto
  have d: "disk t = disk t0" "dwrites t = dwrites s @ W" "refs (log_dev s) t = refs (log_dev s) t0"
    using arg_cong [OF r(6), of v_disk] arg_cong [OF r(6), of v_writes] arg_cong [OF r(6), of v_refs] w(1) r(10) by simp_all
  have "disk t b = ?V b" if "home (log s) b" for b
    using w(3) [rule_format, of b] that changed_other [of b us "disk s"] eq unfolding r(8,9,11) by (cases "b \<in> fst ` set us") (simp_all add: d(1))
  moreover have "refs (log_dev s) t = (\<lambda>_. 0)" unfolding d(3) using w(2) unfolding r(8,12) by (simp add: unpinned_def fun_eq_iff)
  then have "log_quiet p [] t" using r(3,5) assms(1) by (simp add: log_quiet_def)
  ultimately show ?thesis using r(4) d(2) cr unfolding r(7,8,9,11) V len conjunct2 [OF eq] by blast
qed

text \<open>A disk with an empty log at block 256, and a cache in which nothing is referenced.\<close>

definition log_demo_log :: log where
  "log_demo_log = \<lparr>l_start = 256, l_size = 30, l_outstanding = 0, l_committing = False, l_dev = 1, lh_n = 0, lh_block = (\<lambda>_. 0)\<rparr>"

definition log_demo :: "(u32 \<Rightarrow> block) \<Rightarrow> logstate" where
  "log_demo D = (bio_demo \<lparr>log = log_demo_log\<rparr>)\<lparr>disk := D, log := log_demo_log\<rparr>"

abbreviation demo_disk :: "u32 \<Rightarrow> block" where
  "demo_disk \<equiv> \<lambda>n. replicate 1024 (ucast n)"

lemma log_demo_fresh: "fresh 0 (log_demo D)"
proof -
  let ?s = "bio_demo \<lparr>log = log_demo_log\<rparr> :: logstate"
  note ok = bio_demo_ok [where m = "\<lparr>log = log_demo_log\<rparr>"]
  have nd: "b_dev (bufs ?s b) \<noteq> 1" if "b < NBUF" for b
    using ok(4) [of b "b_blockno (bufs ?s b)"] that by (auto simp: hasbuf_def)
  have r: "refs 1 (log_demo D) b = 0" for b using ok(3) by (simp add: log_demo_def refs_def)
  have "bc_inv 1 (log_demo D)" using ok(2) nd by (auto simp: bc_inv_def log_demo_def)
  moreover have "calm 0 (log_demo D)" using ok(1) by (simp add: log_demo_def)
  ultimately show ?thesis using ok(7) r by (simp add: fresh_def binv_def log_demo_def log_demo_log_def)
qed

lemma log_demo_quiet: "log_quiet 0 [] (log_demo demo_disk)"
proof -
  have "hdr_ok (log (log_demo demo_disk)) (disk (log_demo demo_disk)) []"
  proof -
    have "le_nat (replicate 4 (256 :: u8)) = 0" by code_simp
    then show ?thesis by (simp add: hdr_ok_def log_demo_def log_demo_log_def hblk_def rd32_def slice_def u32_of_bytes_def)
  qed
  then show ?thesis using log_demo_fresh [of demo_disk] conjunct1 [OF fresh_idle [OF log_demo_fresh]]
    by (simp add: log_quiet_def log_ready_def fresh_def logs_def) (simp add: log_demo_def log_demo_log_def)
qed

theorem transaction_atomic_witness:
  "\<exists>t W u'. transaction [(7, \<lambda>_. replicate 1024 9)] (log_demo demo_disk) = Inr t \<and> disk t 7 = replicate 1024 9
     \<and> recover_from_log (log_demo (puts (take 2 W) demo_disk)) = Inr u' \<and> disk u' 7 = replicate 1024 9"
proof -
  let ?s = "log_demo demo_disk" and ?us = "[(7, \<lambda>_. replicate 1024 9)] :: (u32 \<times> (block \<Rightarrow> block)) list"
  have lg: "log (log_demo D) = log_demo_log" "disk (log_demo D) = D" for D by (simp_all add: log_demo_def)
  have h: "home (log ?s) 7"
    using word_of_int_near [of 7 256] word_of_int_near [of 7 "257 + int i" for i]
    by (auto simp: home_def lg hblk_def lblk_def log_demo_log_def)
  have o: "l_outstanding (log ?s) = 0" by (simp add: lg log_demo_log_def)
  from transaction_atomic [OF log_demo_quiet o, of ?us] h obtain t W where t: "transaction ?us ?s = Inr t"
    "\<forall>b. home (log ?s) b \<longrightarrow> disk t b = changed ?us (disk ?s) b"
    "\<forall>k q (u :: logstate). fresh q u \<and> l_start (log u) = l_start (log ?s) \<and> (recovery_cut (l_start (log ?s)))\<^sup>*\<^sup>* (puts (take k W) (disk ?s)) (disk u) \<longrightarrow>
       (\<exists>u'. recover_from_log u = Inr u' \<and> log_ready q [] u'
          \<and> (\<forall>b. home (log ?s) b \<longrightarrow> disk u' b = (if card (fst ` set ?us) < k then changed ?us (disk ?s) b else disk ?s b)))"
    by auto
  let ?u = "log_demo (puts (take 2 W) demo_disk)"
  have "fresh 0 ?u \<and> l_start (log ?u) = l_start (log ?s) \<and> (recovery_cut (l_start (log ?s)))\<^sup>*\<^sup>* (puts (take 2 W) (disk ?s)) (disk ?u)"
    using log_demo_fresh by (simp add: lg)
  with t(3) obtain u' where u': "recover_from_log ?u = Inr u'" "\<forall>b. home (log ?s) b \<longrightarrow> disk u' b = (if card (fst ` set ?us) < 2 then changed ?us (disk ?s) b else disk ?s b)"
    by blast
  have "disk t 7 = replicate 1024 9" "disk u' 7 = replicate 1024 9" using t(2) u'(2) h by (simp_all add: changed_def)
  then show ?thesis using t(1) u'(1) by blast
qed



end
