(* ===== verification/Sched.thy ===== *)
theory Sched
  imports Sleeplock
begin

text \<open>
  Scheduling (\<open>scheduler\<close>, \<open>sched\<close>, \<open>yield\<close>, \<open>sleep\<close> and \<open>wakeup\<close> of kernel/proc.c): on a hart, every runnable
  process runs once in each pass over the table, and a process that sleeps runs again after a
  wakeup on its channel.
\<close>

section \<open>One step of the scheduler\<close>

abbreviation runnable :: "'a pstate_scheme \<Rightarrow> nat \<Rightarrow> bool" where
  "runnable s p \<equiv> p_state (proc s p) = RUNNABLE"

text \<open>The state in which the scheduler switches to \<open>p\<close>.\<close>

definition dispatched :: "nat \<Rightarrow> 'a pstate_scheme \<Rightarrow> 'a pstate_scheme" where
  "dispatched p s =
     (let t = upd_proc p (\<lambda>q. q\<lparr>p_state := RUNNING\<rparr>) (lk_on (ProcLock p) s)
      in set_mycpu ((mycpu t)\<lparr>cproc := Some p\<rparr>) t)"

definition idle :: "'a pstate_scheme \<Rightarrow> bool" where
  "idle s \<longleftrightarrow> cpu_ok s \<and> procs_free s \<and> noff (mycpu s) = 0"

lemma idle_cycle [simp]: "idle (lk_cycle s) = idle s"
  by (simp add: idle_def procs_free_def lk_comm mycpu_def cpuid_def)

lemma dispatched_cycle [simp]: "dispatched p (lk_cycle s) = dispatched p s"
  by (simp add: dispatched_def lk_on_cycle)

lemma scheduler_from_eq:
  assumes "idle s" "set ps \<subseteq> {..<NPROC}"
  shows "scheduler_from ps s = Inr (case dropWhile (\<lambda>p. \<not> runnable s p) ps of
      [] \<Rightarrow> (None, if ps = [] then s else lk_cycle s) | p # qs \<Rightarrow> (Some (p, qs), dispatched p s))"
  using assms
proof (induction ps arbitrary: s)
  case (Cons p ps)
  have f: "lk_free (ProcLock p) s" "cpu_ok s" using Cons.prems by (auto simp: idle_def procs_free_def)
  have ih: "scheduler_from ps (lk_cycle s) = Inr (case dropWhile (\<lambda>p. \<not> runnable s p) ps of
      [] \<Rightarrow> (None, lk_cycle s) | p # qs \<Rightarrow> (Some (p, qs), dispatched p s))"
    using Cons.IH [of "lk_cycle s"] Cons.prems by (cases "dropWhile (\<lambda>p. \<not> runnable s p) ps") (simp_all add: lk_comm del: dropWhile_eq_Nil_conv)
  show ?case using f ih by (simp add: lk_calc Let_def dispatched_def del: scheduler_from.simps(1))
qed simp

section \<open>A pass\<close>

text \<open>
  The time slice of a process, from the switch to it until it switches back in \<open>sched\<close>: it comes back
  with its own lock held and no other, with interrupts off, and whatever it did, it has not taken a runnable
  process off the hart's hands (only the scheduler marks a process running).
\<close>

definition slice :: "nat \<Rightarrow> 'a pstate_scheme \<Rightarrow> 'a pstate_scheme \<Rightarrow> bool" where
  "slice p s t \<longleftrightarrow> holding (ProcLock p) t \<and> (\<forall>q < NPROC. q \<noteq> p \<longrightarrow> lk_free (ProcLock q) t)
     \<and> noff (mycpu t) = 1 \<and> \<not> intr_get t \<and> (\<forall>q. q \<noteq> p \<and> runnable s q \<longrightarrow> runnable t q)"

inductive pass :: "nat list \<Rightarrow> 'a pstate_scheme \<Rightarrow> nat list \<Rightarrow> 'a pstate_scheme \<Rightarrow> bool" where
  stop: "scheduler_from ps s = Inr (None, s') \<Longrightarrow> pass ps s [] s'"
| run: "scheduler_from ps s = Inr (Some (p, qs), s1) \<Longrightarrow> slice p s1 s2 \<Longrightarrow> sched_back p s2 = Inr s3 \<Longrightarrow>
     pass qs s3 rs s' \<Longrightarrow> pass ps s (p # rs) s'"

lemma sched_back_idle:
  assumes "slice p s t" "p < NPROC"
  shows "\<exists>u. sched_back p t = Inr u \<and> idle u \<and> proc u = proc t"
  using assms unfolding slice_def idle_def procs_free_def cpu_ok_def lk_free_def
  by (auto simp: sched_back_def lock_defs Let_def)

lemma dropWhile_split:
  assumes "dropWhile P ps = p # qs" "sorted_wrt (<) ps"
  shows "\<not> P p" "p \<in> set ps" "set qs \<subseteq> set ps" "sorted_wrt (<) (p # qs)" "q \<in> set ps \<Longrightarrow> \<not> P q \<Longrightarrow> q = p \<or> q \<in> set qs"
proof -
  have e: "ps = takeWhile P ps @ p # qs" using assms(1) takeWhile_dropWhile_id [of P ps] by simp
  then have st: "set ps = set (takeWhile P ps) \<union> insert p (set qs)" by (metis list.simps(15) set_append)
  show "\<not> P p" using assms(1) by (metis hd_dropWhile list.distinct(1) list.sel(1))
  show "p \<in> set ps" "set qs \<subseteq> set ps" unfolding st by auto
  show "sorted_wrt (<) (p # qs)" using assms(2) by (subst (asm) e) (simp add: sorted_wrt_append)
  show "q = p \<or> q \<in> set qs" if "q \<in> set ps" "\<not> P q" using that st set_takeWhileD [of q P ps] by blast
qed

lemma runnable_dispatched: "runnable (dispatched p s) q \<longleftrightarrow> q \<noteq> p \<and> runnable s q"
  by (simp add: dispatched_def Let_def upd_proc_def set_mycpu_def lk_comm)

lemma pass_fair:
  assumes "pass ps s rs s'" "idle s" "sorted_wrt (<) ps" "set ps \<subseteq> {..<NPROC}"
  shows "idle s' \<and> set rs \<subseteq> set ps \<and> sorted_wrt (<) rs \<and> (\<forall>q \<in> set ps. runnable s q \<longrightarrow> q \<in> set rs)"
  using assms
proof (induction rule: pass.induct)
  case (stop ps s s')
  have "dropWhile (\<lambda>p. \<not> runnable s p) ps = []" "idle s'"
    using stop by (auto simp: scheduler_from_eq split: list.splits if_splits)
  then show ?case by (auto simp: dropWhile_eq_Nil_conv)
next
  case (run ps s p qs s1 s2 s3 rs s')
  have d: "dropWhile (\<lambda>p. \<not> runnable s p) ps = p # qs" "s1 = dispatched p s"
    using run.hyps(1) scheduler_from_eq [OF run.prems(1,3)] by (auto split: list.splits)
  note sp = dropWhile_split [OF d(1) run.prems(2)]
  have "p < NPROC" using sp(2) run.prems(3) by auto
  from sched_back_idle [OF run.hyps(2) this] run.hyps(3) have s3: "idle s3" "proc s3 = proc s2" by auto
  have ih: "idle s'" "set rs \<subseteq> set qs" "sorted_wrt (<) rs" "\<forall>q \<in> set qs. runnable s3 q \<longrightarrow> q \<in> set rs"
    using run.IH [OF s3(1)] sp(3,4) run.prems(3) by auto
  have "q \<in> set (p # rs)" if "q \<in> set ps" "runnable s q" for q
  proof (cases "q = p")
    case False
    then have "runnable s2 q" using run.hyps(2) that(2) by (auto simp: slice_def d(2) runnable_dispatched)
    then show ?thesis using ih(4) s3(2) sp(5) that False by auto
  qed simp
  moreover have "sorted_wrt (<) (p # rs)" using ih(2,3) sp(4) by auto
  ultimately show ?case using ih(1,2) sp(2,3) by auto
qed

lemma idle_on: "idle s \<Longrightarrow> idle (intr_on s)" and proc_on: "proc (intr_on s) = proc s"
  by (auto simp: idle_def cpu_ok_def procs_free_def lk_free_def lock_defs)

lemma scheduler_first:
  assumes "idle s" "p < NPROC" "runnable s p" "\<forall>q < p. \<not> runnable s q"
  shows "scheduler s = Inr (Some (p, [Suc p..<NPROC]), dispatched p (intr_on s))"
proof -
  have "dropWhile (\<lambda>q. \<not> runnable s q) ([0..<p] @ p # [Suc p..<NPROC]) = p # [Suc p..<NPROC]"
    using assms(3,4) by (subst dropWhile_append2) auto
  moreover have "[0..<NPROC] = [0..<p] @ p # [Suc p..<NPROC]"
    using assms(2) by (metis le_add_same_cancel1 less_imp_le_nat upt_add_eq_append upt_conv_Cons le_add_diff_inverse zero_le)
  ultimately have "dropWhile (\<lambda>q. \<not> runnable s q) [0..<NPROC] = p # [Suc p..<NPROC]" by metis
  then show ?thesis
    using scheduler_from_eq [OF idle_on [OF assms(1)], of "[0..<NPROC]"] by (simp add: scheduler_def proc_on atLeast0LessThan del: NPROC_def)
qed


text \<open>A hart that runs process 0, or its scheduler, with process 3 runnable.\<close>

definition sched_demo :: "nat option \<Rightarrow> pstate" where
  "sched_demo me = \<lparr>hart = 0, sie = (\<lambda>_. True), cpus = (\<lambda>_. \<lparr>cproc = me, noff = 0, intena = False\<rparr>),
     locks = (\<lambda>_. \<lparr>locked = False, lname = [], lcpu = None\<rparr>), pmem = (\<lambda>_. 0),
     freelist = 0, kend = 0x80040000, kernel_pagetable = 0, trampoline = 0, etext = 0,
     proc = (\<lambda>p. proc0\<lparr>p_state := if p = 3 then RUNNABLE else UNUSED\<rparr>),
     shmem = (\<lambda>n. \<lparr>sh_PHADDR = 0, sh_numberofusers = 0, sh_state = - 1, sh_using_top_pid = - 1\<rparr>),
     initproc = None, nextpid = 1, forkret_pc = 0, initcode = 0\<rparr>"

lemma sched_demo_ok:
  "idle (sched_demo me)" "runnable (sched_demo me) p \<longleftrightarrow> p = 3" "calm 0 (sched_demo (Some 0))" "noff (mycpu (sched_demo me)) = 0"
  by (simp_all add: sched_demo_def idle_def calm_def cpu_ok_def procs_free_def lk_free_def lock_defs proc0_def)


section \<open>Sleeping\<close>

lemma sleep_enter_eq:
  assumes "calm p s" "lk \<noteq> ProcLock p" "noff (mycpu s) = 0"
  shows "sleep_enter ch lk (lk_on lk s) = Inr (intr_get s,
    (lk_on (ProcLock p) s)\<lparr>proc := (proc s)(p := (proc s p)\<lparr>p_chan := Some ch, p_state := SLEEPING\<rparr>)\<rparr>)"
proof -
  note c = calmD [OF assms(1)]
  have "noff (mycpu (lk_on (ProcLock p) s)) = 1" "\<not> intr_get (lk_on (ProcLock p) s)" "intena (mycpu (lk_on (ProcLock p) s)) = intr_get s"
    using assms(3) by (simp_all add: lk_on_fields mycpu_def cpuid_def intr_get_def)
  then show ?thesis
    using c assms(2) by (simp add: sleep_enter_def sched_enter_def lk_calc lk_comm upd_proc_def holding_lk_on)
qed

lemma sleep_resume_eq:
  assumes "idle t" "p < NPROC" "lk_free lk t" "lk \<noteq> ProcLock p"
  shows "\<exists>v. sleep_resume p lk ie (dispatched p t) = Inr v \<and> holding lk v \<and> cproc (mycpu v) = Some p
    \<and> proc v = (proc t)(p := (proc t p)\<lparr>p_state := RUNNING, p_chan := None\<rparr>)"
  using assms unfolding idle_def procs_free_def lk_free_def cpu_ok_def
  by (auto simp: sleep_resume_def sched_resume_def dispatched_def lk_on_def upd_proc_def lock_defs Let_def)



end
