(* ===== verification/Grep.thy ===== *)
theory Grep
  imports Prelude
begin

text \<open>
  The pattern search of user/grep.c. A C string is the list of its characters without the terminator, and
  \<open>chr_at s i\<close> is \<open>s[i]\<close>, which is 0 at the terminator. \<open>read\<close> and \<open>write\<close> are system calls: the input is
  a function that gives at most the number of bytes asked for, the output the list of the lines written.
\<close>

section \<open>The matcher\<close>

definition chr_at :: "u8 list \<Rightarrow> nat \<Rightarrow> u8" where
  "chr_at s i = (if i < length s then s ! i else 0)"

abbreviation "caret \<equiv> 94 :: u8"
abbreviation "dollar \<equiv> 36 :: u8"
abbreviation "star \<equiv> 42 :: u8"
abbreviation "dot \<equiv> 46 :: u8"
abbreviation "newline \<equiv> 10 :: u8"

lemma chr_at_simps [simp]: "chr_at [] i = 0" "chr_at (c # s) 0 = c" "chr_at (c # s) (Suc i) = chr_at s i"
  by (simp_all add: chr_at_def)

function matchhere :: "u8 list \<Rightarrow> u8 list \<Rightarrow> bool" and matchstar :: "u8 \<Rightarrow> u8 list \<Rightarrow> u8 list \<Rightarrow> bool" where
  "matchhere re text =
     (if chr_at re 0 = 0 then True
      else if chr_at re 1 = star then matchstar (chr_at re 0) (drop 2 re) text
      else if chr_at re 0 = dollar \<and> chr_at re 1 = 0 then chr_at text 0 = 0
      else if chr_at text 0 \<noteq> 0 \<and> (chr_at re 0 = dot \<or> chr_at re 0 = chr_at text 0) then matchhere (drop 1 re) (drop 1 text)
      else False)"
| "matchstar c re text =
     (if matchhere re text then True
      else if chr_at text 0 \<noteq> 0 \<and> (chr_at text 0 = c \<or> c = dot) then matchstar c re (drop 1 text)
      else False)"
  by pat_completeness auto

termination
  by (relation "measures [\<lambda>x. case x of Inl (re, _) \<Rightarrow> length re | Inr (_, re, _) \<Rightarrow> length re,
        \<lambda>x. case x of Inl (_, t) \<Rightarrow> 0 | Inr (_, _, t) \<Rightarrow> Suc (length t)]")
    (auto simp: chr_at_def split: if_splits)

declare matchhere.simps [simp del] matchstar.simps [simp del]

function match_from :: "u8 list \<Rightarrow> u8 list \<Rightarrow> bool" where
  "match_from re text =
     (if matchhere re text then True
      else if chr_at text 0 \<noteq> 0 then match_from re (drop 1 text)
      else False)"
  by pat_completeness auto

termination
  by (relation "measure (\<lambda>(re, text). length text)") (auto simp: chr_at_def split: if_splits)

declare match_from.simps [simp del]

definition match :: "u8 list \<Rightarrow> u8 list \<Rightarrow> bool" where
  "match re text =
     (if chr_at re 0 = caret then matchhere (drop 1 re) text
      else match_from re text)"

section \<open>What a pattern means\<close>

text \<open>A pattern is a sequence of characters, possibly repeated, and may be tied to either end of the text.\<close>

datatype item = One u8 | Many u8

fun items :: "u8 list \<Rightarrow> item list" where
  "items [] = []"
| "items [c] = (if c = dollar then [] else [One c])"
| "items (c # d # re) = (if d = star then Many c # items re else One c # items (d # re))"

fun at_end :: "u8 list \<Rightarrow> bool" where
  "at_end [] = False"
| "at_end [c] = (c = dollar)"
| "at_end (c # d # re) = (if d = star then at_end re else at_end (d # re))"

definition stands :: "u8 \<Rightarrow> u8 \<Rightarrow> bool" where
  "stands c x \<longleftrightarrow> c = dot \<or> c = x"

fun lang :: "item list \<Rightarrow> u8 list set" where
  "lang [] = {[]}"
| "lang (One c # is) = {x # w |x w. stands c x \<and> w \<in> lang is}"
| "lang (Many c # is) = {u @ w |u w. (\<forall>x \<in> set u. stands c x) \<and> w \<in> lang is}"

definition here :: "u8 list \<Rightarrow> u8 list \<Rightarrow> bool" where
  "here re tx \<longleftrightarrow> (\<exists>u v. tx = u @ v \<and> u \<in> lang (items re) \<and> (at_end re \<longrightarrow> v = []))"

lemma hereI: "tx = u @ v \<Longrightarrow> u \<in> lang (items re) \<Longrightarrow> (at_end re \<longrightarrow> v = []) \<Longrightarrow> here re tx"
  unfolding here_def by blast

lemma here_Nil: "here [] tx"
  by (simp add: here_def)

lemma here_star: "here (c # star # re) tx \<longleftrightarrow> (\<exists>u v. tx = u @ v \<and> (\<forall>x \<in> set u. stands c x) \<and> here re v)"
proof
  assume "here (c # star # re) tx"
  then obtain y v where y: "tx = y @ v" "y \<in> lang (Many c # items re)" "at_end re \<longrightarrow> v = []" unfolding here_def by auto
  then obtain u w where "y = u @ w" "\<forall>x \<in> set u. stands c x" "w \<in> lang (items re)" by auto
  moreover from this have "here re (w @ v)" using y(3) by (intro hereI [of _ w v]) simp_all
  moreover have "tx = u @ w @ v" using y(1) calculation(1) by simp
  ultimately show "\<exists>u v. tx = u @ v \<and> (\<forall>x \<in> set u. stands c x) \<and> here re v" by blast
next
  assume "\<exists>u v. tx = u @ v \<and> (\<forall>x \<in> set u. stands c x) \<and> here re v"
  then obtain u w v where w: "tx = u @ w @ v" "\<forall>x \<in> set u. stands c x" "w \<in> lang (items re)" "at_end re \<longrightarrow> v = []"
    by (auto simp: here_def)
  then have "u @ w \<in> lang (items (c # star # re))" by auto
  then show "here (c # star # re) tx" using w(1,4) by (intro hereI [of _ "u @ w" v]) simp_all
qed

lemma here_end: "here [dollar] tx \<longleftrightarrow> tx = []"
  by (simp add: here_def)

lemma items_one:
  assumes "re = [] \<longrightarrow> c \<noteq> dollar" "re = [] \<or> hd re \<noteq> star"
  shows "items (c # re) = One c # items re" "at_end (c # re) = at_end re"
  using assms by (cases re; simp)+

lemma here_one:
  assumes "re = [] \<longrightarrow> c \<noteq> dollar" "re = [] \<or> hd re \<noteq> star"
  shows "here (c # re) tx \<longleftrightarrow> (\<exists>x v. tx = x # v \<and> stands c x \<and> here re v)"
proof
  assume "here (c # re) tx"
  then obtain u v where u: "tx = u @ v" "u \<in> lang (One c # items re)" "at_end re \<longrightarrow> v = []"
    unfolding here_def items_one [OF assms] by blast
  then obtain x w where w: "u = x # w" "stands c x" "w \<in> lang (items re)" by auto
  then have "here re (w @ v)" using u(3) by (intro hereI [of _ w v]) simp_all
  then show "\<exists>x v. tx = x # v \<and> stands c x \<and> here re v" using u(1) w(1,2) by simp
next
  assume "\<exists>x v. tx = x # v \<and> stands c x \<and> here re v"
  then obtain x u v where "tx = (x # u) @ v" "stands c x" "u \<in> lang (items re)" "at_end re \<longrightarrow> v = []" by (auto simp: here_def)
  then show "here (c # re) tx" by (intro hereI [of tx "x # u" v]) (simp_all add: items_one [OF assms])
qed

text \<open>The loop of \<open>matchstar\<close>: zero or more characters that the item stands for.\<close>

definition after :: "u8 \<Rightarrow> (u8 list \<Rightarrow> bool) \<Rightarrow> u8 list \<Rightarrow> bool" where
  "after c P tx \<longleftrightarrow> (\<exists>u v. tx = u @ v \<and> (\<forall>x \<in> set u. stands c x) \<and> P v)"

lemma afterI: "tx = u @ v \<Longrightarrow> \<forall>x \<in> set u. stands c x \<Longrightarrow> P v \<Longrightarrow> after c P tx"
  unfolding after_def by blast

lemma after_Nil: "after c P [] \<longleftrightarrow> P []"
  by (simp add: after_def)

lemma after_Cons: "after c P (x # tx) \<longleftrightarrow> P (x # tx) \<or> stands c x \<and> after c P tx"
proof
  assume "after c P (x # tx)"
  then obtain u v where uv: "x # tx = u @ v" "\<forall>y \<in> set u. stands c y" "P v" by (auto simp: after_def)
  then show "P (x # tx) \<or> stands c x \<and> after c P tx" by (cases u) (auto intro: afterI)
next
  assume "P (x # tx) \<or> stands c x \<and> after c P tx"
  then show "after c P (x # tx)"
  proof
    assume "stands c x \<and> after c P tx"
    then obtain u v where "tx = u @ v" "\<forall>y \<in> set (x # u). stands c y" "P v" by (auto simp: after_def)
    then show ?thesis by (intro afterI [of _ "x # u" v]) simp_all
  qed (rule afterI [of _ "[]"], simp_all)
qed

lemma matchhere_here:
  "0 \<notin> set re \<Longrightarrow> 0 \<notin> set tx \<Longrightarrow> matchhere re tx = here re tx"
  "0 \<notin> set re \<Longrightarrow> 0 \<notin> set tx \<Longrightarrow> matchstar c re tx = after c (here re) tx"
proof (induction re tx and c re tx rule: matchhere_matchstar.induct)
  case (1 re tx)
  have t: "chr_at tx 0 = 0 \<longleftrightarrow> tx = []" using "1.prems" by (cases tx) auto
  show ?case
  proof (cases re)
    case Nil
    then show ?thesis by (simp add: matchhere.simps here_Nil)
  next
    case (Cons c r)
    have c: "c \<noteq> 0" using "1.prems" Cons by auto
    consider (many) r' where "r = star # r'" | (fin) "r = []" "c = dollar" | (one) "r = [] \<longrightarrow> c \<noteq> dollar" "r = [] \<or> hd r \<noteq> star"
      by (cases r) auto
    then show ?thesis
    proof cases
      case many
      then show ?thesis using "1.IH"(1) "1.prems" Cons c
        by (subst matchhere.simps) (simp add: here_star after_def)
    next
      case fin
      then show ?thesis using Cons t by (subst matchhere.simps) (simp add: here_end)
    next
      case one
      have ns: "chr_at re 1 \<noteq> star" using one(2) Cons by (cases r) auto
      have nd: "\<not> (chr_at re 0 = dollar \<and> chr_at re 1 = 0)" using one(1) Cons "1.prems" by (cases r) auto
      show ?thesis using "1.IH"(2) "1.prems" Cons c ns nd t here_one [OF one, of tx]
        by (subst matchhere.simps) (cases tx; auto simp: stands_def)
    qed
  qed
next
  case (2 c re tx)
  show ?case
  proof (cases tx)
    case Nil
    then show ?thesis using 2 by (subst matchstar.simps) (simp add: after_Nil)
  next
    case (Cons x t)
    then show ?thesis using 2 by (subst matchstar.simps) (auto simp: after_Cons stands_def)
  qed
qed

lemma match_from_here:
  "0 \<notin> set re \<Longrightarrow> 0 \<notin> set tx \<Longrightarrow> match_from re tx \<longleftrightarrow> (\<exists>u v. tx = u @ v \<and> here re v)"
proof (induction re tx rule: match_from.induct)
  case (1 re tx)
  show ?case
  proof (cases tx)
    case Nil
    then show ?thesis using 1 by (subst match_from.simps) (simp add: matchhere_here(1))
  next
    case (Cons x t)
    have "(\<exists>u v. x # t = u @ v \<and> here re v) \<longleftrightarrow> here re (x # t) \<or> (\<exists>u v. t = u @ v \<and> here re v)"
      by (auto simp: Cons_eq_append_conv)
    then show ?thesis using 1 Cons by (subst match_from.simps) (simp add: matchhere_here(1))
  qed
qed

text \<open>
  C33: the matcher of \<open>grep\<close> decides the language of the pattern. A pattern stands for a sequence of characters,
  \<open>.\<close> for any, each possibly with a star behind it for any number of repetitions; a leading caret ties it
  to the start of the text and a final dollar to the end. \<open>match\<close> returns true if and only if some part of
  the text, at the tied ends if there are any, is in that language. (A star that follows nothing
  it could repeat stands for itself.)
\<close>

theorem match_correct:
  assumes "0 \<notin> set re" and "0 \<notin> set tx"
  shows "match re tx \<longleftrightarrow>
    (let tied = (re \<noteq> [] \<and> hd re = caret); r = (if tied then tl re else re)
     in \<exists>u p v. tx = u @ p @ v \<and> p \<in> lang (items r) \<and> (tied \<longrightarrow> u = []) \<and> (at_end r \<longrightarrow> v = []))"
proof (cases "re \<noteq> [] \<and> hd re = caret")
  case True
  then obtain r where r: "re = caret # r" by (cases re) auto
  then have "0 \<notin> set r" using assms by simp
  then show ?thesis using r matchhere_here(1) [of r tx] assms(2) by (simp add: match_def here_def)
next
  case False
  then have "chr_at re 0 \<noteq> caret" by (cases re) auto
  then have "match re tx \<longleftrightarrow> (\<exists>u v. tx = u @ v \<and> here re v)" using match_from_here [OF assms] by (simp add: match_def)
  also have "\<dots> \<longleftrightarrow> (\<exists>u p v. tx = u @ p @ v \<and> p \<in> lang (items re) \<and> (at_end re \<longrightarrow> v = []))"
    unfolding here_def by metis
  finally show ?thesis using False by (simp only: Let_def if_False simp_thms)
qed

theorem match_correct_witness: "match [97, 42, 98, 36] [120, 97, 97, 98]"
proof -
  have "[97, 97, 98] \<in> lang (items [97, 42, 98, 36])"
    by (auto simp: stands_def intro!: exI [of _ "[97, 97]"])
  then show ?thesis
    using match_correct [of "[97, 42, 98, 36]" "[120, 97, 97, 98]"]
    by (simp add: Let_def) (metis append.right_neutral append_Cons append_Nil)
qed

section \<open>Reading lines\<close>

fun strchr :: "u8 list \<Rightarrow> u8 \<Rightarrow> nat option" where
  "strchr [] c = None"
| "strchr (x # s) c = (if x = 0 then None else if x = c then Some 0 else map_option Suc (strchr s c))"

lemma strchr_bound: "strchr s c = Some q \<Longrightarrow> q < length s"
  by (induction s arbitrary: q) (auto split: if_splits)

text \<open>The inner loop of \<open>grep\<close>: the lines written, and the text after the last newline.\<close>

function grep_lines :: "u8 list \<Rightarrow> u8 list \<Rightarrow> u8 list list \<times> u8 list" where
  "grep_lines re p =
     (case strchr p newline of
        None \<Rightarrow> ([], p)
      | Some q \<Rightarrow>
          let (out, rest) = grep_lines re (drop (q + 1) p)
          in (if match re (take q p) then take (q + 1) p # out else out, rest))"
  by pat_completeness auto

termination
  by (relation "measure (\<lambda>(re, p). length p)") (auto dest: strchr_bound)

declare grep_lines.simps [simp del]

text \<open>The input comes in pieces: \<open>read\<close> returns what there is of the next one, up to the number asked for.\<close>

fun read_piece :: "nat \<Rightarrow> u8 list list \<Rightarrow> u8 list \<times> u8 list list" where
  "read_piece n [] = ([], [])"
| "read_piece n (c # cs) = (take n c, if length c \<le> n then cs else drop n c # cs)"

lemma read_piece_length: "read_piece n cs = (got, cs') \<Longrightarrow> got \<noteq> [] \<Longrightarrow> length (concat cs') < length (concat cs)"
  by (cases cs) (auto split: if_splits)

function grep_loop :: "u8 list \<Rightarrow> u8 list \<Rightarrow> u8 list list \<Rightarrow> u8 list list" where
  "grep_loop re buf cs =
     (let (got, cs') = read_piece (1024 - length buf - 1) cs
      in if got = [] then []
         else let (out, rest) = grep_lines re (buf @ got)
              in out @ grep_loop re rest cs')"
  by pat_completeness auto

termination
  by (relation "measure (\<lambda>(re, buf, cs). length (concat cs))") (auto dest!: read_piece_length [OF sym])

declare grep_loop.simps [simp del]

definition grep :: "u8 list \<Rightarrow> u8 list list \<Rightarrow> u8 list list" where
  "grep pattern cs = grep_loop pattern [] cs"

lemma strchr_line: "0 \<notin> set l \<Longrightarrow> newline \<notin> set l \<Longrightarrow> strchr (l @ newline # t) newline = Some (length l)"
  by (induction l) auto

lemma strchr_none: "newline \<notin> set p \<Longrightarrow> strchr p newline = None"
  by (induction p) auto

lemma grep_lines_none: "newline \<notin> set p \<Longrightarrow> grep_lines re p = ([], p)"
  by (subst grep_lines.simps) (simp add: strchr_none)

lemma grep_lines_line:
  "0 \<notin> set l \<Longrightarrow> newline \<notin> set l \<Longrightarrow> grep_lines re (l @ newline # t) =
     ((if match re l then (l @ [newline]) # fst (grep_lines re t) else fst (grep_lines re t)), snd (grep_lines re t))"
  by (subst grep_lines.simps) (simp add: strchr_line split: prod.split)

text \<open>Induction over the lines of a text.\<close>

lemma lines_induct [case_names rest line]:
  assumes "\<And>p. newline \<notin> set p \<Longrightarrow> P p" and "\<And>l t. newline \<notin> set l \<Longrightarrow> P t \<Longrightarrow> P (l @ newline # t)"
  shows "P p"
proof (induction "length p" arbitrary: p rule: less_induct)
  case less
  show ?case
  proof (cases "newline \<in> set p")
    case True
    then obtain l t where "p = l @ newline # t" "newline \<notin> set l" by (metis split_list_first)
    then show ?thesis using assms(2) less by simp
  qed (rule assms(1))
qed

definition short_lines :: "u8 list \<Rightarrow> bool" where
  "short_lines p \<longleftrightarrow> (\<forall>h l t. p = h @ l @ newline # t \<and> newline \<notin> set l \<and> (h = [] \<or> last h = newline) \<longrightarrow> length l < 1023)"

lemma short_lines_line:
  assumes "short_lines (l @ newline # t)" "newline \<notin> set l"
  shows "length l < 1023" "short_lines t"
proof -
  show "length l < 1023" using assms unfolding short_lines_def by (metis append_Nil)
  show "short_lines t" unfolding short_lines_def
  proof (intro allI impI)
    fix h l' t' assume a: "t = h @ l' @ newline # t' \<and> newline \<notin> set l' \<and> (h = [] \<or> last h = newline)"
    have "l @ newline # t = (l @ newline # h) @ l' @ newline # t'" using a by simp
    moreover have "last (l @ newline # h) = newline" using a by auto
    ultimately show "length l' < 1023" using assms(1) a unfolding short_lines_def by blast
  qed
qed

lemma grep_lines_append:
  "0 \<notin> set a \<Longrightarrow> grep_lines re (a @ b) =
     (fst (grep_lines re a) @ fst (grep_lines re (snd (grep_lines re a) @ b)), snd (grep_lines re (snd (grep_lines re a) @ b)))"
  by (induction a rule: lines_induct) (simp_all add: grep_lines_none grep_lines_line)

lemma grep_lines_rest:
  "0 \<notin> set a \<Longrightarrow> newline \<notin> set (snd (grep_lines re a)) \<and> set (snd (grep_lines re a)) \<subseteq> set a
     \<and> length (snd (grep_lines re a)) \<le> length a \<and> (short_lines (a @ b) \<longrightarrow> short_lines (snd (grep_lines re a) @ b))"
proof (induction a rule: lines_induct)
  case (line l t)
  then show ?case using short_lines_line(2) [of l "t @ b"] by (auto simp: grep_lines_line)
qed (simp add: grep_lines_none)

lemma grep_loop_ok:
  assumes "newline \<notin> set buf" "length buf \<le> 1023" "0 \<notin> set (buf @ concat cs)" "short_lines (buf @ concat cs)" "[] \<notin> set cs"
  shows "grep_loop re buf cs = fst (grep_lines re (buf @ concat cs))"
  using assms
proof (induction re buf cs rule: grep_loop.induct)
  case (1 re buf cs)
  obtain got cs' where r: "read_piece (1024 - length buf - 1) cs = (got, cs')" by fastforce
  show ?case
  proof (cases "got = []")
    case True
    have "newline \<notin> set (buf @ concat cs)"
    proof (cases cs)
      case (Cons c cs'')
      then have "length buf = 1023" using r True "1.prems"(2,5) by auto
      show ?thesis
      proof
        assume "newline \<in> set (buf @ concat cs)"
        then obtain l t where l: "buf @ concat cs = l @ newline # t" "newline \<notin> set l" by (metis split_list_first)
        then have "length l < 1023" using short_lines_line(1) "1.prems"(4) by metis
        then have "newline = (buf @ concat cs) ! length l" "length l < length buf" using l \<open>length buf = 1023\<close> by simp_all
        then show False using "1.prems"(1) by (metis nth_append nth_mem)
      qed
    qed (use "1.prems" in simp)
    then show ?thesis using True r by (subst grep_loop.simps) (simp add: grep_lines_none)
  next
    case False
    have cc: "concat cs = got @ concat cs'" "[] \<notin> set cs'" using r "1.prems"(5) by (cases cs; auto split: if_splits)+
    have len: "length (buf @ got) \<le> 1023"
    proof -
      have "length got \<le> 1024 - length buf - 1" using r by (cases cs) auto
      then show ?thesis using "1.prems"(2) by simp
    qed
    have z: "0 \<notin> set (buf @ got)" using "1.prems"(3) cc(1) by auto
    let ?rest = "snd (grep_lines re (buf @ got))"
    note rst = grep_lines_rest [OF z, of re "concat cs'"]
    have "grep_loop re ?rest cs' = fst (grep_lines re (?rest @ concat cs'))"
    proof (rule "1.IH" [OF r [symmetric] refl False refl prod.collapse])
      show "0 \<notin> set (?rest @ concat cs')" using rst "1.prems"(3) cc(1) by auto
      show "short_lines (?rest @ concat cs')" using rst "1.prems"(4) cc(1) by simp
    qed (use rst len cc(2) in auto)
    then show ?thesis using r False grep_lines_append [OF z, of re "concat cs'"] cc(1)
      by (subst grep_loop.simps) (simp add: case_prod_unfold Let_def)
  qed
qed

lemma grep_lines_whole:
  assumes "\<And>l. l \<in> set ls \<Longrightarrow> 0 \<notin> set l \<and> newline \<notin> set l" "newline \<notin> set r"
  shows "grep_lines re (concat (map (\<lambda>l. l @ [newline]) ls) @ r) = (map (\<lambda>l. l @ [newline]) (filter (match re) ls), r)"
  using assms by (induction ls) (simp_all add: grep_lines_none grep_lines_line)

lemma split_first: "x \<notin> set a \<Longrightarrow> x \<notin> set b \<Longrightarrow> a @ x # s = b @ x # t \<Longrightarrow> a = b \<and> s = t"
proof (induction a arbitrary: b)
  case Nil
  then show ?case by (cases b) auto
next
  case (Cons y a)
  then show ?case by (cases b) auto
qed

lemma short_linesI:
  assumes "\<And>l. l \<in> set ls \<Longrightarrow> newline \<notin> set l \<and> length l < 1023" "newline \<notin> set r"
  shows "short_lines (concat (map (\<lambda>l. l @ [newline]) ls) @ r)"
  using assms
proof (induction ls)
  case (Cons k ls)
  let ?t = "concat (map (\<lambda>l. l @ [newline]) ls) @ r"
  have t: "short_lines ?t" using Cons by simp
  show ?case unfolding short_lines_def
  proof (intro allI impI, elim conjE)
    fix h l t assume e: "concat (map (\<lambda>l. l @ [newline]) (k # ls)) @ r = h @ l @ newline # t"
      and l: "newline \<notin> set l" and h: "h = [] \<or> last h = newline"
    have k: "newline \<notin> set k" "length k < 1023" using Cons.prems(1) [of k] by simp_all
    show "length l < 1023"
    proof (cases "h = []")
      case True
      then have "k @ newline # ?t = l @ newline # t" using e by simp
      then have "k = l" using split_first [OF k(1) l] by blast
      then show ?thesis using k(2) by simp
    next
      case False
      then have "newline \<in> set h" using h by (metis last_in_set)
      then obtain a b where ab: "h = a @ newline # b" "newline \<notin> set a" by (metis split_list_first)
      then have "k @ newline # ?t = a @ newline # (b @ l @ newline # t)" using e by simp
      then have "?t = b @ l @ newline # t" using split_first [OF k(1) ab(2)] by blast
      moreover have "b = [] \<or> last b = newline" using ab(1) h by (cases "b = []") auto
      ultimately show ?thesis using t l unfolding short_lines_def by blast
    qed
  qed
qed (auto simp: short_lines_def)



end
