(* ===== verification/Spec2Isabelle.thy ===== *)
theory Spec2Isabelle
  imports Sharing Boot Asm Journal Sched Grep
begin

text \<open>
  A verification development of the xv6 kernel with shared memory pages.
\<close>

end
